(* ===== verification/Mach_Prelude.thy ===== *)
theory Mach_Prelude
  imports Main "HOL-Library.Word" "HOL-Library.Monad_Syntax" "HOL-Library.Tree"
begin

text \<open>
  Shared vocabulary of the development: the machine types of the i386 kernel
  (\<open>unsigned int\<close>, addresses and port names are 32-bit words), the kernel's return
  codes, the treatment of \<open>assert\<close>, and the generic lemmas on lists, options and words
  that the component theories use.

  \<^bold>\<open>Assertions.\<close> Operations that contain \<open>assert\<close> (kern/assert.h) return an
  \<open>option\<close>: \<open>None\<close> is a failed assertion or an access outside an array, \<open>Some\<close> a
  normal return.  A theorem that an operation returns \<open>Some\<close> therefore says that none of
  its assertions fails, so that the kernel built without \<open>MACH_ASSERT\<close> (the STD+WS
  configuration) behaves as the model does.

  \<^bold>\<open>Locks.\<close> The configuration has \<open>NCPUS = 1\<close>: simple locks are empty macros and
  the kernel is not preempted, so each operation is one atomic step.
\<close>

unbundle bit_operations_syntax

subsection \<open>Machine types\<close>

type_synonym u32 = "32 word"
type_synonym u16 = "16 word"

type_synonym mach_port = u32  \<comment> \<open>\<open>mach_port_t\<close>: the name of a right in a space\<close>
type_synonym addr = u32       \<comment> \<open>kernel address of an object; 0 is the null pointer\<close>

datatype kern_return =
    KERN_SUCCESS
  | KERN_NO_SPACE
  | KERN_RESOURCE_SHORTAGE
  | KERN_NOT_IN_SET
  | KERN_NAME_EXISTS
  | KERN_INVALID_NAME
  | KERN_INVALID_TASK
  | KERN_INVALID_RIGHT
  | KERN_INVALID_VALUE
  | KERN_INVALID_ARGUMENT
  | KERN_UREFS_OVERFLOW
  | KERN_INVALID_CAPABILITY
  | KERN_RIGHT_EXISTS

subsection \<open>Assertions and array accesses\<close>

definition kassert :: "bool \<Rightarrow> unit option" where
  "kassert b = (if b then Some () else None)"

lemma kassert_simps [simp]:
  "kassert True = Some ()"
  "kassert False = None"
  by (simp_all add: kassert_def)

lemma kassert_eq_Some [simp]: "kassert b = Some u \<longleftrightarrow> b"
  by (simp add: kassert_def)

lemma kassert_bind_eq_Some [simp]:
  "Option.bind (kassert b) f = Some x \<longleftrightarrow> b \<and> f () = Some x"
  by (simp add: kassert_def)

text \<open>Reading an array element: an index outside the array is not a normal return.\<close>

definition nth_opt :: "'a list \<Rightarrow> nat \<Rightarrow> 'a option" where
  "nth_opt xs i = (if i < length xs then Some (xs ! i) else None)"

lemma nth_opt_Some [simp]: "i < length xs \<Longrightarrow> nth_opt xs i = Some (xs ! i)"
  by (simp add: nth_opt_def)

lemma nth_opt_eq_Some: "nth_opt xs i = Some x \<longleftrightarrow> i < length xs \<and> x = xs ! i"
  by (auto simp: nth_opt_def)

subsection \<open>Strictly sorted association lists\<close>

text \<open>
  The keys of a list of pairs are strictly increasing: the shape of the in-order listing
  of a search tree.
\<close>

definition sorted_keys :: "('k::linorder \<times> 'v) list \<Rightarrow> bool" where
  "sorted_keys xs \<longleftrightarrow> sorted_wrt (\<lambda>x y. fst x < fst y) xs"

lemma sorted_keys_simps [simp]:
  "sorted_keys []"
  "sorted_keys (x # xs) \<longleftrightarrow> (\<forall>y\<in>set xs. fst x < fst y) \<and> sorted_keys xs"
  "sorted_keys (xs @ ys) \<longleftrightarrow>
     sorted_keys xs \<and> sorted_keys ys \<and> (\<forall>x\<in>set xs. \<forall>y\<in>set ys. fst x < fst y)"
  by (simp_all add: sorted_keys_def sorted_wrt_append)

lemma sorted_keys_distinct: "sorted_keys xs \<Longrightarrow> distinct (map fst xs)"
  by (induction xs) auto

lemma sorted_keys_filter: "sorted_keys xs \<Longrightarrow> sorted_keys (filter P xs)"
  by (induction xs) auto

lemma sorted_keys_eqI:
  assumes "sorted_keys xs" "sorted_keys ys" "set xs = set ys"
  shows "xs = ys"
  using assms
proof (induction xs arbitrary: ys)
  case (Cons x xs)
  then obtain y ys' where ys: "ys = y # ys'" by (cases ys) auto
  have "x = y" using Cons.prems unfolding ys
    by (metis insert_iff list.set(2) order.asym sorted_keys_simps(2))
  moreover have "set xs = set ys'" using Cons.prems \<open>x = y\<close> unfolding ys by fastforce
  ultimately show ?case using Cons ys by auto
qed auto

lemma sorted_keys_key_inj:
  "sorted_keys xs \<Longrightarrow> x \<in> set xs \<Longrightarrow> y \<in> set xs \<Longrightarrow> fst x = fst y \<Longrightarrow> x = y"
  by (induction xs) auto

lemma map_of_sorted_keys_iff:
  "sorted_keys xs \<Longrightarrow> map_of xs k = Some v \<longleftrightarrow> (k, v) \<in> set xs"
  by (rule map_of_eq_Some_iff [OF sorted_keys_distinct])

lemma map_eqI: "(\<And>k v. f k = Some v \<longleftrightarrow> g k = Some v) \<Longrightarrow> f = g"
  by (rule ext) (metis not_Some_eq)

lemma map_of_append_left: "k \<notin> fst ` set ys \<Longrightarrow> map_of (xs @ ys) k = map_of xs k"
  by (induction xs) (auto simp: map_of_eq_None_iff)

lemma map_of_append_right: "k \<notin> fst ` set xs \<Longrightarrow> map_of (xs @ ys) k = map_of ys k"
  by (induction xs) auto

lemma map_of_None_all_less:
  "(\<And>x. x \<in> set xs \<Longrightarrow> fst x < (k::'k::linorder)) \<Longrightarrow> map_of xs k = None"
  by (fastforce simp: map_of_eq_None_iff)

lemma map_of_None_all_greater:
  "(\<And>x. x \<in> set xs \<Longrightarrow> (k::'k::linorder) < fst x) \<Longrightarrow> map_of xs k = None"
  by (fastforce simp: map_of_eq_None_iff)

lemma sorted_keys_hd:
  "sorted_keys xs \<Longrightarrow> x \<in> set xs \<Longrightarrow> fst (hd xs) \<le> fst x"
  by (cases xs) (auto simp: sorted_keys_def)

lemma sorted_keys_last:
  "sorted_keys xs \<Longrightarrow> xs \<noteq> [] \<Longrightarrow> x \<in> set xs \<Longrightarrow> fst x \<le> fst (last xs)"
  by (induction xs) (auto simp: sorted_keys_def intro: less_imp_le)

subsection \<open>Sequences of operations\<close>

text \<open>\<open>run_ops step ops s\<close> performs the operations one after the other and collects what they
  return.  Forward simulation carries over from single operations to sequences.\<close>

fun run_ops :: "('op \<Rightarrow> 's \<Rightarrow> ('out \<times> 's) option) \<Rightarrow> 'op list \<Rightarrow> 's \<Rightarrow> ('out list \<times> 's) option" where
  "run_ops step [] s = Some ([], s)"
| "run_ops step (x # xs) s =
     do { (y, s') \<leftarrow> step x s; (ys, s'') \<leftarrow> run_ops step xs s'; Some (y # ys, s'') }"

lemma run_ops_simulation:
  assumes step: "\<And>x c a y a'. R c a \<Longrightarrow> astep x a = Some (y, a') \<Longrightarrow>
      \<exists>c'. cstep x c = Some (y, c') \<and> R c' a'"
  shows "R c a \<Longrightarrow> run_ops astep xs a = Some (ys, a') \<Longrightarrow>
      \<exists>c'. run_ops cstep xs c = Some (ys, c') \<and> R c' a'"
proof (induction xs arbitrary: c a ys)
  case (Cons x xs)
  from Cons.prems(2) obtain y a1 ys' where a: "astep x a = Some (y, a1)"
    "run_ops astep xs a1 = Some (ys', a')" "ys = y # ys'"
    by (auto split: bind_splits)
  from step [OF Cons.prems(1) a(1)] obtain c1 where c: "cstep x c = Some (y, c1)" "R c1 a1"
    by blast
  from Cons.IH [OF c(2) a(2)] c(1) a(3) show ?case by auto
qed simp

lemma run_ops_invariant:
  assumes step: "\<And>x s y s'. I s \<Longrightarrow> step x s = Some (y, s') \<Longrightarrow> I s'"
  shows "I s \<Longrightarrow> run_ops step xs s = Some (ys, s') \<Longrightarrow> I s'"
  by (induction xs arbitrary: s ys) (auto split: bind_splits, blast intro: step)

subsection \<open>Loops in the option monad\<close>

text \<open>\<open>for (x in xs) s = f x s\<close>, where the body may fail.\<close>

fun ofold :: "('x \<Rightarrow> 's \<Rightarrow> 's option) \<Rightarrow> 'x list \<Rightarrow> 's \<Rightarrow> 's option" where
  "ofold f [] s = Some s"
| "ofold f (x # xs) s = do { s' \<leftarrow> f x s; ofold f xs s' }"

text \<open>A loop whose state satisfies \<open>P done s\<close> after the elements \<open>done\<close> runs to the end.\<close>

lemma ofold_invariant:
  assumes "P ys s"
    and step: "\<And>ys x zs s. ys0 @ xs = ys @ x # zs \<Longrightarrow> P ys s \<Longrightarrow> \<exists>s'. f x s = Some s' \<and> P (ys @ [x]) s'"
    and "ys = ys0"
  shows "\<exists>s'. ofold f xs s = Some s' \<and> P (ys0 @ xs) s'"
  using assms
proof (induction xs arbitrary: ys0 ys s)
  case (Cons x xs)
  obtain s' where s': "f x s = Some s'" "P (ys0 @ [x]) s'"
    using Cons.prems(1) Cons.prems(2) [of ys0 x xs s] Cons.prems(3) by auto
  have "\<exists>s''. ofold f xs s' = Some s'' \<and> P ((ys0 @ [x]) @ xs) s''"
    using s'(2) by (rule Cons.IH) (use Cons.prems(2) in auto)
  then show ?case using s'(1) by auto
qed simp

end
