(* ===== verification/Ipc_Names.thy ===== *)
theory Ipc_Names
  imports Mach_Prelude
begin

text \<open>
  Port names and the bits of a translation entry: the macros of ipc/port.h, mach/port.h and
  ipc/ipc_entry.h, on 32-bit words.  A name holds a table index in its upper 24 bits and a
  generation number in its lower 8 bits; the \<open>ie_bits\<close> word of an entry holds 16 bits of user
  references, 5 type bits, the flags \<open>MAREQUEST\<close>, \<open>COMPAT\<close> and \<open>COLLISION\<close>, and the
  generation number in the top 8 bits.  The lemmas show how the fields are read back after
  each of the updates the code makes, and that the overflow tests on user references are
  exact.
\<close>

subsection \<open>Names (ipc/port.h, mach/port.h)\<close>

definition MACH_PORT_NULL :: mach_port where
  "MACH_PORT_NULL = 0"

definition MACH_PORT_DEAD :: mach_port where
  "MACH_PORT_DEAD = NOT 0"

definition MACH_PORT_VALID :: "mach_port \<Rightarrow> bool" where
  "MACH_PORT_VALID name \<longleftrightarrow> name \<noteq> MACH_PORT_NULL \<and> name \<noteq> MACH_PORT_DEAD"

definition MACH_PORT_INDEX :: "mach_port \<Rightarrow> u32" where
  "MACH_PORT_INDEX name = drop_bit 8 name"

definition MACH_PORT_GEN :: "mach_port \<Rightarrow> u32" where
  "MACH_PORT_GEN name = push_bit 24 name"

definition MACH_PORT_MAKE :: "u32 \<Rightarrow> u32 \<Rightarrow> mach_port" where
  "MACH_PORT_MAKE index gen = push_bit 8 index OR drop_bit 24 gen"

subsection \<open>The bits of an entry (ipc/ipc_entry.h)\<close>

definition IE_BITS_UREFS_MASK :: u32 where "IE_BITS_UREFS_MASK = 0x0000ffff"
definition IE_BITS_TYPE_MASK :: u32 where "IE_BITS_TYPE_MASK = 0x001f0000"
definition IE_BITS_MAREQUEST :: u32 where "IE_BITS_MAREQUEST = 0x00200000"
definition IE_BITS_COMPAT :: u32 where "IE_BITS_COMPAT = 0x00400000"
definition IE_BITS_COLLISION :: u32 where "IE_BITS_COLLISION = 0x00800000"
definition IE_BITS_GEN_MASK :: u32 where "IE_BITS_GEN_MASK = 0xff000000"
definition IE_BITS_GEN_ONE :: u32 where "IE_BITS_GEN_ONE = 0x01000000"
definition IE_BITS_RIGHT_MASK :: u32 where "IE_BITS_RIGHT_MASK = 0x007fffff"

definition IE_BITS_UREFS :: "u32 \<Rightarrow> u32" where
  "IE_BITS_UREFS bits = bits AND IE_BITS_UREFS_MASK"

definition IE_BITS_TYPE :: "u32 \<Rightarrow> u32" where
  "IE_BITS_TYPE bits = bits AND IE_BITS_TYPE_MASK"

definition IE_BITS_GEN :: "u32 \<Rightarrow> u32" where
  "IE_BITS_GEN bits = bits AND IE_BITS_GEN_MASK"

definition MACH_PORT_MAKEB :: "u32 \<Rightarrow> u32 \<Rightarrow> mach_port" where
  "MACH_PORT_MAKEB index bits = MACH_PORT_MAKE index (IE_BITS_GEN bits)"

definition MACH_PORT_NGEN :: "mach_port \<Rightarrow> u32" where
  "MACH_PORT_NGEN name = MACH_PORT_MAKE 0 (MACH_PORT_GEN name)"

subsection \<open>Types of rights (mach/port.h)\<close>

definition MACH_PORT_TYPE :: "nat \<Rightarrow> u32" where
  "MACH_PORT_TYPE r = push_bit (r + 16) 1"

definition MACH_PORT_TYPE_NONE :: u32 where "MACH_PORT_TYPE_NONE = 0"
definition MACH_PORT_TYPE_SEND :: u32 where "MACH_PORT_TYPE_SEND = MACH_PORT_TYPE 0"
definition MACH_PORT_TYPE_RECEIVE :: u32 where "MACH_PORT_TYPE_RECEIVE = MACH_PORT_TYPE 1"
definition MACH_PORT_TYPE_SEND_ONCE :: u32 where "MACH_PORT_TYPE_SEND_ONCE = MACH_PORT_TYPE 2"
definition MACH_PORT_TYPE_PORT_SET :: u32 where "MACH_PORT_TYPE_PORT_SET = MACH_PORT_TYPE 3"
definition MACH_PORT_TYPE_DEAD_NAME :: u32 where "MACH_PORT_TYPE_DEAD_NAME = MACH_PORT_TYPE 4"

definition MACH_PORT_TYPE_SEND_RECEIVE :: u32 where
  "MACH_PORT_TYPE_SEND_RECEIVE = MACH_PORT_TYPE_SEND OR MACH_PORT_TYPE_RECEIVE"
definition MACH_PORT_TYPE_SEND_RIGHTS :: u32 where
  "MACH_PORT_TYPE_SEND_RIGHTS = MACH_PORT_TYPE_SEND OR MACH_PORT_TYPE_SEND_ONCE"
definition MACH_PORT_TYPE_PORT_RIGHTS :: u32 where
  "MACH_PORT_TYPE_PORT_RIGHTS = MACH_PORT_TYPE_SEND_RIGHTS OR MACH_PORT_TYPE_RECEIVE"
definition MACH_PORT_TYPE_PORT_OR_DEAD :: u32 where
  "MACH_PORT_TYPE_PORT_OR_DEAD = MACH_PORT_TYPE_PORT_RIGHTS OR MACH_PORT_TYPE_DEAD_NAME"
definition MACH_PORT_TYPE_ALL_RIGHTS :: u32 where
  "MACH_PORT_TYPE_ALL_RIGHTS = MACH_PORT_TYPE_PORT_OR_DEAD OR MACH_PORT_TYPE_PORT_SET"

subsection \<open>User references (ipc/port.h)\<close>

text \<open>\<open>urefs\<close> is \<open>unsigned int\<close> and \<open>delta\<close> is \<open>int\<close>: the sign tests are signed, the sums and
  the comparisons with \<open>urefs\<close> are unsigned.\<close>

definition MACH_PORT_UREFS_MAX :: u32 where
  "MACH_PORT_UREFS_MAX = push_bit 16 1 - 1"

definition MACH_PORT_UREFS_OVERFLOW :: "u32 \<Rightarrow> u32 \<Rightarrow> bool" where
  "MACH_PORT_UREFS_OVERFLOW urefs delta \<longleftrightarrow>
     sint delta > 0 \<and> (urefs + delta \<le> urefs \<or> urefs + delta > MACH_PORT_UREFS_MAX)"

definition MACH_PORT_UREFS_UNDERFLOW :: "u32 \<Rightarrow> u32 \<Rightarrow> bool" where
  "MACH_PORT_UREFS_UNDERFLOW urefs delta \<longleftrightarrow> sint delta < 0 \<and> - delta > urefs"

subsection \<open>Facts about names\<close>

abbreviation port_index :: "mach_port \<Rightarrow> nat" where
  "port_index name \<equiv> unat (MACH_PORT_INDEX name)"

lemma unat_less: "unat (w :: u32) < 2 ^ 32"
  using unsigned_less [of w, where 'a = nat] by simp

lemma port_index: "port_index name = unat name div 256"
  by (simp add: MACH_PORT_INDEX_def drop_bit_eq_div unat_div)

lemma port_index_less: "port_index name < 2 ^ 24"
  using unat_less [of name] by (simp add: port_index less_mult_imp_div_less)

lemma port_index_mono: "name \<le> name' \<Longrightarrow> port_index name \<le> port_index name'"
  by (simp add: port_index word_le_nat_alt div_le_mono)

lemma MACH_PORT_VALID_iff [simp]: "MACH_PORT_VALID name \<longleftrightarrow> name \<noteq> 0 \<and> name \<noteq> - 1"
  by (simp add: MACH_PORT_VALID_def MACH_PORT_NULL_def MACH_PORT_DEAD_def)

lemma MACH_PORT_MAKE_INDEX_GEN:
  "MACH_PORT_MAKE (MACH_PORT_INDEX name) (MACH_PORT_GEN name) = name"
  by (rule bit_word_eqI)
    (auto simp: MACH_PORT_MAKE_def MACH_PORT_INDEX_def MACH_PORT_GEN_def bit_simps)

lemma MACH_PORT_MAKE_add: "MACH_PORT_MAKE i g = push_bit 8 i + drop_bit 24 g"
proof -
  have "\<not> bit (push_bit 8 i) n \<or> \<not> bit (drop_bit 24 g) n" for n
    using bit_imp_le_length [of g "24 + n"] by (auto simp: bit_simps)
  then show ?thesis
    by (simp add: MACH_PORT_MAKE_def disjunctive_add)
qed

lemma unat_MACH_PORT_MAKE:
  assumes i: "unat i < 2 ^ 24"
  shows "unat (MACH_PORT_MAKE i g) = unat i * 256 + unat g div 2 ^ 24"
proof -
  have g: "unat g div 2 ^ 24 < 256"
    using unat_less [of g] by (simp add: less_mult_imp_div_less)
  have "unat (push_bit 8 i) = unat i * 256"
    using i by (simp add: push_bit_eq_mult unat_word_ariths)
  moreover have "unat (drop_bit 24 g) = unat g div 2 ^ 24"
    by (simp add: drop_bit_eq_div unat_div)
  ultimately show ?thesis
    using i g by (simp add: MACH_PORT_MAKE_add unat_add_lem [THEN iffD1])
qed

lemma MACH_PORT_INDEX_MAKE:
  assumes "unat i < 2 ^ 24" shows "MACH_PORT_INDEX (MACH_PORT_MAKE i g) = i"
proof -
  have "unat g div 2 ^ 24 < 256"
    using unat_less [of g] by (simp add: less_mult_imp_div_less)
  then have "port_index (MACH_PORT_MAKE i g) = unat i"
    using assms by (simp add: port_index unat_MACH_PORT_MAKE)
  then show ?thesis by (simp add: word_unat_eq_iff)
qed

lemma MACH_PORT_GEN_MAKE: "MACH_PORT_GEN (MACH_PORT_MAKE i g) = IE_BITS_GEN g"
proof (rule bit_word_eqI)
  fix n assume n: "n < LENGTH(32)"
  have "bit (0xff000000 :: u32) n \<longleftrightarrow> bit (push_bit 24 (mask 8) :: u32) n"
    by (simp add: mask_eq_exp_minus_1 push_bit_eq_mult)
  also have "\<dots> \<longleftrightarrow> 24 \<le> n" using n by (auto simp: bit_simps)
  finally show "bit (MACH_PORT_GEN (MACH_PORT_MAKE i g)) n \<longleftrightarrow> bit (IE_BITS_GEN g) n"
    using n by (auto simp: MACH_PORT_GEN_def MACH_PORT_MAKE_def IE_BITS_GEN_def
      IE_BITS_GEN_MASK_def bit_simps)
qed

lemma IE_BITS_GEN_idem [simp]: "IE_BITS_GEN (IE_BITS_GEN bits) = IE_BITS_GEN bits"
  by (simp add: IE_BITS_GEN_def)

lemma MACH_PORT_INDEX_MAKEB:
  "unat i < 2 ^ 24 \<Longrightarrow> MACH_PORT_INDEX (MACH_PORT_MAKEB i bits) = i"
  by (simp add: MACH_PORT_MAKEB_def MACH_PORT_INDEX_MAKE)

lemma MACH_PORT_GEN_MAKEB: "MACH_PORT_GEN (MACH_PORT_MAKEB i bits) = IE_BITS_GEN bits"
  by (simp add: MACH_PORT_MAKEB_def MACH_PORT_GEN_MAKE)

lemma IE_BITS_GEN_MACH_PORT_GEN [simp]: "IE_BITS_GEN (MACH_PORT_GEN name) = MACH_PORT_GEN name"
  by (metis MACH_PORT_GEN_MAKE MACH_PORT_MAKE_INDEX_GEN)

text \<open>A name is determined by its index and its generation.\<close>

lemma mach_port_eqI:
  "MACH_PORT_INDEX n = MACH_PORT_INDEX n' \<Longrightarrow> MACH_PORT_GEN n = MACH_PORT_GEN n' \<Longrightarrow> n = n'"
  by (metis MACH_PORT_MAKE_INDEX_GEN)

lemma MACH_PORT_MAKEB_eq_iff:
  "unat i < 2 ^ 24 \<Longrightarrow>
     MACH_PORT_MAKEB i bits = name \<longleftrightarrow> MACH_PORT_INDEX name = i \<and> MACH_PORT_GEN name = IE_BITS_GEN bits"
  by (metis MACH_PORT_GEN_MAKEB MACH_PORT_INDEX_MAKEB mach_port_eqI)

text \<open>The names of an index are an interval that begins at the name with generation zero.\<close>

lemma MACH_PORT_MAKE_le_iff:
  "unat i < 2 ^ 24 \<Longrightarrow> MACH_PORT_MAKE i 0 \<le> name \<longleftrightarrow> unat i \<le> port_index name"
  by (simp add: word_le_nat_alt unat_MACH_PORT_MAKE port_index less_eq_div_iff_mult_less_eq)

subsection \<open>Facts about the bits of an entry\<close>

lemma urefs_mask: "(x :: u32) AND 0xffff = take_bit 16 x"
  by (simp add: take_bit_eq_mask mask_eq_exp_minus_1)

lemma unat_urefs: "unat (IE_BITS_UREFS bits) = unat bits mod 65536"
  unfolding IE_BITS_UREFS_def IE_BITS_UREFS_MASK_def urefs_mask
  by (simp only: unsigned_take_bit_eq) (simp add: take_bit_eq_mod)

lemma not_urefs_mask: "(x :: u32) AND NOT 0xffff = x - (x AND 0xffff)"
proof -
  have "x = (x AND 0xffff) + (x AND NOT 0xffff)"
    by (rule bit_eq_iff [THEN iffD2]) (auto simp: disjunctive_add bit_simps)
  then show ?thesis by (metis add_diff_cancel_left')
qed

lemma unat_not_urefs: "unat ((x :: u32) AND NOT 0xffff) = unat x - unat x mod 65536"
  using unat_urefs [of x]
  by (simp only: IE_BITS_UREFS_def IE_BITS_UREFS_MASK_def not_urefs_mask)
    (simp add: unat_sub word_le_nat_alt)

lemma not_urefs_mask_cong:
  assumes "unat (x :: u32) div 65536 = unat y div 65536"
  shows "x AND NOT 0xffff = y AND NOT 0xffff"
proof -
  have "unat (x AND NOT 0xffff) = unat (y AND NOT 0xffff)"
    using assms unfolding unat_not_urefs minus_mod_eq_mult_div by simp
  then show ?thesis using word_unat_eq_iff by blast
qed

text \<open>Adding to and subtracting from the user references does not carry into the other
  fields when the references stay within their 16 bits.\<close>

lemma IE_BITS_UREFS_le [simp]: "IE_BITS_UREFS bits \<le> 0xffff"
  by (simp add: word_le_nat_alt unat_urefs)

lemma split_16: "(n :: nat) = a * 65536 + c \<Longrightarrow> c < 65536 \<Longrightarrow> n mod 65536 = c \<and> n div 65536 = a"
  by simp

lemma urefs_add:
  assumes "unat (IE_BITS_UREFS bits) + unat d < 65536"
  shows "IE_BITS_UREFS (bits + d) = IE_BITS_UREFS bits + d"
    and "(bits + d) AND NOT 0xffff = bits AND NOT 0xffff"
proof -
  let ?b = "unat bits"
  have b: "?b = ?b div 65536 * 65536 + ?b mod 65536" by simp
  have le: "?b div 65536 < 65536" using unat_less [of bits] by (simp add: less_mult_imp_div_less)
  have s: "?b mod 65536 + unat d < 65536" using assms by (simp add: unat_urefs)
  have "?b + unat d < 4294967296" using b le s by linarith
  then have add: "unat (bits + d) = ?b + unat d" by (simp add: unat_add_lem [THEN iffD1])
  have eq: "?b + unat d = ?b div 65536 * 65536 + (?b mod 65536 + unat d)" using b by linarith
  have "(?b + unat d) mod 65536 = ?b mod 65536 + unat d"
    using split_16 [OF eq s] by simp
  moreover have "unat (IE_BITS_UREFS bits + d) = ?b mod 65536 + unat d"
    using s by (simp add: unat_urefs unat_add_lem [THEN iffD1])
  ultimately show "IE_BITS_UREFS (bits + d) = IE_BITS_UREFS bits + d"
    by (simp add: word_unat_eq_iff unat_urefs add)
  have "unat (bits + d) div 65536 = ?b div 65536"
    using split_16 [OF eq s] by (simp only: add)
  then show "(bits + d) AND NOT 0xffff = bits AND NOT 0xffff"
    by (rule not_urefs_mask_cong)
qed

lemma urefs_sub:
  assumes "d \<le> IE_BITS_UREFS bits"
  shows "IE_BITS_UREFS (bits - d) = IE_BITS_UREFS bits - d"
    and "(bits - d) AND NOT 0xffff = bits AND NOT 0xffff"
proof -
  let ?b = "unat bits"
  have b: "?b = ?b div 65536 * 65536 + ?b mod 65536" by simp
  have d: "unat d \<le> ?b mod 65536" using assms by (simp add: word_le_nat_alt unat_urefs)
  then have "d \<le> bits" using b unfolding word_le_nat_alt by linarith
  then have sub: "unat (bits - d) = ?b - unat d" by (simp add: unat_sub)
  have lt: "?b mod 65536 - unat d < 65536" by (simp add: less_imp_diff_less)
  have eq: "?b - unat d = ?b div 65536 * 65536 + (?b mod 65536 - unat d)" using b d by linarith
  have "(?b - unat d) mod 65536 = ?b mod 65536 - unat d"
    using split_16 [OF eq lt] by simp
  then show "IE_BITS_UREFS (bits - d) = IE_BITS_UREFS bits - d"
    using assms by (simp add: word_unat_eq_iff unat_urefs sub unat_sub)
  have "unat (bits - d) div 65536 = ?b div 65536"
    using split_16 [OF eq lt] by (simp only: sub)
  then show "(bits - d) AND NOT 0xffff = bits AND NOT 0xffff"
    by (rule not_urefs_mask_cong)
qed

text \<open>Hence a field above the user references is unchanged.\<close>

lemma and_not_disjoint: "m AND k = 0 \<Longrightarrow> NOT k AND m = (m :: u32)"
  by (auto simp: bit_eq_iff bit_simps)

lemma high_field_cong:
  assumes "x AND NOT 0xffff = y AND NOT 0xffff" and "m AND 0xffff = 0"
  shows "x AND m = y AND (m :: u32)"
proof -
  have "x AND (NOT 0xffff AND m) = y AND (NOT 0xffff AND m)"
    by (simp only: and.assoc [symmetric] assms(1))
  then show ?thesis
    by (simp only: and_not_disjoint [OF assms(2)])
qed

lemmas IE_BITS_masks =
  IE_BITS_UREFS_MASK_def IE_BITS_TYPE_MASK_def IE_BITS_MAREQUEST_def IE_BITS_COMPAT_def
  IE_BITS_COLLISION_def IE_BITS_GEN_MASK_def IE_BITS_GEN_ONE_def IE_BITS_RIGHT_MASK_def

lemmas IE_BITS_fields = IE_BITS_UREFS_def IE_BITS_TYPE_def IE_BITS_GEN_def

lemma urefs_add_fields:
  assumes "unat (IE_BITS_UREFS bits) + unat d < 65536"
  shows "IE_BITS_TYPE (bits + d) = IE_BITS_TYPE bits"
    and "IE_BITS_GEN (bits + d) = IE_BITS_GEN bits"
    and "(bits + d) AND IE_BITS_MAREQUEST = bits AND IE_BITS_MAREQUEST"
    and "(bits + d) AND IE_BITS_COMPAT = bits AND IE_BITS_COMPAT"
    and "(bits + d) AND IE_BITS_COLLISION = bits AND IE_BITS_COLLISION"
  unfolding IE_BITS_fields
  by (rule high_field_cong [OF urefs_add(2) [OF assms]], simp add: IE_BITS_masks)+

lemma urefs_sub_fields:
  assumes "d \<le> IE_BITS_UREFS bits"
  shows "IE_BITS_TYPE (bits - d) = IE_BITS_TYPE bits"
    and "IE_BITS_GEN (bits - d) = IE_BITS_GEN bits"
    and "(bits - d) AND IE_BITS_MAREQUEST = bits AND IE_BITS_MAREQUEST"
    and "(bits - d) AND IE_BITS_COMPAT = bits AND IE_BITS_COMPAT"
    and "(bits - d) AND IE_BITS_COLLISION = bits AND IE_BITS_COLLISION"
  unfolding IE_BITS_fields
  by (rule high_field_cong [OF urefs_sub(2) [OF assms]], simp add: IE_BITS_masks)+

lemmas MACH_PORT_TYPE_numerals =
  MACH_PORT_TYPE_def MACH_PORT_TYPE_NONE_def MACH_PORT_TYPE_SEND_def MACH_PORT_TYPE_RECEIVE_def
  MACH_PORT_TYPE_SEND_ONCE_def MACH_PORT_TYPE_PORT_SET_def MACH_PORT_TYPE_DEAD_NAME_def
  MACH_PORT_TYPE_SEND_RECEIVE_def MACH_PORT_TYPE_SEND_RIGHTS_def MACH_PORT_TYPE_PORT_RIGHTS_def
  MACH_PORT_TYPE_PORT_OR_DEAD_def MACH_PORT_TYPE_ALL_RIGHTS_def

lemma MACH_PORT_TYPE_values:
  "MACH_PORT_TYPE_NONE = 0" "MACH_PORT_TYPE_SEND = 0x10000" "MACH_PORT_TYPE_RECEIVE = 0x20000"
  "MACH_PORT_TYPE_SEND_ONCE = 0x40000" "MACH_PORT_TYPE_PORT_SET = 0x80000"
  "MACH_PORT_TYPE_DEAD_NAME = 0x100000" "MACH_PORT_TYPE_SEND_RECEIVE = 0x30000"
  "MACH_PORT_TYPE_SEND_RIGHTS = 0x50000" "MACH_PORT_TYPE_PORT_RIGHTS = 0x70000"
  "MACH_PORT_TYPE_PORT_OR_DEAD = 0x170000" "MACH_PORT_TYPE_ALL_RIGHTS = 0x1f0000"
  by (simp_all add: MACH_PORT_TYPE_numerals push_bit_eq_mult)

subsection \<open>Setting and clearing fields\<close>

lemma IE_BITS_mask_bits:
  "bit IE_BITS_UREFS_MASK n \<longleftrightarrow> n < 16"
  "bit IE_BITS_TYPE_MASK n \<longleftrightarrow> 16 \<le> n \<and> n < 21"
  "bit IE_BITS_MAREQUEST n \<longleftrightarrow> n = 21"
  "bit IE_BITS_COMPAT n \<longleftrightarrow> n = 22"
  "bit IE_BITS_COLLISION n \<longleftrightarrow> n = 23"
  "bit IE_BITS_GEN_MASK n \<longleftrightarrow> 24 \<le> n \<and> n < 32"
  "bit IE_BITS_RIGHT_MASK n \<longleftrightarrow> n < 23"
proof -
  have eqs: "IE_BITS_UREFS_MASK = mask 16" "IE_BITS_TYPE_MASK = push_bit 16 (mask 5)"
    "IE_BITS_MAREQUEST = push_bit 21 1" "IE_BITS_COMPAT = push_bit 22 1"
    "IE_BITS_COLLISION = push_bit 23 1" "IE_BITS_GEN_MASK = push_bit 24 (mask 8)"
    "IE_BITS_RIGHT_MASK = mask 23"
    by (simp_all add: IE_BITS_masks mask_eq_exp_minus_1 push_bit_eq_mult)
  show "bit IE_BITS_UREFS_MASK n \<longleftrightarrow> n < 16"
    "bit IE_BITS_TYPE_MASK n \<longleftrightarrow> 16 \<le> n \<and> n < 21"
    "bit IE_BITS_MAREQUEST n \<longleftrightarrow> n = 21"
    "bit IE_BITS_COMPAT n \<longleftrightarrow> n = 22"
    "bit IE_BITS_COLLISION n \<longleftrightarrow> n = 23"
    "bit IE_BITS_GEN_MASK n \<longleftrightarrow> 24 \<le> n \<and> n < 32"
    "bit IE_BITS_RIGHT_MASK n \<longleftrightarrow> n < 23"
    unfolding eqs bit_push_bit_iff bit_mask_iff bit_1_iff by auto
qed

lemma u32_eq_iff: "x = y \<longleftrightarrow> (\<forall>n<32. bit x n = bit (y :: u32) n)"
  using bit_word_eqI [of x y] by auto

lemmas ie_bits_bit = IE_BITS_fields IE_BITS_mask_bits bit_simps u32_eq_iff

lemma MACH_PORT_GEN_bit: "bit (MACH_PORT_GEN name) n \<longleftrightarrow> 24 \<le> n \<and> n < 32 \<and> bit name (n - 24)"
  by (auto simp: MACH_PORT_GEN_def bit_simps)

lemma free_bits:
  assumes "bits AND NOT IE_BITS_GEN_MASK = 0"
  shows "IE_BITS_TYPE bits = 0" "bits AND IE_BITS_COLLISION = 0" "bits AND IE_BITS_RIGHT_MASK = 0"
    "IE_BITS_GEN bits = bits" 
  using assms by (auto simp: ie_bits_bit)

lemma collision_bit [simp]:
  "IE_BITS_TYPE (bits OR IE_BITS_COLLISION) = IE_BITS_TYPE bits"
  "IE_BITS_GEN (bits OR IE_BITS_COLLISION) = IE_BITS_GEN bits"
  "(bits OR IE_BITS_COLLISION) AND IE_BITS_RIGHT_MASK = bits AND IE_BITS_RIGHT_MASK"
  "(bits OR IE_BITS_COLLISION) AND IE_BITS_COLLISION \<noteq> 0"
  "IE_BITS_TYPE (bits AND NOT IE_BITS_COLLISION) = IE_BITS_TYPE bits"
  "IE_BITS_GEN (bits AND NOT IE_BITS_COLLISION) = IE_BITS_GEN bits"
  "(bits AND NOT IE_BITS_COLLISION) AND IE_BITS_RIGHT_MASK = bits AND IE_BITS_RIGHT_MASK"
  "(bits AND NOT IE_BITS_COLLISION) AND IE_BITS_COLLISION = 0"
  by (auto simp: ie_bits_bit)

lemma IE_BITS_COLLISION_neq_0 [simp]: "IE_BITS_COLLISION \<noteq> 0"
  by (simp add: IE_BITS_masks)

lemma gen_bits:
  assumes "bits AND NOT IE_BITS_RIGHT_MASK = 0"
  shows "IE_BITS_TYPE (bits OR MACH_PORT_GEN name) = IE_BITS_TYPE bits"
    "IE_BITS_GEN (bits OR MACH_PORT_GEN name) = MACH_PORT_GEN name"
    "(bits OR MACH_PORT_GEN name) AND IE_BITS_RIGHT_MASK = bits"
    "(bits OR MACH_PORT_GEN name) AND IE_BITS_COLLISION = 0"
  using assms by (auto simp: ie_bits_bit MACH_PORT_GEN_bit)

lemma gen_only:
  "MACH_PORT_GEN name AND NOT IE_BITS_GEN_MASK = 0" "IE_BITS_GEN_MASK AND NOT IE_BITS_GEN_MASK = 0"
  "(bits AND IE_BITS_GEN_MASK) AND NOT IE_BITS_GEN_MASK = 0"
  by (auto simp: ie_bits_bit MACH_PORT_GEN_bit)

lemma next_gen_only:
  assumes "bits AND NOT IE_BITS_GEN_MASK = 0"
  shows "(bits + IE_BITS_GEN_ONE) AND NOT IE_BITS_GEN_MASK = 0"
proof -
  have "bits = push_bit 24 (drop_bit 24 bits)"
    using assms by (auto simp: ie_bits_bit)
  then have "bits + IE_BITS_GEN_ONE = push_bit 24 (drop_bit 24 bits + 1)"
    by (simp add: push_bit_eq_mult IE_BITS_GEN_ONE_def distrib_right)
  then show ?thesis by (auto simp: ie_bits_bit)
qed
subsection \<open>The overflow tests are exact\<close>

lemma uint_less: "uint (w :: u32) < 2 ^ 32"
  using uint_lt2p [of w] by simp

lemma sint_cases: "sint (d :: u32) = (if uint d < 2 ^ 31 then uint d else uint d - 2 ^ 32)"
proof -
  have s: "sint d = (uint d + 2 ^ 31) mod 2 ^ 32 - 2 ^ 31"
    by (simp add: sint_uint signed_take_bit_eq_take_bit_shift take_bit_eq_mod)
  show ?thesis
  proof (cases "uint d < 2 ^ 31")
    case False
    then have "(uint d + 2 ^ 31) mod 2 ^ 32 = uint d + 2 ^ 31 - 2 ^ 32"
      using uint_less [of d]
      by (subst minus_mod_self2 [symmetric]) (simp add: mod_pos_pos_trivial)
    then show ?thesis using False s by simp
  qed (simp add: s mod_pos_pos_trivial)
qed

lemma MACH_PORT_UREFS_OVERFLOW_iff:
  assumes "u \<le> MACH_PORT_UREFS_MAX"
  shows "MACH_PORT_UREFS_OVERFLOW u d \<longleftrightarrow> 0 < sint d \<and> uint u + sint d > 65535"
proof -
  have u: "uint u \<le> 65535" using assms by (simp add: MACH_PORT_UREFS_MAX_def word_le_def)
  have d: "0 \<le> uint d" "uint d < 2 ^ 32" using uint_less [of d] by simp_all
  show ?thesis
  proof (cases "0 < sint d")
    case True
    then have "uint d < 2 ^ 31" "sint d = uint d" using d by (auto simp: sint_cases split: if_splits)
    moreover from this u have "uint (u + d) = uint u + uint d"
      by (simp add: uint_word_ariths)
    ultimately show ?thesis using True
      by (auto simp: MACH_PORT_UREFS_OVERFLOW_def MACH_PORT_UREFS_MAX_def word_le_def word_less_def)
  qed (simp add: MACH_PORT_UREFS_OVERFLOW_def)
qed

lemma MACH_PORT_UREFS_UNDERFLOW_iff:
  assumes "u \<le> MACH_PORT_UREFS_MAX"
  shows "MACH_PORT_UREFS_UNDERFLOW u d \<longleftrightarrow> uint u + sint d < 0"
proof -
  have u: "uint u \<le> 65535" "0 \<le> uint u" using assms by (simp_all add: MACH_PORT_UREFS_MAX_def word_le_def)
  have d: "0 \<le> uint d" "uint d < 2 ^ 32" using uint_less [of d] by simp_all
  show ?thesis
  proof (cases "sint d < 0")
    case True
    then have "2 ^ 31 \<le> uint d" "sint d = uint d - 2 ^ 32" using d by (auto simp: sint_cases split: if_splits)
    moreover from this d have "uint (- d) = 2 ^ 32 - uint d"
      by (simp add: uint_word_ariths zmod_zminus1_eq_if)
    ultimately show ?thesis using True
      by (auto simp: MACH_PORT_UREFS_UNDERFLOW_def word_less_def)
  next
    case False
    then show ?thesis using u(2) unfolding MACH_PORT_UREFS_UNDERFLOW_def by linarith
  qed
qed
lemma urefs_delta_add:
  assumes "0 \<le> uint (IE_BITS_UREFS bits) + sint delta" "uint (IE_BITS_UREFS bits) + sint delta \<le> 65535"
  shows "uint (IE_BITS_UREFS (bits + delta)) = uint (IE_BITS_UREFS bits) + sint delta \<and>
      (bits + delta) AND NOT IE_BITS_UREFS_MASK = bits AND NOT IE_BITS_UREFS_MASK"
proof (cases "0 \<le> sint delta")
  case True
  then have d: "sint delta = uint delta"
    using uint_less [of delta] by (auto simp: sint_cases split: if_splits)
  have "unat (IE_BITS_UREFS bits) + unat delta < 65536"
    using assms(2) unfolding d uint_nat by linarith
  note u = urefs_add [OF this] 
  have "uint (IE_BITS_UREFS bits + delta) = uint (IE_BITS_UREFS bits) + uint delta"
    using assms(2) d by (simp add: uint_word_ariths)
  then show ?thesis unfolding u(1) IE_BITS_UREFS_MASK_def u(2) d by blast
next
  case False
  then have d: "uint (- delta) = - sint delta" "2 ^ 31 \<le> uint delta"
    using uint_less [of delta] by (auto simp: sint_cases uint_word_ariths zmod_zminus1_eq_if split: if_splits)
  then have le: "- delta \<le> IE_BITS_UREFS bits"
    using assms(1) by (simp add: word_le_def)
  note u = urefs_sub [OF this, simplified]
  have "uint (IE_BITS_UREFS bits - (- delta)) = uint (IE_BITS_UREFS bits) - uint (- delta)"
    using le uint_sub_lem [of "- delta" "IE_BITS_UREFS bits"] unfolding word_le_def by blast
  then show ?thesis using u by (simp add: IE_BITS_UREFS_MASK_def d)
qed

subsection \<open>Properties\<close>

text \<open>C12. The index and the generation number of a name determine it, and a name made from
  an index of at most 24 bits and a generation number gives both back.\<close>

theorem port_name_roundtrip:
  "MACH_PORT_MAKE (MACH_PORT_INDEX name) (MACH_PORT_GEN name) = name \<and>
   (unat i < 2 ^ 24 \<longrightarrow>
      MACH_PORT_INDEX (MACH_PORT_MAKE i gen) = i \<and> MACH_PORT_GEN (MACH_PORT_MAKE i gen) = IE_BITS_GEN gen)"
  using MACH_PORT_MAKE_INDEX_GEN MACH_PORT_INDEX_MAKE MACH_PORT_GEN_MAKE by blast

theorem port_name_roundtrip_witness:
  "MACH_PORT_MAKE (MACH_PORT_INDEX 0x1203) (MACH_PORT_GEN 0x1203) = 0x1203 \<and>
   MACH_PORT_INDEX (MACH_PORT_MAKE 0x12 0x03000000) = 0x12 \<and>
   MACH_PORT_GEN (MACH_PORT_MAKE 0x12 0x03000000) = IE_BITS_GEN 0x03000000"
  using port_name_roundtrip [of "0x1203" "0x12" "0x03000000"] by simp

text \<open>C13. On every value that the user references of an entry can have, the overflow and
  underflow tests, whose comparisons are unsigned and may wrap around, hold exactly when
  the signed sum leaves the range from 0 to \<open>MACH_PORT_UREFS_MAX\<close>; when both fail, adding
  the delta to the entry's bits changes the user references by it and no other field.\<close>

theorem urefs_delta_exact:
  assumes "u = IE_BITS_UREFS bits"
  shows "(MACH_PORT_UREFS_OVERFLOW u delta \<longleftrightarrow> uint u + sint delta > uint MACH_PORT_UREFS_MAX) \<and>
    (MACH_PORT_UREFS_UNDERFLOW u delta \<longleftrightarrow> uint u + sint delta < 0) \<and>
    (\<not> MACH_PORT_UREFS_OVERFLOW u delta \<and> \<not> MACH_PORT_UREFS_UNDERFLOW u delta \<longrightarrow>
      uint (IE_BITS_UREFS (bits + delta)) = uint u + sint delta \<and>
      (bits + delta) AND NOT IE_BITS_UREFS_MASK = bits AND NOT IE_BITS_UREFS_MASK)"
proof -
  have u: "u \<le> MACH_PORT_UREFS_MAX"
    using assms by (simp add: MACH_PORT_UREFS_MAX_def)
  then have "uint u \<le> 65535" by (simp add: MACH_PORT_UREFS_MAX_def word_le_def)
  moreover have "uint MACH_PORT_UREFS_MAX = 65535" by (simp add: MACH_PORT_UREFS_MAX_def)
  ultimately show ?thesis
    using urefs_delta_add [of bits delta] MACH_PORT_UREFS_OVERFLOW_iff [OF u, of delta]
      MACH_PORT_UREFS_UNDERFLOW_iff [OF u, of delta] uint_ge_0 [of u] assms
    by (auto simp: not_less)
qed

theorem urefs_delta_exact_witness:
  "\<not> MACH_PORT_UREFS_OVERFLOW 7 (- 3) \<and> \<not> MACH_PORT_UREFS_UNDERFLOW 7 (- 3) \<and>
   uint (IE_BITS_UREFS (0x03010007 + (- 3))) = 4 \<and>
   (0x03010007 + (- 3)) AND NOT IE_BITS_UREFS_MASK = 0x03010007 AND NOT IE_BITS_UREFS_MASK"
  using urefs_delta_exact [of 7 "0x03010007" "- 3"]
  by (simp add: IE_BITS_UREFS_def IE_BITS_masks MACH_PORT_UREFS_MAX_def)

end
