(* ===== verification/Ipc_Table.thy ===== *)
theory Ipc_Table
  imports Ipc_Names
begin

text \<open>
  The arrays of table sizes of ipc/ipc_table.c: \<open>ipc_table_entries\<close>, along which the table
  of a space grows, and \<open>ipc_table_dnrequests\<close>, along which the table of dead-name requests
  of a port grows.  An array of \<open>ipc_table_size\<close> structures is the list of the \<open>its_size\<close>
  fields (\<open>its_zone\<close> is \<open>ZONE_NULL\<close> throughout, so tables come from \<open>kalloc\<close>); the sizes
  are computed on 32-bit words.  The page size is that of the i386, 4096 bytes.
\<close>

definition PAGE_SIZE :: u32 where
  "PAGE_SIZE = 4096"

definition sizeof_ipc_entry :: u32 where
  "sizeof_ipc_entry = 16"

definition sizeof_ipc_port_request :: u32 where
  "sizeof_ipc_port_request = 8"

text \<open>The loops of \<open>ipc_table_fill\<close>.  The elements are stored in order, so the local
  \<open>index\<close> is the length of the list of the sizes stored so far.  The fuel bounds the number
  of iterations; running out of it is \<open>None\<close>.\<close>

definition fill_store :: "u32 \<Rightarrow> u32 \<Rightarrow> u32 \<Rightarrow> u32 list \<Rightarrow> u32 list" where
  "fill_store minsize elemsize sz its =
     (if sz \<ge> minsize then its @ [sz div elemsize] else its)"

fun fill_doubling :: "nat \<Rightarrow> nat \<Rightarrow> u32 \<Rightarrow> u32 \<Rightarrow> u32 \<Rightarrow> u32 list \<Rightarrow> (u32 \<times> u32 list) option" where
  "fill_doubling 0 num minsize elemsize sz its = None"
| "fill_doubling (Suc fuel) num minsize elemsize sz its =
     (if length its < num \<and> sz < PAGE_SIZE
      then fill_doubling fuel num minsize elemsize (push_bit 1 sz) (fill_store minsize elemsize sz its)
      else Some (sz, its))"

fun fill_period :: "nat \<Rightarrow> nat \<Rightarrow> u32 \<Rightarrow> u32 \<Rightarrow> u32 \<Rightarrow> u32 \<Rightarrow> u32 list \<Rightarrow> u32 \<times> u32 list" where
  "fill_period 0 num minsize elemsize incrsize sz its = (sz, its)"
| "fill_period (Suc n) num minsize elemsize incrsize sz its =
     (if length its < num
      then fill_period n num minsize elemsize incrsize (sz + incrsize) (fill_store minsize elemsize sz its)
      else (sz, its))"

fun fill_increments :: "nat \<Rightarrow> nat \<Rightarrow> u32 \<Rightarrow> u32 \<Rightarrow> u32 \<Rightarrow> u32 \<Rightarrow> u32 list \<Rightarrow> u32 list option" where
  "fill_increments 0 num minsize elemsize incrsize sz its = None"
| "fill_increments (Suc fuel) num minsize elemsize incrsize sz its =
     (if length its < num
      then let (sz', its') = fill_period 15 num minsize elemsize incrsize sz its
           in fill_increments fuel num minsize elemsize (push_bit 1 incrsize) sz' its'
      else Some its)"

definition ipc_table_fill :: "nat \<Rightarrow> u32 \<Rightarrow> u32 \<Rightarrow> u32 list option" where
  "ipc_table_fill num m elemsize =
     do {
       (sz, its) \<leftarrow> fill_doubling 13 num (m * elemsize) elemsize 1 [];
       fill_increments (Suc num) num (m * elemsize) elemsize PAGE_SIZE sz its
     }"

definition ipc_table_entries_size :: nat where "ipc_table_entries_size = 128"
definition ipc_table_dnrequests_size :: nat where "ipc_table_dnrequests_size = 64"

definition ipc_table_init :: "(u32 list \<times> u32 list) option" where
  "ipc_table_init =
     do {
       entries \<leftarrow> ipc_table_fill (ipc_table_entries_size - 1) 4 sizeof_ipc_entry;
       lst \<leftarrow> nth_opt entries (ipc_table_entries_size - 2);
       dnrequests \<leftarrow> ipc_table_fill (ipc_table_dnrequests_size - 1) 2 sizeof_ipc_port_request;
       Some (entries @ [lst], dnrequests @ [0])
     }"

definition ipc_table_entries :: "u32 list" where
  "ipc_table_entries = (case ipc_table_init of None \<Rightarrow> [] | Some (es, ds) \<Rightarrow> es)"

definition ipc_table_dnrequests :: "u32 list" where
  "ipc_table_dnrequests = (case ipc_table_init of None \<Rightarrow> [] | Some (es, ds) \<Rightarrow> ds)"

subsection \<open>The loops return\<close>

lemma ipc_table_entries_fill:
  "ipc_table_fill 127 4 sizeof_ipc_entry =
     Some [4, 8, 16, 32, 64, 128, 256, 512, 768, 1024, 1280, 1536, 1792, 2048, 2304, 2560, 
       2816, 3072, 3328, 3584, 3840, 4096, 4608, 5120, 5632, 6144, 6656, 7168, 7680, 8192, 
       8704, 9216, 9728, 10240, 10752, 11264, 11776, 12800, 13824, 14848, 15872, 16896, 
       17920, 18944, 19968, 20992, 22016, 23040, 24064, 25088, 26112, 27136, 29184, 31232, 
       33280, 35328, 37376, 39424, 41472, 43520, 45568, 47616, 49664, 51712, 53760, 55808, 
       57856, 61952, 66048, 70144, 74240, 78336, 82432, 86528, 90624, 94720, 98816, 102912, 
       107008, 111104, 115200, 119296, 127488, 135680, 143872, 152064, 160256, 168448, 
       176640, 184832, 193024, 201216, 209408, 217600, 225792, 233984, 242176, 258560, 
       274944, 291328, 307712, 324096, 340480, 356864, 373248, 389632, 406016, 422400, 
       438784, 455168, 471552, 487936, 520704, 553472, 586240, 619008, 651776, 684544, 
       717312, 750080, 782848, 815616, 848384, 881152, 913920, 946688, 979456]"
  by code_simp

lemma ipc_table_dnrequests_fill:
  "ipc_table_fill 63 2 sizeof_ipc_port_request =
     Some [2, 4, 8, 16, 32, 64, 128, 256, 512, 1024, 1536, 2048, 2560, 3072, 3584, 4096, 4608, 
       5120, 5632, 6144, 6656, 7168, 7680, 8192, 9216, 10240, 11264, 12288, 13312, 14336, 
       15360, 16384, 17408, 18432, 19456, 20480, 21504, 22528, 23552, 25600, 27648, 29696, 
       31744, 33792, 35840, 37888, 39936, 41984, 44032, 46080, 48128, 50176, 52224, 54272, 
       58368, 62464, 66560, 70656, 74752, 78848, 82944, 87040, 91136]"
  by code_simp

lemma ipc_table_init_Some:
  "ipc_table_init = Some (ipc_table_entries, ipc_table_dnrequests)"
  unfolding ipc_table_entries_def ipc_table_dnrequests_def ipc_table_init_def
    ipc_table_entries_size_def ipc_table_dnrequests_size_def
  by (simp add: ipc_table_entries_fill ipc_table_dnrequests_fill nth_opt_def)

subsection \<open>The conditions that ipc/ipc_table.h imposes on the arrays\<close>

lemma ipc_table_arrays_eq:
  "ipc_table_entries = the (ipc_table_fill 127 4 sizeof_ipc_entry) @ [979456]"
  "ipc_table_dnrequests = the (ipc_table_fill 63 2 sizeof_ipc_port_request) @ [0]"
  unfolding ipc_table_entries_def ipc_table_dnrequests_def ipc_table_init_def
    ipc_table_entries_size_def ipc_table_dnrequests_size_def
  by (simp_all add: ipc_table_entries_fill ipc_table_dnrequests_fill nth_opt_def)

lemmas ipc_table_arrays = ipc_table_arrays_eq ipc_table_entries_fill ipc_table_dnrequests_fill
  option.sel butlast_snoc

lemma sorted_wrt_less_successively: "sorted_wrt (<) (xs :: u32 list) \<longleftrightarrow> successively (<) xs"
  by (simp add: successively_conv_sorted_wrt)

lemma entries_sizes:
  "length ipc_table_entries = 128" "sorted_wrt (<) (butlast ipc_table_entries)"
  "ipc_table_entries ! 127 = ipc_table_entries ! 126"
  "list_all (\<lambda>x. 4 \<le> x \<and> x \<le> 979456) ipc_table_entries"
  unfolding ipc_table_arrays sorted_wrt_less_successively by code_simp+

lemma dnrequests_sizes:
  "length ipc_table_dnrequests = 64" "sorted_wrt (<) (butlast ipc_table_dnrequests)"
  "ipc_table_dnrequests ! 63 = 0"
  "list_all (\<lambda>x. 2 \<le> x \<and> x \<le> 91136) (butlast ipc_table_dnrequests)"
  unfolding ipc_table_arrays sorted_wrt_less_successively by code_simp+

lemma length_ipc_table_entries [simp]: "length ipc_table_entries = 128"
  and length_ipc_table_dnrequests [simp]: "length ipc_table_dnrequests = 64"
  using entries_sizes dnrequests_sizes by simp_all

lemma entries_bounds: "i < 128 \<Longrightarrow> 4 \<le> ipc_table_entries ! i \<and> ipc_table_entries ! i \<le> 979456"
  using entries_sizes by (simp add: list_all_length)

lemma entries_increasing:
  assumes "i < j" "j < 127" shows "ipc_table_entries ! i < ipc_table_entries ! j"
  using entries_sizes assms sorted_wrt_nth_less [of "(<)" "butlast ipc_table_entries" i j]
  by (simp add: nth_butlast)

lemma dnrequests_bounds:
  "i < 63 \<Longrightarrow> 2 \<le> ipc_table_dnrequests ! i \<and> ipc_table_dnrequests ! i \<le> 91136"
  using dnrequests_sizes by (auto simp: list_all_length nth_butlast)

lemma dnrequests_increasing:
  assumes "i < j" "j < 63" shows "ipc_table_dnrequests ! i < ipc_table_dnrequests ! j"
  using dnrequests_sizes assms sorted_wrt_nth_less [of "(<)" "butlast ipc_table_dnrequests" i j]
  by (simp add: nth_butlast)

lemma dnrequests_last: "ipc_table_dnrequests ! 63 = 0"
  by (rule dnrequests_sizes)

lemma unat_entries:
  assumes "i < 128"
  shows "4 \<le> unat (ipc_table_entries ! i)" "unat (ipc_table_entries ! i) \<le> 979456"
  using entries_bounds [OF assms] by (simp_all add: word_le_nat_alt)

lemma MACH_PORT_INDEX_DEAD: "MACH_PORT_INDEX MACH_PORT_DEAD = 0xffffff"
  by code_simp

subsection \<open>Properties\<close>

text \<open>C14. \<open>ipc_table_init\<close> returns, and its arrays satisfy what ipc/ipc_table.h requires of
  them: the sizes of \<open>ipc_table_entries\<close> are strictly increasing except that the last two
  are equal, and none exceeds \<open>MACH_PORT_INDEX(MACH_PORT_DEAD)\<close>; the sizes of
  \<open>ipc_table_dnrequests\<close> are strictly increasing except that the last is zero.  No size in
  bytes wraps around.\<close>

theorem ipc_table_init_arrays:
  "\<exists>es ds. ipc_table_init = Some (es, ds) \<and>
     length es = ipc_table_entries_size \<and> sorted_wrt (<) (butlast es) \<and> es ! 127 = es ! 126 \<and>
     list_all (\<lambda>n. 4 \<le> n \<and> n \<le> MACH_PORT_INDEX MACH_PORT_DEAD \<and>
        unat n * unat sizeof_ipc_entry < 2 ^ 32) es \<and>
     length ds = ipc_table_dnrequests_size \<and> sorted_wrt (<) (butlast ds) \<and> last ds = 0 \<and>
     list_all (\<lambda>n. 2 \<le> n \<and> unat n * unat sizeof_ipc_port_request < 2 ^ 32) (butlast ds)"
proof -
  have "ipc_table_entries ! i \<le> MACH_PORT_INDEX MACH_PORT_DEAD \<and>
      unat (ipc_table_entries ! i) * unat sizeof_ipc_entry < 2 ^ 32" if "i < 128" for i
    using unat_entries [OF that]
    by (simp add: word_le_nat_alt MACH_PORT_INDEX_DEAD sizeof_ipc_entry_def)
  moreover have "unat (ipc_table_dnrequests ! i) * unat sizeof_ipc_port_request < 2 ^ 32" if "i < 63" for i
    using dnrequests_bounds [OF that]
    by (simp add: word_le_nat_alt sizeof_ipc_port_request_def)
  ultimately show ?thesis
    using entries_sizes dnrequests_sizes entries_bounds dnrequests_bounds
    by (intro exI [of _ ipc_table_entries] exI [of _ ipc_table_dnrequests])
      (simp add: ipc_table_init_Some ipc_table_entries_size_def ipc_table_dnrequests_size_def
        list_all_length nth_butlast last_conv_nth flip: length_greater_0_conv)
qed

end
