(* ===== verification/Ipc_Dnrequest.thy ===== *)
theory Ipc_Dnrequest
  imports Ipc_Table
begin

text \<open>
  Tables of dead-name requests: the arrays of \<open>struct ipc_port_request\<close> that
  \<open>ipc_port_dnrequest\<close>, \<open>ipc_port_dngrow\<close>, \<open>ipc_port_dncancel\<close> and \<open>ipc_port_dnrename\<close> of
  ipc/ipc_port.c keep for a port.  A table is the list of its elements.  Element 0 heads the
  list of free elements and says how large the table is; an element in use holds the name of a
  right and the send-once right to notify when the port dies, a free one the null name and
  the index of the next free element.
\<close>

text \<open>The unions \<open>notify\<close> (\<open>ipr_soright\<close> or \<open>ipr_next\<close>) and \<open>name\<close> (\<open>ipr_name\<close>, or \<open>ipr_size\<close>, whose
  value is the index in \<open>ipc_table_dnrequests\<close> the pointer refers to).\<close>

record ipc_port_request =
  ipr_notify :: u32
  ipr_name :: u32

type_synonym dn_table = "ipc_port_request list"

subsection \<open>Operations\<close>

definition ipr_next :: "ipc_port_request \<Rightarrow> nat" where
  "ipr_next ipr = unat (ipr_notify ipr)"

definition ipr_size :: "ipc_port_request \<Rightarrow> nat" where
  "ipr_size ipr = unat (ipr_name ipr)"

text \<open>Taking an element off the free list, the part of \<open>ipc_port_dnrequest\<close> on an existing table.\<close>

definition dn_take :: "mach_port \<Rightarrow> addr \<Rightarrow> dn_table \<Rightarrow> ((kern_return + nat) \<times> dn_table) option" where
  "dn_take name soright table =
     do {
       hd \<leftarrow> nth_opt table 0;
       let index = ipr_next hd;
       if index = 0 then Some (Inl KERN_NO_SPACE, table)
       else
         do {
           ipr \<leftarrow> nth_opt table index;
           kassert (ipr_name ipr = 0);
           let table = table[0 := hd\<lparr>ipr_notify := ipr_notify ipr\<rparr>];
           Some (Inr index, table[index := \<lparr>ipr_notify = soright, ipr_name = name\<rparr>])
         }
     }"

text \<open>Returning an element to the free list, the part of \<open>ipc_port_dncancel\<close> on the table.\<close>

definition dn_return :: "mach_port \<Rightarrow> nat \<Rightarrow> dn_table \<Rightarrow> (addr \<times> dn_table) option" where
  "dn_return name index table =
     do {
       ipr \<leftarrow> nth_opt table index;
       let dnrequest = ipr_notify ipr;
       kassert (ipr_name ipr = name);
       hd \<leftarrow> nth_opt table 0;
       let table = table[index := \<lparr>ipr_notify = ipr_notify hd, ipr_name = 0\<rparr>];
       Some (dnrequest, table[0 := hd\<lparr>ipr_notify := of_nat index\<rparr>])
     }"

definition dn_rename :: "nat \<Rightarrow> mach_port \<Rightarrow> mach_port \<Rightarrow> dn_table \<Rightarrow> dn_table option" where
  "dn_rename index oname nname table =
     do {
       ipr \<leftarrow> nth_opt table index;
       kassert (ipr_name ipr = oname);
       Some (table[index := ipr\<lparr>ipr_name := nname\<rparr>])
     }"

text \<open>The new table: the old elements are copied, the others put on the free list, and the head is
  stored last.  \<open>ntable\<close> is the fresh memory, whose contents are arbitrary.  Copying more
  elements than either table has is a wild access.\<close>

definition dn_add_free :: "nat \<Rightarrow> dn_table \<times> nat \<Rightarrow> dn_table \<times> nat" where
  "dn_add_free i st = (let (table, free) = st in (table[i := \<lparr>ipr_notify = of_nat free, ipr_name = 0\<rparr>], i))"

definition dn_copy :: "nat \<Rightarrow> dn_table \<Rightarrow> dn_table \<Rightarrow> dn_table option" where
  "dn_copy osize otable ntable =
     do {
       kassert (0 < osize \<and> osize \<le> length otable \<and> osize \<le> length ntable);
       Some (take 1 ntable @ drop 1 (take osize otable) @ drop osize ntable)
     }"

definition dn_grow :: "dn_table option \<Rightarrow> nat \<Rightarrow> dn_table \<Rightarrow> dn_table option" where
  "dn_grow otable its ntable =
     do {
       (osize, free, ntable) \<leftarrow>
         (case otable of
            None \<Rightarrow> Some (1, 0, ntable)
          | Some otable \<Rightarrow>
              do {
                hd \<leftarrow> nth_opt otable 0;
                osize \<leftarrow> nth_opt ipc_table_dnrequests (ipr_size hd);
                ntable \<leftarrow> dn_copy (unat osize) otable ntable;
                Some (unat osize, ipr_next hd, ntable)
              });
       nsize \<leftarrow> nth_opt ipc_table_dnrequests its;
       kassert (unat nsize > osize \<and> unat nsize \<le> length ntable);
       let (ntable, free) = fold dn_add_free [osize..<unat nsize] (ntable, free);
       Some (ntable[0 := \<lparr>ipr_notify = of_nat free, ipr_name = of_nat its\<rparr>])
     }"

subsection \<open>The invariant\<close>

text \<open>\<open>free_chain t i js\<close>: from index \<open>i\<close> the links lead through \<open>js\<close> to the end.\<close>

fun free_chain :: "dn_table \<Rightarrow> nat \<Rightarrow> nat list \<Rightarrow> bool" where
  "free_chain t i [] \<longleftrightarrow> i = 0"
| "free_chain t i (j # js) \<longleftrightarrow> i = j \<and> 0 < j \<and> j < length t \<and> free_chain t (ipr_next (t ! j)) js"

definition dn_ok :: "dn_table \<Rightarrow> bool" where
  "dn_ok t \<longleftrightarrow> t \<noteq> [] \<and> ipr_size (t ! 0) < 63 \<and> length t = unat (ipc_table_dnrequests ! ipr_size (t ! 0)) \<and>
     (\<exists>fl. free_chain t (ipr_next (t ! 0)) fl \<and> distinct fl \<and> set fl = {i. 0 < i \<and> i < length t \<and> ipr_name (t ! i) = 0}) \<and>
     (\<forall>i. 0 < i \<and> i < length t \<and> ipr_name (t ! i) \<noteq> 0 \<longrightarrow> ipr_notify (t ! i) \<noteq> 0)"

text \<open>The requests a table holds.\<close>

definition dn_map :: "dn_table \<Rightarrow> nat \<rightharpoonup> mach_port \<times> addr" where
  "dn_map t i = (if 0 < i \<and> i < length t \<and> ipr_name (t ! i) \<noteq> 0 then Some (ipr_name (t ! i), ipr_notify (t ! i)) else None)"

lemma free_chain_update:
  "j \<notin> set js \<Longrightarrow> free_chain (t[j := x]) i js = free_chain t i js"
  by (induction js arbitrary: i) auto

lemma free_chain_mono:
  "free_chain t i js \<Longrightarrow> length t \<le> length t' \<Longrightarrow> (\<And>j. j \<in> set js \<Longrightarrow> t' ! j = t ! j) \<Longrightarrow> free_chain t' i js"
  by (induction js arbitrary: i) auto

lemma dn_map_update:
  "0 < i \<Longrightarrow> i < length t \<Longrightarrow> dn_map (t[i := x]) = (dn_map t)(i := if ipr_name x = 0 then None else Some (ipr_name x, ipr_notify x))"
  by (auto simp: dn_map_def fun_eq_iff nth_list_update)

lemma dn_map_update_0 [simp]: "dn_map (t[0 := x]) = dn_map t"
  by (auto simp: dn_map_def fun_eq_iff)

lemma dn_map_eq_Some:
  "dn_map t i = Some (name, so) \<longleftrightarrow> 0 < i \<and> i < length t \<and> ipr_name (t ! i) \<noteq> 0 \<and> name = ipr_name (t ! i) \<and> so = ipr_notify (t ! i)"
  by (auto simp: dn_map_def)

lemma dn_okD:
  assumes "dn_ok t"
  shows "0 < length t" "ipr_size (t ! 0) < 63" "length t = unat (ipc_table_dnrequests ! ipr_size (t ! 0))"
    "\<exists>fl. free_chain t (ipr_next (t ! 0)) fl \<and> distinct fl \<and> set fl = {i. 0 < i \<and> i < length t \<and> ipr_name (t ! i) = 0}"
    "0 < i \<Longrightarrow> i < length t \<Longrightarrow> ipr_name (t ! i) \<noteq> 0 \<Longrightarrow> ipr_notify (t ! i) \<noteq> 0"
  using assms unfolding dn_ok_def by blast+

lemma dn_okI:
  assumes "0 < length t" "ipr_size (t ! 0) < 63" "length t = unat (ipc_table_dnrequests ! ipr_size (t ! 0))"
    "free_chain t (ipr_next (t ! 0)) fl" "distinct fl"
    "\<And>i. i \<in> set fl \<longleftrightarrow> 0 < i \<and> i < length t \<and> ipr_name (t ! i) = 0"
    "\<And>i. 0 < i \<Longrightarrow> i < length t \<Longrightarrow> ipr_name (t ! i) \<noteq> 0 \<Longrightarrow> ipr_notify (t ! i) \<noteq> 0"
  shows "dn_ok t"
proof -
  have "set fl = {i. 0 < i \<and> i < length t \<and> ipr_name (t ! i) = 0}" using assms(6) by blast
  then show ?thesis using assms(1-5,7) unfolding dn_ok_def by blast
qed

lemma dn_table_length: "dn_ok t \<Longrightarrow> 2 \<le> length t \<and> length t \<le> 91136"
  using dnrequests_bounds [of "ipr_size (t ! 0)"] by (auto simp: dn_ok_def word_le_nat_alt)

lemma unat_index: "n \<le> 91136 \<Longrightarrow> unat (of_nat n :: u32) = n"
  by (simp add: unat_of_nat take_bit_nat_eq_self)

text \<open>An element is taken.\<close>

lemma dn_take_ok:
  assumes ok: "dn_ok t" and new: "name \<noteq> 0" "soright \<noteq> 0"
  shows "(\<exists>i t'. dn_take name soright t = Some (Inr i, t') \<and> dn_ok t' \<and> ipr_size (t' ! 0) = ipr_size (t ! 0) \<and>
      0 < i \<and> i < length t \<and> dn_map t i = None \<and> dn_map t' = (dn_map t)(i \<mapsto> (name, soright))) \<or>
    dn_take name soright t = Some (Inl KERN_NO_SPACE, t) \<and> (\<forall>i. 0 < i \<and> i < length t \<longrightarrow> dn_map t i \<noteq> None)"
proof -
  note t = dn_okD [OF ok]
  obtain fl where fl: "free_chain t (ipr_next (t ! 0)) fl" "distinct fl"
    "\<And>i. i \<in> set fl \<longleftrightarrow> 0 < i \<and> i < length t \<and> ipr_name (t ! i) = 0" using t(4) by blast
  show ?thesis
  proof (cases fl)
    case Nil
    then show ?thesis using fl t(1) by (auto simp: dn_take_def dn_map_def)
  next
    case (Cons j js)
    have j: "ipr_next (t ! 0) = j" "0 < j" "j < length t" "ipr_name (t ! j) = 0" "j \<notin> set js"
      "free_chain t (ipr_next (t ! j)) js" "distinct js" using fl Cons by auto
    define t' where "t' = t[0 := (t ! 0)\<lparr>ipr_notify := ipr_notify (t ! j)\<rparr>, j := \<lparr>ipr_notify = soright, ipr_name = name\<rparr>]"
    have l: "length t' = length t" "t' ! 0 = (t ! 0)\<lparr>ipr_notify := ipr_notify (t ! j)\<rparr>"
      using j(2) t(1) by (simp_all add: t'_def)
    have size: "ipr_size (t' ! 0) = ipr_size (t ! 0)" "ipr_next (t' ! 0) = ipr_next (t ! j)"
      by (simp_all add: l ipr_size_def ipr_next_def)
    have nth: "i \<noteq> 0 \<Longrightarrow> i \<noteq> j \<Longrightarrow> t' ! i = t ! i" "t' ! j = \<lparr>ipr_notify = soright, ipr_name = name\<rparr>" for i
      using j by (simp_all add: t'_def)
    have js: "i \<in> set js \<longleftrightarrow> i \<noteq> j \<and> i \<in> set fl" for i using Cons fl(2) by auto
    have "0 \<notin> set js" using fl(3) Cons by auto
    then have fc: "free_chain t' (ipr_next (t ! j)) js"
      unfolding t'_def using j(5,6) by (simp add: free_chain_update)
    have "dn_ok t'"
    proof (rule dn_okI [of _ js])
      show "i \<in> set js \<longleftrightarrow> 0 < i \<and> i < length t' \<and> ipr_name (t' ! i) = 0" for i
        unfolding js fl(3) using nth new(1) l(1) by (cases "i = j") auto
      show "ipr_notify (t' ! i) \<noteq> 0" if "0 < i" "i < length t'" "ipr_name (t' ! i) \<noteq> 0" for i
        using that t(5) [of i] nth new(2) l by (cases "i = j") auto
    qed (use t(1-3) l size fc j(7) in simp_all)
    moreover have "dn_map t' = (dn_map t)(j \<mapsto> (name, soright))"
      using j new unfolding t'_def by (simp add: dn_map_update)
    moreover have "dn_take name soright t = Some (Inr j, t')"
      using j t(1) by (simp add: dn_take_def t'_def Let_def)
    ultimately show ?thesis using j size by (auto simp: dn_map_def)
  qed
qed

text \<open>An element is returned.\<close>

lemma dn_return_ok:
  assumes ok: "dn_ok t" and i: "dn_map t i = Some (name, soright)"
  shows "\<exists>t'. dn_return name i t = Some (soright, t') \<and> dn_ok t' \<and> ipr_size (t' ! 0) = ipr_size (t ! 0) \<and>
    dn_map t' = (dn_map t)(i := None)"
proof -
  note t = dn_okD [OF ok] and i = i [unfolded dn_map_eq_Some]
  obtain fl where fl: "free_chain t (ipr_next (t ! 0)) fl" "distinct fl"
    "\<And>i. i \<in> set fl \<longleftrightarrow> 0 < i \<and> i < length t \<and> ipr_name (t ! i) = 0" using t(4) by blast
  have ui: "unat (of_nat i :: u32) = i" using i dn_table_length [OF ok] by (intro unat_index) linarith
  define t' where "t' = t[i := \<lparr>ipr_notify = ipr_notify (t ! 0), ipr_name = 0\<rparr>, 0 := (t ! 0)\<lparr>ipr_notify := of_nat i\<rparr>]"
  have l: "length t' = length t" "t' ! 0 = (t ! 0)\<lparr>ipr_notify := of_nat i\<rparr>"
    using i t(1) by (simp_all add: t'_def)
  have size: "ipr_size (t' ! 0) = ipr_size (t ! 0)" "ipr_next (t' ! 0) = i"
    by (simp_all add: l ipr_size_def ipr_next_def ui)
  have nth: "k \<noteq> 0 \<Longrightarrow> k \<noteq> i \<Longrightarrow> t' ! k = t ! k" "t' ! i = \<lparr>ipr_notify = ipr_notify (t ! 0), ipr_name = 0\<rparr>" for k
    using i by (simp_all add: t'_def)
  have n: "ipr_next (t' ! i) = ipr_next (t ! 0)" by (simp add: nth(2) ipr_next_def)
  have "0 \<notin> set fl" "i \<notin> set fl" using fl(3) i by auto
  then have fc: "free_chain t' (ipr_next (t ! 0)) fl"
    unfolding t'_def using fl(1) by (simp add: free_chain_update)
  have "dn_ok t'"
  proof (rule dn_okI [of _ "i # fl"])
    show "k \<in> set (i # fl) \<longleftrightarrow> 0 < k \<and> k < length t' \<and> ipr_name (t' ! k) = 0" for k
      using fl(3) [of k] nth l(1) i by (cases "k = i") auto
    show "ipr_notify (t' ! k) \<noteq> 0" if "0 < k" "k < length t'" "ipr_name (t' ! k) \<noteq> 0" for k
      using that t(5) [of k] nth l by (cases "k = i") auto
    show "free_chain t' (ipr_next (t' ! 0)) (i # fl)" using fc size n i l by simp
    show "distinct (i # fl)" using fl(2) \<open>i \<notin> set fl\<close> by simp
  qed (use t(1-3) l size in simp_all)
  moreover have "dn_map t' = (dn_map t)(i := None)"
    using i unfolding t'_def by (simp add: dn_map_update)
  moreover have "dn_return name i t = Some (soright, t')"
    using i t(1) by (simp add: dn_return_def t'_def Let_def)
  ultimately show ?thesis using size by blast
qed

lemma dn_rename_ok:
  assumes ok: "dn_ok t" and i: "dn_map t i = Some (oname, soright)" and n: "nname \<noteq> 0"
  shows "\<exists>t'. dn_rename i oname nname t = Some t' \<and> dn_ok t' \<and> ipr_size (t' ! 0) = ipr_size (t ! 0) \<and>
    dn_map t' = (dn_map t)(i \<mapsto> (nname, soright))"
proof -
  note t = dn_okD [OF ok] and i = i [unfolded dn_map_eq_Some]
  obtain fl where fl: "free_chain t (ipr_next (t ! 0)) fl" "distinct fl"
    "\<And>i. i \<in> set fl \<longleftrightarrow> 0 < i \<and> i < length t \<and> ipr_name (t ! i) = 0" using t(4) by blast
  define t' where "t' = t[i := (t ! i)\<lparr>ipr_name := nname\<rparr>]"
  have l: "length t' = length t" "t' ! 0 = t ! 0" using i by (simp_all add: t'_def)
  have nth: "k \<noteq> i \<Longrightarrow> t' ! k = t ! k" "t' ! i = (t ! i)\<lparr>ipr_name := nname\<rparr>" for k
    using i by (simp_all add: t'_def)
  have "i \<notin> set fl" using fl(3) i by auto
  then have fc: "free_chain t' (ipr_next (t ! 0)) fl" unfolding t'_def using fl(1) by (simp add: free_chain_update)
  have "dn_ok t'"
  proof (rule dn_okI [of _ fl])
    show "k \<in> set fl \<longleftrightarrow> 0 < k \<and> k < length t' \<and> ipr_name (t' ! k) = 0" for k
      using fl(3) [of k] nth l(1) i n by (cases "k = i") auto
    show "ipr_notify (t' ! k) \<noteq> 0" if "0 < k" "k < length t'" "ipr_name (t' ! k) \<noteq> 0" for k
      using that t(5) [of k] nth l i by (cases "k = i") auto
  qed (use t(1-3) l fc fl(2) in simp_all)
  moreover have "dn_map t' = (dn_map t)(i \<mapsto> (nname, soright))"
    using i n unfolding t'_def by (simp add: dn_map_update)
  moreover have "dn_rename i oname nname t = Some t'"
    using i by (simp add: dn_rename_def t'_def Let_def)
  ultimately show ?thesis using l by auto
qed

text \<open>Growing keeps the requests.\<close>

lemma dn_add_free_fold:
  assumes "0 < a" "a + n \<le> length t" "length t \<le> 91136" "free_chain t f fl" "set fl \<subseteq> {0<..<a}"
  shows "\<exists>t' f'. fold dn_add_free [a..<a + n] (t, f) = (t', f') \<and> length t' = length t \<and>
    free_chain t' f' (rev [a..<a + n] @ fl) \<and> f' \<le> 91136 \<and>
    (\<forall>i. a \<le> i \<and> i < a + n \<longrightarrow> ipr_name (t' ! i) = 0) \<and> (\<forall>i. i < a \<or> a + n \<le> i \<longrightarrow> t' ! i = t ! i)"
  using assms
proof (induction n)
  case 0
  then have "f \<le> 91136" by (cases fl) auto
  then show ?case using 0 by auto
next
  case (Suc n)
  have "a + n \<le> length t" using Suc.prems(2) by simp
  from Suc.IH [OF Suc.prems(1) this Suc.prems(3-5)]
  obtain t' f' where t': "fold dn_add_free [a..<a + n] (t, f) = (t', f')" "length t' = length t"
    "free_chain t' f' (rev [a..<a + n] @ fl)" "f' \<le> 91136"
    "\<And>i. a \<le> i \<Longrightarrow> i < a + n \<Longrightarrow> ipr_name (t' ! i) = 0" "\<And>i. i < a \<or> a + n \<le> i \<Longrightarrow> t' ! i = t ! i"
    by blast
  define x where "x = \<lparr>ipr_notify = of_nat f', ipr_name = 0\<rparr>"
  have x: "ipr_next x = f'" using unat_index [OF t'(4)] by (simp add: x_def ipr_next_def)
  have "a + n \<notin> set (rev [a..<a + n] @ fl)" using Suc.prems(5) by auto
  then have "free_chain (t'[a + n := x]) f' (rev [a..<a + n] @ fl)" using t'(3) by (subst free_chain_update)
  then have "free_chain (t'[a + n := x]) (a + n) (rev [a..<a + Suc n] @ fl)"
    using Suc.prems t'(2) x by simp
  moreover have "fold dn_add_free [a..<a + Suc n] (t, f) = (t'[a + n := x], a + n)"
    using t'(1) by (simp add: dn_add_free_def x_def)
  moreover have "a \<le> i \<Longrightarrow> i < a + Suc n \<Longrightarrow> ipr_name (t'[a + n := x] ! i) = 0"
    and "i < a \<or> a + Suc n \<le> i \<Longrightarrow> t'[a + n := x] ! i = t ! i" for i
    using t'(5,6) [of i] Suc.prems t'(2) by (cases "i = a + n"; auto simp: x_def)+
  moreover have "length (t'[a + n := x]) = length t" "a + n \<le> 91136" using t'(2) Suc.prems by simp_all
  ultimately show ?case by blast
qed

lemma dn_fill_ok:
  assumes its: "its < 63" and a: "0 < a" "a < length nt" and l: "length nt = unat (ipc_table_dnrequests ! its)"
    and fl: "free_chain nt f fl" "distinct fl"
      "\<And>i. i \<in> set fl \<longleftrightarrow> 0 < i \<and> i < a \<and> ipr_name (nt ! i) = 0"
    and so: "\<And>i. 0 < i \<Longrightarrow> i < a \<Longrightarrow> ipr_name (nt ! i) \<noteq> 0 \<Longrightarrow> ipr_notify (nt ! i) \<noteq> 0"
  shows "\<exists>t' f'. fold dn_add_free [a..<length nt] (nt, f) = (t', f') \<and>
    dn_ok (t'[0 := \<lparr>ipr_notify = of_nat f', ipr_name = of_nat its\<rparr>]) \<and> length t' = length nt \<and>
    (\<forall>i. dn_map t' i = (if i < a then dn_map nt i else None))"
proof -
  have len: "length nt \<le> 91136" using dnrequests_bounds [OF its] l by (simp add: word_le_nat_alt)
  have sub: "set fl \<subseteq> {0<..<a}" by (rule subsetI) (simp add: fl(3))
  obtain t' f' where t': "fold dn_add_free [a..<length nt] (nt, f) = (t', f')" "length t' = length nt"
    "free_chain t' f' (rev [a..<length nt] @ fl)" "f' \<le> 91136"
    "\<And>i. a \<le> i \<Longrightarrow> i < length nt \<Longrightarrow> ipr_name (t' ! i) = 0" "\<And>i. i < a \<or> length nt \<le> i \<Longrightarrow> t' ! i = nt ! i"
    using dn_add_free_fold [OF a(1) _ len fl(1) sub, of "length nt - a", unfolded le_add_diff_inverse [OF less_imp_le [OF a(2)]]]
    by blast
  define t'' where "t'' = t'[0 := \<lparr>ipr_notify = of_nat f', ipr_name = of_nat its\<rparr>]"
  have len'': "length t'' = length nt" by (simp add: t''_def t'(2))
  have "0 < length t'" using a t'(2) by linarith
  then have hd: "ipr_size (t'' ! 0) = its" "ipr_next (t'' ! 0) = f'"
    using unat_index [of its] unat_index [OF t'(4)] its by (simp_all add: t''_def ipr_size_def ipr_next_def)
  have free: "i < length nt \<Longrightarrow> a \<le> i \<Longrightarrow> ipr_name (t'' ! i) = 0" for i
    using t'(5) [of i] a(1) by (simp add: t''_def)
  have old: "0 < i \<Longrightarrow> i < a \<Longrightarrow> t'' ! i = nt ! i" for i using t'(6) [of i] by (simp add: t''_def)
  have "0 \<notin> set (rev [a..<length nt] @ fl)" using a sub by auto
  then have "free_chain t'' f' (rev [a..<length nt] @ fl)"
    unfolding t''_def using t'(3) by (subst free_chain_update)
  have "dn_ok t''"
  proof (rule dn_okI [of _ "rev [a..<length nt] @ fl"])
    show "i \<in> set (rev [a..<length nt] @ fl) \<longleftrightarrow> 0 < i \<and> i < length t'' \<and> ipr_name (t'' ! i) = 0" for i
      using fl(3) [of i] free [of i] old [of i] a len'' by (cases "i < a") auto
    show "ipr_notify (t'' ! i) \<noteq> 0" if "0 < i" "i < length t''" "ipr_name (t'' ! i) \<noteq> 0" for i
      using that so [of i] free [of i] old [of i] len'' by (cases "i < a") auto
    show "distinct (rev [a..<length nt] @ fl)" using fl(2) sub by auto
  qed (use a its hd l len'' \<open>free_chain t'' f' _\<close> in auto)
  moreover have "dn_map t' i = (if i < a then dn_map nt i else None)" for i
    using t'(5,6) [of i] t'(2) a by (cases "i < a") (auto simp: dn_map_def)
  ultimately show ?thesis using t'(1,2) unfolding t''_def by blast
qed

lemma dn_grow_first:
  assumes "length nt = unat (ipc_table_dnrequests ! 0)"
  shows "\<exists>t'. dn_grow None 0 nt = Some t' \<and> dn_ok t' \<and> ipr_size (t' ! 0) = 0 \<and> length t' = length nt \<and> dn_map t' = Map.empty"
proof -
  have "2 \<le> length nt" using assms dnrequests_bounds [of 0] by (simp add: word_le_nat_alt)
  then have "\<exists>t' f'. fold dn_add_free [1..<length nt] (nt, 0) = (t', f') \<and>
    dn_ok (t'[0 := \<lparr>ipr_notify = of_nat f', ipr_name = of_nat 0\<rparr>]) \<and> length t' = length nt \<and>
    (\<forall>i. dn_map t' i = (if i < 1 then dn_map nt i else None))"
    using assms by (intro dn_fill_ok [of 0 1 nt 0 "[]"]) auto
  then obtain t' f' where t': "fold dn_add_free [1..<length nt] (nt, 0) = (t', f')"
    "dn_ok (t'[0 := \<lparr>ipr_notify = of_nat f', ipr_name = 0\<rparr>])" "length t' = length nt"
    "\<And>i. dn_map t' i = (if i < 1 then dn_map nt i else None)" by auto
  moreover have "dn_map t' = Map.empty" using t'(4) by (auto simp: fun_eq_iff dn_map_def)
  ultimately show ?thesis using assms \<open>2 \<le> length nt\<close>
    by (auto simp: dn_grow_def ipr_size_def)
qed

lemma dn_grow_next:
  assumes ok: "dn_ok t" and its: "its = Suc (ipr_size (t ! 0))" "its < 63"
    and l: "length nt = unat (ipc_table_dnrequests ! its)"
  shows "\<exists>t'. dn_grow (Some t) its nt = Some t' \<and> dn_ok t' \<and> ipr_size (t' ! 0) = its \<and> length t' = length nt \<and> dn_map t' = dn_map t"
proof -
  note t = dn_okD [OF ok]
  obtain fl where fl: "free_chain t (ipr_next (t ! 0)) fl" "distinct fl"
    "\<And>i. i \<in> set fl \<longleftrightarrow> 0 < i \<and> i < length t \<and> ipr_name (t ! i) = 0" using t(4) by blast
  have less: "length t < length nt"
    using dnrequests_increasing [of "ipr_size (t ! 0)" its] its t(3) l by (simp add: word_less_nat_alt)
  define nt' where "nt' = take 1 nt @ drop 1 t @ drop (length t) nt"
  have copy: "dn_copy (length t) t nt = Some nt'" using t(1) less by (simp add: dn_copy_def nt'_def)
  have len: "length nt' = length nt" using t(1) less by (cases t) (simp_all add: nt'_def)
  have nth: "0 < i \<Longrightarrow> i < length t \<Longrightarrow> nt' ! i = t ! i" for i
    using less by (auto simp: nt'_def nth_append)
  have fc: "free_chain nt' (ipr_next (t ! 0)) fl"
    using fl(1) by (rule free_chain_mono) (use fl(3) nth len less in auto)
  have "\<exists>t' f'. fold dn_add_free [length t..<length nt'] (nt', ipr_next (t ! 0)) = (t', f') \<and>
    dn_ok (t'[0 := \<lparr>ipr_notify = of_nat f', ipr_name = of_nat its\<rparr>]) \<and> length t' = length nt' \<and>
    (\<forall>i. dn_map t' i = (if i < length t then dn_map nt' i else None))"
  proof (rule dn_fill_ok [OF its(2) t(1) _ _ fc fl(2)])
    show "i \<in> set fl \<longleftrightarrow> 0 < i \<and> i < length t \<and> ipr_name (nt' ! i) = 0" for i
      unfolding fl(3) using nth [of i] by auto
    show "ipr_notify (nt' ! i) \<noteq> 0" if "0 < i" "i < length t" "ipr_name (nt' ! i) \<noteq> 0" for i
      using that nth [of i] t(5) [of i] by simp
  qed (use less len l in simp_all)
  then obtain t' f' where t': "fold dn_add_free [length t..<length nt'] (nt', ipr_next (t ! 0)) = (t', f')"
    "dn_ok (t'[0 := \<lparr>ipr_notify = of_nat f', ipr_name = of_nat its\<rparr>])" "length t' = length nt'"
    "\<And>i. dn_map t' i = (if i < length t then dn_map nt' i else None)" by blast
  have "dn_map t' = dn_map t" using t'(4) nth less len by (auto simp: fun_eq_iff dn_map_def)
  moreover have "ipr_size (t'[0 := \<lparr>ipr_notify = of_nat f', ipr_name = of_nat its\<rparr>] ! 0) = its"
  proof -
    have "0 < length t'" using t'(3) len less by linarith
    then show ?thesis using unat_index [of its] its(2) by (simp add: ipr_size_def)
  qed
  moreover have "dn_grow (Some t) its nt = Some (t'[0 := \<lparr>ipr_notify = of_nat f', ipr_name = of_nat its\<rparr>])"
    using t(1,2) its(2) less len t'(1) copy l by (simp add: dn_grow_def t(3) [symmetric])
  ultimately show ?thesis using t'(2,3) len by auto
qed

end
