(* ===== verification/Ipc_Dnport.thy ===== *)
theory Ipc_Dnport
  imports Ipc_Dnrequest
begin

text \<open>
  The dead-name requests of one port while several threads work on it: \<open>ipc_port_dnrequest\<close>,
  \<open>ipc_port_dncancel\<close>, \<open>ipc_port_dnrename\<close>, \<open>ipc_port_dngrow\<close> and the part of \<open>ipc_port_destroy\<close>
  that notifies the holders of dead names (ipc/ipc_port.c, ipc/ipc_port.h).  \<open>ipc_port_dngrow\<close>
  may block while it allocates memory; the other operations run to their end.  Between its two
  halves other threads make requests, grow the table themselves or destroy the port, and memory
  that was freed may be handed out again.
\<close>

subsection \<open>The state of a port\<close>

text \<open>What becomes of a request when the port dies: \<open>ipc_notify_dead_name\<close>, or for the spaces of the
  old interface (low bit of the pointer set) \<open>ipc_port_delete_compat\<close>.\<close>

datatype dn_notice = Dead_name addr mach_port | Delete_compat addr mach_port

text \<open>\<open>dn_mem\<close> holds the tables allocated for this port, by address; \<open>ip_freed\<close> says that the port
  itself was returned to its zone.\<close>

record dn_state =
  ip_active :: bool
  ip_references :: u32
  ip_dnrequests :: addr
  ip_freed :: bool
  dn_mem :: "addr \<rightharpoonup> dn_table"

subsection \<open>Operations\<close>

definition ip_check_unlock :: "dn_state \<Rightarrow> dn_state" where
  "ip_check_unlock st = (if ip_references st = 0 then st\<lparr>ip_freed := True\<rparr> else st)"

definition ipc_port_release :: "dn_state \<Rightarrow> dn_state option" where
  "ipc_port_release st =
     do {
       kassert (0 < ip_references st);
       Some (ip_check_unlock (st\<lparr>ip_references := ip_references st - 1\<rparr>))
     }"

definition it_dnrequests_free :: "nat \<Rightarrow> addr \<Rightarrow> dn_state \<Rightarrow> dn_state option" where
  "it_dnrequests_free its a st =
     do {
       table \<leftarrow> dn_mem st a;
       size \<leftarrow> nth_opt ipc_table_dnrequests its;
       kassert (length table = unat size);
       Some (st\<lparr>dn_mem := (dn_mem st)(a := None)\<rparr>)
     }"

definition ipc_port_dnrequest :: "mach_port \<Rightarrow> addr \<Rightarrow> dn_state \<Rightarrow> ((kern_return + nat) \<times> dn_state) option" where
  "ipc_port_dnrequest name soright st =
     do {
       kassert (ip_active st);
       kassert (name \<noteq> 0);
       kassert (soright \<noteq> 0);
       if ip_dnrequests st = 0 then Some (Inl KERN_NO_SPACE, st)
       else
         do {
           table \<leftarrow> dn_mem st (ip_dnrequests st);
           (r, table) \<leftarrow> dn_take name soright table;
           Some (r, st\<lparr>dn_mem := (dn_mem st)(ip_dnrequests st \<mapsto> table)\<rparr>)
         }
     }"

definition ipc_port_dncancel :: "mach_port \<Rightarrow> nat \<Rightarrow> dn_state \<Rightarrow> (addr \<times> dn_state) option" where
  "ipc_port_dncancel name index st =
     do {
       kassert (ip_active st);
       kassert (name \<noteq> 0);
       kassert (index \<noteq> 0);
       kassert (ip_dnrequests st \<noteq> 0);
       table \<leftarrow> dn_mem st (ip_dnrequests st);
       (dnrequest, table) \<leftarrow> dn_return name index table;
       Some (dnrequest, st\<lparr>dn_mem := (dn_mem st)(ip_dnrequests st \<mapsto> table)\<rparr>)
     }"

definition ipc_port_dnrename :: "nat \<Rightarrow> mach_port \<Rightarrow> mach_port \<Rightarrow> dn_state \<Rightarrow> dn_state option" where
  "ipc_port_dnrename index oname nname st =
     do {
       kassert (ip_active st);
       kassert (ip_dnrequests st \<noteq> 0);
       table \<leftarrow> dn_mem st (ip_dnrequests st);
       table \<leftarrow> dn_rename index oname nname table;
       Some (st\<lparr>dn_mem := (dn_mem st)(ip_dnrequests st \<mapsto> table)\<rparr>)
     }"

text \<open>\<open>ipc_port_dngrow\<close> until it unlocks the port, and after the allocation: \<open>alloc\<close> is the address and
  the contents of the memory that \<open>it_dnrequests_alloc\<close> returned, or \<open>None\<close>.\<close>

definition dngrow_start :: "dn_state \<Rightarrow> ((addr \<times> nat) \<times> dn_state) option" where
  "dngrow_start st =
     do {
       kassert (ip_active st);
       let otable = ip_dnrequests st;
       its \<leftarrow> (if otable = 0 then Some 0
                else do { table \<leftarrow> dn_mem st otable; hd \<leftarrow> nth_opt table 0; Some (ipr_size hd + 1) });
       Some ((otable, its), st\<lparr>ip_references := ip_references st + 1\<rparr>)
     }"

definition dngrow_check :: "addr \<Rightarrow> nat \<Rightarrow> dn_state \<Rightarrow> bool option" where
  "dngrow_check otable its st =
     (if ip_active st \<and> ip_dnrequests st = otable then
        if otable = 0 then Some True
        else do { table \<leftarrow> dn_mem st otable; hd \<leftarrow> nth_opt table 0; Some (ipr_size hd + 1 = its) }
      else Some False)"

definition dngrow_install :: "addr \<Rightarrow> nat \<Rightarrow> addr \<Rightarrow> dn_table \<Rightarrow> dn_state \<Rightarrow> dn_state option" where
  "dngrow_install otable its na ntable st =
     (if otable = 0 then
        do {
          table \<leftarrow> dn_grow None its ntable;
          Some (st\<lparr>dn_mem := (dn_mem st)(na \<mapsto> table), ip_dnrequests := na\<rparr>)
        }
      else
        do {
          old \<leftarrow> dn_mem st otable;
          hd \<leftarrow> nth_opt old 0;
          table \<leftarrow> dn_grow (Some old) its ntable;
          let st = st\<lparr>dn_mem := (dn_mem st)(na \<mapsto> table), ip_dnrequests := na\<rparr>;
          it_dnrequests_free (ipr_size hd) otable st
        })"

definition dngrow_resume ::
  "addr \<times> nat \<Rightarrow> (addr \<times> dn_table) option \<Rightarrow> dn_state \<Rightarrow> (kern_return \<times> dn_state) option" where
  "dngrow_resume g alloc st =
     (let (otable, its) = g in
      do {
        size \<leftarrow> nth_opt ipc_table_dnrequests its;
        case (if size = 0 then None else alloc) of
          None \<Rightarrow>
            do {
              st \<leftarrow> ipc_port_release st;
              Some (KERN_RESOURCE_SHORTAGE, st)
            }
        | Some (na, ntable) \<Rightarrow>
            do {
              let st = st\<lparr>dn_mem := (dn_mem st)(na \<mapsto> ntable), ip_references := ip_references st - 1\<rparr>;
              same \<leftarrow> dngrow_check otable its st;
              st \<leftarrow> (if same then dngrow_install otable its na ntable st
                      else it_dnrequests_free its na (ip_check_unlock st));
              Some (KERN_SUCCESS, st)
            }
      })"

text \<open>The part of \<open>ipc_port_destroy\<close> that concerns the requests: the port dies, later the requests are
  answered in the order of their indices, the table is freed (the pointer to it is left as
  it is) and the caller's reference released.  The timestamp, the queues and the kernel object
  of the port do not concern the requests and are left out.\<close>

definition destroy_inactive :: "dn_state \<Rightarrow> dn_state option" where
  "destroy_inactive st = do { kassert (ip_active st); Some (st\<lparr>ip_active := False\<rparr>) }"

definition dn_notice_of :: "mach_port \<Rightarrow> addr \<Rightarrow> dn_notice" where
  "dn_notice_of name soright =
     (if soright AND 1 \<noteq> 0 then Delete_compat (soright AND NOT 1) name else Dead_name soright name)"

fun dn_notify_loop :: "dn_table \<Rightarrow> nat list \<Rightarrow> dn_notice list option" where
  "dn_notify_loop table [] = Some []"
| "dn_notify_loop table (index # is) =
     do {
       ipr \<leftarrow> nth_opt table index;
       if ipr_name ipr = 0 then dn_notify_loop table is
       else
         do {
           kassert (ipr_notify ipr \<noteq> 0);
           ns \<leftarrow> dn_notify_loop table is;
           Some (dn_notice_of (ipr_name ipr) (ipr_notify ipr) # ns)
         }
     }"

definition destroy_dnrequests :: "dn_state \<Rightarrow> (dn_notice list \<times> dn_state) option" where
  "destroy_dnrequests st =
     do {
       (ns, st) \<leftarrow>
         (if ip_dnrequests st = 0 then Some ([], st)
          else
            do {
              table \<leftarrow> dn_mem st (ip_dnrequests st);
              hd \<leftarrow> nth_opt table 0;
              size \<leftarrow> nth_opt ipc_table_dnrequests (ipr_size hd);
              ns \<leftarrow> dn_notify_loop table [1..<unat size];
              st \<leftarrow> it_dnrequests_free (ipr_size hd) (ip_dnrequests st) st;
              Some (ns, st)
            });
       st \<leftarrow> ipc_port_release st;
       Some (ns, st)
     }"

subsection \<open>Threads\<close>

text \<open>Besides the port: the threads that are inside \<open>ipc_port_dngrow\<close> with what they remember, the
  number of references that others hold, and whether \<open>ipc_port_destroy\<close> is between its two
  halves.\<close>

record dn_system =
  dn_port :: dn_state
  dn_growers :: "(addr \<times> nat) list"
  dn_others :: nat
  dn_dying :: bool

datatype dn_op =
    Request mach_port addr
  | Cancel mach_port nat
  | Rename nat mach_port mach_port
  | Grow_start
  | Grow_resume nat "(addr \<times> dn_table) option"
  | Reference
  | Release
  | Die
  | Notify

datatype dn_out = Index "kern_return + nat" | Soright addr | Return kern_return | Notices "dn_notice list" | Nothing

text \<open>The requests that wait for the port to die.\<close>

definition dn_requests :: "dn_system \<Rightarrow> nat \<rightharpoonup> mach_port \<times> addr" where
  "dn_requests sys =
     (if (ip_active (dn_port sys) \<or> dn_dying sys) \<and> ip_dnrequests (dn_port sys) \<noteq> 0
      then case dn_mem (dn_port sys) (ip_dnrequests (dn_port sys)) of None \<Rightarrow> Map.empty | Some t \<Rightarrow> dn_map t
      else Map.empty)"

text \<open>When an operation is called.  The holder of a right cancels or renames its own request;
  the allocator returns a new block of the size asked for; a port that is not dead has a
  reference of its own, that \<open>ipc_port_destroy\<close> consumes; the number of references is below
  \<open>2\<^sup>3\<^sup>2\<close>.\<close>

fun dn_enabled :: "dn_op \<Rightarrow> dn_system \<Rightarrow> bool" where
  "dn_enabled (Request name soright) sys \<longleftrightarrow> ip_active (dn_port sys) \<and> name \<noteq> 0 \<and> soright \<noteq> 0"
| "dn_enabled (Cancel name index) sys \<longleftrightarrow>
     ip_active (dn_port sys) \<and> (case dn_requests sys index of None \<Rightarrow> False | Some (n, so) \<Rightarrow> n = name)"
| "dn_enabled (Rename index oname nname) sys \<longleftrightarrow>
     ip_active (dn_port sys) \<and> nname \<noteq> 0 \<and> (case dn_requests sys index of None \<Rightarrow> False | Some (n, so) \<Rightarrow> n = oname)"
| "dn_enabled Grow_start sys \<longleftrightarrow> ip_active (dn_port sys) \<and> dn_others sys + length (dn_growers sys) + 1 < 2 ^ 32"
| "dn_enabled (Grow_resume k alloc) sys \<longleftrightarrow> k < length (dn_growers sys) \<and>
     (case alloc of None \<Rightarrow> True
      | Some (na, ntable) \<Rightarrow> na \<noteq> 0 \<and> dn_mem (dn_port sys) na = None \<and>
          length ntable = unat (ipc_table_dnrequests ! snd (dn_growers sys ! k)))"
| "dn_enabled Reference sys \<longleftrightarrow> 0 < dn_others sys \<and> dn_others sys + length (dn_growers sys) + 1 < 2 ^ 32"
| "dn_enabled Release sys \<longleftrightarrow> (if ip_active (dn_port sys) \<or> dn_dying sys then 1 else 0) < dn_others sys"
| "dn_enabled Die sys \<longleftrightarrow> ip_active (dn_port sys)"
| "dn_enabled Notify sys \<longleftrightarrow> dn_dying sys"

definition remove_nth :: "nat \<Rightarrow> 'a list \<Rightarrow> 'a list" where
  "remove_nth k xs = take k xs @ drop (Suc k) xs"

fun dn_exec :: "dn_op \<Rightarrow> dn_system \<Rightarrow> (dn_out \<times> dn_system) option" where
  "dn_exec (Request name soright) sys =
     do { (r, st) \<leftarrow> ipc_port_dnrequest name soright (dn_port sys); Some (Index r, sys\<lparr>dn_port := st\<rparr>) }"
| "dn_exec (Cancel name index) sys =
     do { (so, st) \<leftarrow> ipc_port_dncancel name index (dn_port sys); Some (Soright so, sys\<lparr>dn_port := st\<rparr>) }"
| "dn_exec (Rename index oname nname) sys =
     do { st \<leftarrow> ipc_port_dnrename index oname nname (dn_port sys); Some (Nothing, sys\<lparr>dn_port := st\<rparr>) }"
| "dn_exec Grow_start sys =
     do { (g, st) \<leftarrow> dngrow_start (dn_port sys);
          Some (Nothing, sys\<lparr>dn_port := st, dn_growers := g # dn_growers sys\<rparr>) }"
| "dn_exec (Grow_resume k alloc) sys =
     do { (kr, st) \<leftarrow> dngrow_resume (dn_growers sys ! k) alloc (dn_port sys);
          Some (Return kr, sys\<lparr>dn_port := st, dn_growers := remove_nth k (dn_growers sys)\<rparr>) }"
| "dn_exec Reference sys =
     Some (Nothing, sys\<lparr>dn_port := (dn_port sys)\<lparr>ip_references := ip_references (dn_port sys) + 1\<rparr>, dn_others := dn_others sys + 1\<rparr>)"
| "dn_exec Release sys =
     do { st \<leftarrow> ipc_port_release (dn_port sys); Some (Nothing, sys\<lparr>dn_port := st, dn_others := dn_others sys - 1\<rparr>) }"
| "dn_exec Die sys =
     do { st \<leftarrow> destroy_inactive (dn_port sys); Some (Nothing, sys\<lparr>dn_port := st, dn_dying := True\<rparr>) }"
| "dn_exec Notify sys =
     do { (ns, st) \<leftarrow> destroy_dnrequests (dn_port sys);
          Some (Notices ns, sys\<lparr>dn_port := st, dn_others := dn_others sys - 1, dn_dying := False\<rparr>) }"

text \<open>A new port: active, with one reference and no table.\<close>

definition dn_init :: dn_system where
  "dn_init = \<lparr>dn_port = \<lparr>ip_active = True, ip_references = 1, ip_dnrequests = 0, ip_freed = False, dn_mem = Map.empty\<rparr>,
     dn_growers = [], dn_others = 1, dn_dying = False\<rparr>"

inductive dn_reachable :: "dn_system \<Rightarrow> bool" where
  dn_start: "dn_reachable dn_init"
| dn_next: "dn_reachable sys \<Longrightarrow> dn_enabled op sys \<Longrightarrow> dn_exec op sys = Some (out, sys') \<Longrightarrow> dn_reachable sys'"

subsection \<open>What is promised\<close>

text \<open>The size of the table, 0 when there is none.\<close>

definition dn_level :: "dn_state \<Rightarrow> nat" where
  "dn_level st =
     (if ip_dnrequests st = 0 then 0
      else case dn_mem st (ip_dnrequests st) of None \<Rightarrow> 0 | Some t \<Rightarrow> Suc (ipr_size (t ! 0)))"

text \<open>The effect of an operation on the requests \<open>m\<close>, seen from outside.  A successful call of
  \<open>ipc_port_dngrow\<close> leaves a port that is still active with a larger table than it had when the
  call began.\<close>

fun dn_spec :: "dn_op \<Rightarrow> dn_out \<Rightarrow> dn_system \<Rightarrow> dn_system \<Rightarrow> bool" where
  "dn_spec (Request name soright) (Index (Inr i)) sys sys' \<longleftrightarrow>
     0 < i \<and> dn_requests sys i = None \<and> dn_requests sys' = (dn_requests sys)(i \<mapsto> (name, soright))"
| "dn_spec (Request name soright) (Index (Inl kr)) sys sys' \<longleftrightarrow> kr = KERN_NO_SPACE \<and> sys' = sys"
| "dn_spec (Cancel name i) (Soright so) sys sys' \<longleftrightarrow>
     dn_requests sys i = Some (name, so) \<and> dn_requests sys' = (dn_requests sys)(i := None)"
| "dn_spec (Rename i oname nname) Nothing sys sys' \<longleftrightarrow>
     (case dn_requests sys i of None \<Rightarrow> False
      | Some (n, so) \<Rightarrow> n = oname \<and> dn_requests sys' = (dn_requests sys)(i \<mapsto> (nname, so)))"
| "dn_spec (Grow_resume k alloc) (Return kr) sys sys' \<longleftrightarrow> dn_requests sys' = dn_requests sys \<and>
     (kr = KERN_SUCCESS \<and> (ip_active (dn_port sys) \<longrightarrow> snd (dn_growers sys ! k) < dn_level (dn_port sys')) \<or>
      kr = KERN_RESOURCE_SHORTAGE \<and> (alloc = None \<or> snd (dn_growers sys ! k) = 63))"
| "dn_spec Notify (Notices ns) sys sys' \<longleftrightarrow> dn_requests sys' = Map.empty \<and>
     ns = map (\<lambda>i. case_prod dn_notice_of (the (dn_requests sys i))) (sorted_list_of_set (dom (dn_requests sys)))"
| "dn_spec Grow_start Nothing sys sys' \<longleftrightarrow> dn_requests sys' = dn_requests sys \<and>
     (\<exists>ot. dn_growers sys' = (ot, dn_level (dn_port sys)) # dn_growers sys)"
| "dn_spec Reference Nothing sys sys' \<longleftrightarrow> dn_requests sys' = dn_requests sys"
| "dn_spec Release Nothing sys sys' \<longleftrightarrow> dn_requests sys' = dn_requests sys"
| "dn_spec Die Nothing sys sys' \<longleftrightarrow> dn_requests sys' = dn_requests sys"
| "dn_spec op out sys sys' \<longleftrightarrow> False"

text \<open>No table is leaked: memory is held for the table of a port that is not dead, and for nothing
  else.  The port is freed when the last reference goes, and not before.\<close>

definition dn_tidy :: "dn_system \<Rightarrow> bool" where
  "dn_tidy sys \<longleftrightarrow>
     dom (dn_mem (dn_port sys)) =
       (if (ip_active (dn_port sys) \<or> dn_dying sys) \<and> ip_dnrequests (dn_port sys) \<noteq> 0 then {ip_dnrequests (dn_port sys)} else {}) \<and>
     (ip_freed (dn_port sys) \<longleftrightarrow> dn_others sys = 0 \<and> dn_growers sys = [])"

subsection \<open>The invariant\<close>

abbreviation dn_live :: "dn_system \<Rightarrow> bool" where
  "dn_live sys \<equiv> ip_active (dn_port sys) \<or> dn_dying sys"

definition dn_refs_ok :: "dn_system \<Rightarrow> bool" where
  "dn_refs_ok sys \<longleftrightarrow> unat (ip_references (dn_port sys)) = dn_others sys + length (dn_growers sys) \<and>
     (dn_live sys \<longrightarrow> 0 < dn_others sys) \<and> \<not> (ip_active (dn_port sys) \<and> dn_dying sys) \<and>
     (ip_freed (dn_port sys) \<longleftrightarrow> dn_others sys = 0 \<and> dn_growers sys = [])"

definition dn_mem_ok :: "dn_system \<Rightarrow> bool" where
  "dn_mem_ok sys \<longleftrightarrow>
     (if dn_live sys \<and> ip_dnrequests (dn_port sys) \<noteq> 0
      then \<exists>t. dn_mem (dn_port sys) = [ip_dnrequests (dn_port sys) \<mapsto> t] \<and> dn_ok t
      else dn_mem (dn_port sys) = Map.empty)"

text \<open>A thread inside \<open>ipc_port_dngrow\<close> remembers a size not above that of the table; when it is the
  same, nobody has grown the table and it is where it was.\<close>

definition grower_ok :: "dn_state \<Rightarrow> addr \<times> nat \<Rightarrow> bool" where
  "grower_ok st g \<longleftrightarrow> (fst g = 0 \<longleftrightarrow> snd g = 0) \<and> snd g \<le> 63 \<and>
     (ip_active st \<longrightarrow> snd g \<le> dn_level st \<and> (snd g = dn_level st \<longrightarrow> fst g = ip_dnrequests st))"

definition dn_inv :: "dn_system \<Rightarrow> bool" where
  "dn_inv sys \<longleftrightarrow> dn_refs_ok sys \<and> dn_mem_ok sys \<and> (\<forall>g \<in> set (dn_growers sys). grower_ok (dn_port sys) g)"

lemma dn_inv_init: "dn_inv dn_init"
  by (simp add: dn_inv_def dn_init_def dn_refs_ok_def dn_mem_ok_def)

lemma dn_inv_tidy: "dn_inv sys \<Longrightarrow> dn_tidy sys"
  by (auto simp: dn_inv_def dn_tidy_def dn_refs_ok_def dn_mem_ok_def split: if_splits)

lemma dn_mem_cases:
  assumes "dn_inv sys" "dn_live sys"
  obtains "ip_dnrequests (dn_port sys) = 0" "dn_mem (dn_port sys) = Map.empty" "dn_requests sys = Map.empty" "dn_level (dn_port sys) = 0"
  | t where "ip_dnrequests (dn_port sys) \<noteq> 0" "dn_mem (dn_port sys) = [ip_dnrequests (dn_port sys) \<mapsto> t]" "dn_ok t" "dn_requests sys = dn_map t"
      "dn_level (dn_port sys) = Suc (ipr_size (t ! 0))" "0 < length t" "ipr_size (t ! 0) < 63"
proof (cases "ip_dnrequests (dn_port sys) = 0")
  case True
  then show thesis using assms that(1) by (simp add: dn_inv_def dn_mem_ok_def dn_requests_def dn_level_def)
next
  case False
  then obtain t where "dn_mem (dn_port sys) = [ip_dnrequests (dn_port sys) \<mapsto> t]" "dn_ok t"
    using assms unfolding dn_inv_def dn_mem_ok_def by metis
  then show thesis using assms(2) False that(2) [of t] dn_okD(1,2) [of t] by (simp add: dn_requests_def dn_level_def)
qed

lemma dn_mem_okI:
  "dn_live sys \<Longrightarrow> ip_dnrequests (dn_port sys) \<noteq> 0 \<Longrightarrow> dn_mem (dn_port sys) = [ip_dnrequests (dn_port sys) \<mapsto> t] \<Longrightarrow>
    dn_ok t \<Longrightarrow> dn_mem_ok sys"
  unfolding dn_mem_ok_def by auto

lemma dn_table_change:
  assumes inv: "dn_inv sys" and live: "ip_active (dn_port sys)" and a: "ip_dnrequests (dn_port sys) = a" "a \<noteq> 0"
    and t: "dn_mem (dn_port sys) = [a \<mapsto> t]" and t': "dn_ok t'" "ipr_size (t' ! 0) = ipr_size (t ! 0)"
  shows "dn_inv (sys\<lparr>dn_port := (dn_port sys)\<lparr>dn_mem := [a \<mapsto> t']\<rparr>\<rparr>)"
    and "dn_requests (sys\<lparr>dn_port := (dn_port sys)\<lparr>dn_mem := [a \<mapsto> t']\<rparr>\<rparr>) = dn_map t'"
proof -
  have "dn_level ((dn_port sys)\<lparr>dn_mem := [a \<mapsto> t']\<rparr>) = dn_level (dn_port sys)"
    using a t t' by (simp add: dn_level_def)
  then show "dn_inv (sys\<lparr>dn_port := (dn_port sys)\<lparr>dn_mem := [a \<mapsto> t']\<rparr>\<rparr>)"
    using inv live a t t' dn_mem_okI [of "sys\<lparr>dn_port := (dn_port sys)\<lparr>dn_mem := [a \<mapsto> t']\<rparr>\<rparr>" t']
    by (simp add: dn_inv_def dn_refs_ok_def grower_ok_def)
  show "dn_requests (sys\<lparr>dn_port := (dn_port sys)\<lparr>dn_mem := [a \<mapsto> t']\<rparr>\<rparr>) = dn_map t'"
    using live a by (simp add: dn_requests_def)
qed

subsection \<open>Each operation\<close>

definition dn_good :: "dn_op \<Rightarrow> dn_system \<Rightarrow> bool" where
  "dn_good op sys \<longleftrightarrow> (\<exists>out sys'. dn_exec op sys = Some (out, sys') \<and> dn_inv sys' \<and> dn_spec op out sys sys')"

lemma dn_goodI: "dn_exec op sys = Some (out, sys') \<Longrightarrow> dn_inv sys' \<Longrightarrow> dn_spec op out sys sys' \<Longrightarrow> dn_good op sys"
  unfolding dn_good_def by blast

lemma request_good:
  assumes inv: "dn_inv sys" and en: "dn_enabled (Request name soright) sys"
  shows "dn_good (Request name soright) sys"
proof -
  have live: "ip_active (dn_port sys)" "name \<noteq> 0" "soright \<noteq> 0" using en by simp_all
  then have "dn_live sys" by simp
  with inv show ?thesis
  proof (cases rule: dn_mem_cases)
    case 1
    then show ?thesis using live inv
      by (intro dn_goodI [of _ _ "Index (Inl KERN_NO_SPACE)" sys]) (simp_all add: ipc_port_dnrequest_def)
  next
    case (2 t)
    from dn_take_ok [OF 2(3) live(2,3)] show ?thesis
    proof (elim disjE exE conjE)
      fix i t'
      assume h: "dn_take name soright t = Some (Inr i, t')" "dn_ok t'" "ipr_size (t' ! 0) = ipr_size (t ! 0)" "0 < i"
        "dn_map t i = None" "dn_map t' = (dn_map t)(i \<mapsto> (name, soright))"
      show ?thesis
        using dn_table_change [OF inv live(1) refl 2(1,2) h(2,3)] 2(1,2,4) h live
        by (intro dn_goodI [of _ _ "Index (Inr i)" "sys\<lparr>dn_port := (dn_port sys)\<lparr>dn_mem := [ip_dnrequests (dn_port sys) \<mapsto> t']\<rparr>\<rparr>"])
          (simp_all add: ipc_port_dnrequest_def)
    next
      assume h: "dn_take name soright t = Some (Inl KERN_NO_SPACE, t)"
      have "(dn_port sys)\<lparr>dn_mem := [ip_dnrequests (dn_port sys) \<mapsto> t]\<rparr> = dn_port sys" using 2(2) by (cases "dn_port sys") simp
      then show ?thesis using 2(1,2) h live inv
        by (intro dn_goodI [of _ _ "Index (Inl KERN_NO_SPACE)" sys]) (simp_all add: ipc_port_dnrequest_def)
    qed
  qed
qed

lemma cancel_good:
  assumes inv: "dn_inv sys" and en: "dn_enabled (Cancel name i) sys"
  shows "dn_good (Cancel name i) sys"
proof -
  obtain so where live: "ip_active (dn_port sys)" "dn_requests sys i = Some (name, so)"
    using en by (auto split: option.splits)
  then have "dn_live sys" by simp
  with inv show ?thesis
  proof (cases rule: dn_mem_cases)
    case (2 t)
    have i: "dn_map t i = Some (name, so)" using live 2 by simp
    then have n: "i \<noteq> 0" "name \<noteq> 0" by (auto simp: dn_map_eq_Some)
    from dn_return_ok [OF 2(3) i] obtain t' where h: "dn_return name i t = Some (so, t')" "dn_ok t'"
      "ipr_size (t' ! 0) = ipr_size (t ! 0)" "dn_map t' = (dn_map t)(i := None)" by blast
    show ?thesis
      using dn_table_change [OF inv live(1) refl 2(1,2) h(2,3)] 2(1,2,4) h i n live(1)
      by (intro dn_goodI [of _ _ "Soright so" "sys\<lparr>dn_port := (dn_port sys)\<lparr>dn_mem := [ip_dnrequests (dn_port sys) \<mapsto> t']\<rparr>\<rparr>"])
        (simp_all add: ipc_port_dncancel_def)
  qed (use live in simp)
qed

lemma rename_good:
  assumes inv: "dn_inv sys" and en: "dn_enabled (Rename i oname nname) sys"
  shows "dn_good (Rename i oname nname) sys"
proof -
  obtain so where live: "ip_active (dn_port sys)" "dn_requests sys i = Some (oname, so)" and nn: "nname \<noteq> 0"
    using en by (auto split: option.splits)
  then have "dn_live sys" by simp
  with inv show ?thesis
  proof (cases rule: dn_mem_cases)
    case (2 t)
    have i: "dn_map t i = Some (oname, so)" using live 2 by simp
    from dn_rename_ok [OF 2(3) i nn] obtain t' where h: "dn_rename i oname nname t = Some t'" "dn_ok t'"
      "ipr_size (t' ! 0) = ipr_size (t ! 0)" "dn_map t' = (dn_map t)(i \<mapsto> (nname, so))" by blast
    show ?thesis
      using dn_table_change [OF inv live(1) refl 2(1,2) h(2,3)] 2(1,2,4) h i live(1)
      by (intro dn_goodI [of _ _ Nothing "sys\<lparr>dn_port := (dn_port sys)\<lparr>dn_mem := [ip_dnrequests (dn_port sys) \<mapsto> t']\<rparr>\<rparr>"])
        (simp_all add: ipc_port_dnrename_def)
  qed (use live in simp)
qed

lemma unat_refs_inc: "unat (x :: u32) + 1 < 2 ^ 32 \<Longrightarrow> unat (x + 1) = unat x + 1"
  by (simp add: unat_word_ariths)

lemma unat_refs_dec: "0 < unat (x :: u32) \<Longrightarrow> unat (x - 1) = unat x - 1"
  by (metis gr_implies_not0 unat_0 unat_minus_one)

text \<open>Operations that leave the table alone.\<close>

lemma dn_frame:
  assumes inv: "dn_inv sys" and same: "ip_active (dn_port sys') = ip_active (dn_port sys)" "dn_dying sys' = dn_dying sys"
      "ip_dnrequests (dn_port sys') = ip_dnrequests (dn_port sys)" "dn_mem (dn_port sys') = dn_mem (dn_port sys)"
    and gs: "\<And>g. g \<in> set (dn_growers sys') \<Longrightarrow> g \<in> set (dn_growers sys) \<or> grower_ok (dn_port sys) g"
    and refs: "dn_refs_ok sys'"
  shows "dn_inv sys'" and "dn_requests sys' = dn_requests sys" and "dn_level (dn_port sys') = dn_level (dn_port sys)"
proof -
  show "dn_requests sys' = dn_requests sys" and l: "dn_level (dn_port sys') = dn_level (dn_port sys)"
    using same by (simp_all add: dn_requests_def dn_level_def)
  have "grower_ok (dn_port sys') g = grower_ok (dn_port sys) g" for g using l same by (simp add: grower_ok_def)
  moreover have "dn_mem_ok sys'" using inv same by (simp add: dn_inv_def dn_mem_ok_def)
  ultimately show "dn_inv sys'" using inv gs refs unfolding dn_inv_def by blast
qed

lemma ipc_port_release_eq:
  "0 < unat (ip_references st) \<Longrightarrow> ipc_port_release st =
     Some (st\<lparr>ip_references := ip_references st - 1, ip_freed := ip_freed st \<or> unat (ip_references st) = 1\<rparr>)"
  using unat_refs_dec [of "ip_references st"]
  by (cases st) (auto simp: ipc_port_release_def ip_check_unlock_def kassert_def word_less_nat_alt unat_eq_zero [symmetric] simp del: unat_eq_zero)

lemma dn_refsD:
  assumes "dn_inv sys"
  shows "unat (ip_references (dn_port sys)) = dn_others sys + length (dn_growers sys)" "dn_live sys \<Longrightarrow> 0 < dn_others sys"
    "ip_active (dn_port sys) \<Longrightarrow> \<not> dn_dying sys" "ip_freed (dn_port sys) \<longleftrightarrow> dn_others sys = 0 \<and> dn_growers sys = []"
  using assms unfolding dn_inv_def dn_refs_ok_def by auto

lemma reference_good:
  assumes inv: "dn_inv sys" and en: "dn_enabled Reference sys"
  shows "dn_good Reference sys"
proof -
  note r = dn_refsD [OF inv]
  define sys' where "sys' = sys\<lparr>dn_port := (dn_port sys)\<lparr>ip_references := ip_references (dn_port sys) + 1\<rparr>, dn_others := dn_others sys + 1\<rparr>"
  have "unat (ip_references (dn_port sys) + 1) = unat (ip_references (dn_port sys)) + 1"
    using en r(1) by (intro unat_refs_inc) simp
  then have refs: "dn_refs_ok sys'" using r en by (auto simp: dn_refs_ok_def sys'_def)
  have "dn_inv sys'" "dn_requests sys' = dn_requests sys"
    by (rule dn_frame [OF inv _ _ _ _ _ refs]; simp add: sys'_def)+
  then show ?thesis by (intro dn_goodI [of _ _ Nothing sys']) (simp_all add: sys'_def)
qed

lemma release_good:
  assumes inv: "dn_inv sys" and en: "dn_enabled Release sys"
  shows "dn_good Release sys"
proof -
  note r = dn_refsD [OF inv]
  define st' where "st' = (dn_port sys)\<lparr>ip_references := ip_references (dn_port sys) - 1,
    ip_freed := ip_freed (dn_port sys) \<or> unat (ip_references (dn_port sys)) = 1\<rparr>"
  define sys' where "sys' = sys\<lparr>dn_port := st', dn_others := dn_others sys - 1\<rparr>"
  have pos: "0 < dn_others sys" using en by (simp split: if_splits)
  then have rel: "ipc_port_release (dn_port sys) = Some st'"
    using ipc_port_release_eq [of "dn_port sys"] r(1) by (simp add: st'_def)
  have "unat (ip_references (dn_port sys) - 1) = unat (ip_references (dn_port sys)) - 1"
    using pos r(1) by (intro unat_refs_dec) simp
  then have refs: "dn_refs_ok sys'" using r en pos
    by (cases "dn_growers sys") (auto simp: dn_refs_ok_def sys'_def st'_def split: if_splits)
  have "dn_inv sys'" "dn_requests sys' = dn_requests sys"
    by (rule dn_frame [OF inv _ _ _ _ _ refs]; simp add: sys'_def st'_def)+
  then show ?thesis using rel by (intro dn_goodI [of _ _ Nothing sys']) (simp_all add: sys'_def)
qed

lemma die_good:
  assumes inv: "dn_inv sys" and en: "dn_enabled Die sys"
  shows "dn_good Die sys"
proof -
  define sys' where "sys' = sys\<lparr>dn_port := (dn_port sys)\<lparr>ip_active := False\<rparr>, dn_dying := True\<rparr>"
  have "dn_requests sys' = dn_requests sys" using en by (simp add: dn_requests_def sys'_def)
  moreover have "dn_inv sys'" using inv en
    by (simp add: sys'_def dn_inv_def dn_refs_ok_def dn_mem_ok_def grower_ok_def)
  ultimately show ?thesis using en by (intro dn_goodI [of _ _ Nothing sys']) (simp_all add: sys'_def destroy_inactive_def)
qed

lemma grow_start_good:
  assumes inv: "dn_inv sys" and en: "dn_enabled Grow_start sys"
  shows "dn_good Grow_start sys"
proof -
  note r = dn_refsD [OF inv]
  have live: "dn_live sys" "ip_active (dn_port sys)" using en by simp_all
  define g where "g = (ip_dnrequests (dn_port sys), dn_level (dn_port sys))"
  define st' where "st' = (dn_port sys)\<lparr>ip_references := ip_references (dn_port sys) + 1\<rparr>"
  define sys' where "sys' = sys\<lparr>dn_port := st', dn_growers := g # dn_growers sys\<rparr>"
  have g: "dngrow_start (dn_port sys) = Some (g, st')" "grower_ok (dn_port sys) g"
    using inv live(1) live(2) by (cases rule: dn_mem_cases; simp add: dngrow_start_def g_def st'_def grower_ok_def)+
  have "unat (ip_references (dn_port sys) + 1) = unat (ip_references (dn_port sys)) + 1"
    using en r(1) by (intro unat_refs_inc) simp
  then have refs: "dn_refs_ok sys'" using r en by (auto simp: dn_refs_ok_def sys'_def st'_def)
  have gs: "x \<in> set (dn_growers sys') \<Longrightarrow> x \<in> set (dn_growers sys) \<or> grower_ok (dn_port sys) x" for x
    using g(2) by (cases "x = g") (simp_all add: sys'_def)
  have "dn_inv sys'" "dn_requests sys' = dn_requests sys"
    by (rule dn_frame [OF inv _ _ _ _ gs refs]; simp add: sys'_def st'_def)+
  then show ?thesis using g(1) by (intro dn_goodI [of _ _ Nothing sys']) (simp_all add: sys'_def g_def)
qed

text \<open>Death.\<close>

lemma dn_notify_loop_eq:
  assumes "\<And>i. i \<in> set is \<Longrightarrow> 0 < i \<and> i < length t \<and> (ipr_name (t ! i) \<noteq> 0 \<longrightarrow> ipr_notify (t ! i) \<noteq> 0)"
  shows "dn_notify_loop t is =
    Some (map (\<lambda>i. case_prod dn_notice_of (the (dn_map t i))) (filter (\<lambda>i. i \<in> dom (dn_map t)) is))"
  using assms by (induction "is") (auto simp: dn_map_def domIff)

lemma filter_dom_upt:
  "filter (\<lambda>i. i \<in> dom (dn_map t)) [1..<length t] = sorted_list_of_set (dom (dn_map t))"
proof -
  have "dom (dn_map t) = set (filter (\<lambda>i. i \<in> dom (dn_map t)) [1..<length t])" by (auto simp: dn_map_def split: if_splits)
  then show ?thesis
    by (metis distinct_filter distinct_upt sorted_list_of_set.idem_if_sorted_distinct sorted_upt sorted_wrt_filter)
qed

lemma notify_good:
  assumes inv: "dn_inv sys" and en: "dn_enabled Notify sys"
  shows "dn_good Notify sys"
proof -
  note r = dn_refsD [OF inv]
  have live: "dn_live sys" "\<not> ip_active (dn_port sys)" "0 < dn_others sys" using en r(2,3) by auto
  define st' where "st' = (dn_port sys)\<lparr>dn_mem := Map.empty, ip_references := ip_references (dn_port sys) - 1,
    ip_freed := ip_freed (dn_port sys) \<or> unat (ip_references (dn_port sys)) = 1\<rparr>"
  define sys' where "sys' = sys\<lparr>dn_port := st', dn_others := dn_others sys - 1, dn_dying := False\<rparr>"
  define ns where "ns = map (\<lambda>i. case_prod dn_notice_of (the (dn_requests sys i))) (sorted_list_of_set (dom (dn_requests sys)))"
  have pos: "0 < unat (ip_references (dn_port sys))" using live r(1) by simp
  have "destroy_dnrequests (dn_port sys) = Some (ns, st')"
    using inv live(1)
  proof (cases rule: dn_mem_cases)
    case 1
    then show ?thesis using ipc_port_release_eq [OF pos] by (simp add: destroy_dnrequests_def ns_def st'_def)
  next
    case (2 t)
    have "dn_notify_loop t [1..<length t] = Some ns"
      using dn_notify_loop_eq [of "[1..<length t]" t] dn_okD(5) [OF 2(3)] 2(4) unfolding filter_dom_upt ns_def by auto
    then show ?thesis
      using 2 dn_okD(3) [OF 2(3), symmetric] pos ipc_port_release_eq [of "(dn_port sys)\<lparr>dn_mem := Map.empty\<rparr>"]
      by (simp add: destroy_dnrequests_def st'_def it_dnrequests_free_def)
  qed
  moreover have "dn_inv sys'"
    using r live inv unat_refs_dec [OF pos]
    by (cases "dn_growers sys") (auto simp: dn_inv_def dn_refs_ok_def dn_mem_ok_def grower_ok_def sys'_def st'_def)
  moreover have "dn_requests sys' = Map.empty" using live(2) by (simp add: dn_requests_def sys'_def st'_def)
  ultimately show ?thesis by (intro dn_goodI [of _ _ "Notices ns" sys']) (simp_all add: sys'_def ns_def)
qed

subsection \<open>Growing a table while others use it\<close>

lemma remove_nth_props:
  "k < length xs \<Longrightarrow> length (remove_nth k xs) = length xs - 1" "set (remove_nth k xs) \<subseteq> set xs"
  by (auto simp: remove_nth_def dest: in_set_takeD in_set_dropD)

lemma dnrequests_size_zero: "its \<le> 63 \<Longrightarrow> ipc_table_dnrequests ! its = 0 \<longleftrightarrow> its = 63"
  using dnrequests_last dnrequests_bounds [of its] by (cases "its = 63") auto

text \<open>The check of \<open>ipc_port_dngrow\<close> succeeds exactly when the port is active and its table has the size
  it had when the thread looked at it.\<close>

lemma dngrow_check_eq:
  assumes inv: "dn_inv sys" and g: "grower_ok (dn_port sys) (ot, its)"
    and st: "ip_active st = ip_active (dn_port sys)" "ip_dnrequests st = ip_dnrequests (dn_port sys)"
      "dn_mem st = (dn_mem (dn_port sys))(na \<mapsto> nt)" "dn_mem (dn_port sys) na = None"
  shows "dngrow_check ot its st = Some (ip_active (dn_port sys) \<and> its = dn_level (dn_port sys))"
proof (cases "ip_active (dn_port sys)")
  case True
  then have live: "dn_live sys" by simp
  with inv show ?thesis
  proof (cases rule: dn_mem_cases)
    case 1
    then show ?thesis using g st True by (auto simp: dngrow_check_def grower_ok_def)
  next
    case (2 t)
    have "na \<noteq> ip_dnrequests (dn_port sys)" using 2(2) st(4) by auto
    then show ?thesis using 2 g st True by (auto simp: dngrow_check_def grower_ok_def)
  qed
qed (use st in \<open>simp add: dngrow_check_def\<close>)

text \<open>The new table takes the place of the old one.\<close>

lemma dngrow_install_ok:
  assumes inv: "dn_inv sys" and act: "ip_active (dn_port sys)" and ot: "ot = ip_dnrequests (dn_port sys)"
    and its: "its = dn_level (dn_port sys)" "its < 63" and na: "na \<noteq> 0" "dn_mem (dn_port sys) na = None"
    and nt: "length nt = unat (ipc_table_dnrequests ! its)"
    and st: "dn_mem st = (dn_mem (dn_port sys))(na \<mapsto> nt)"
  shows "\<exists>t'. dngrow_install ot its na nt st = Some (st\<lparr>dn_mem := [na \<mapsto> t'], ip_dnrequests := na\<rparr>) \<and>
    dn_ok t' \<and> ipr_size (t' ! 0) = its \<and> dn_map t' = dn_requests sys"
proof -
  have live: "dn_live sys" using act by simp
  from inv live show ?thesis
  proof (cases rule: dn_mem_cases)
    case 1
    with its nt obtain t' where "dn_grow None its nt = Some t'" "dn_ok t'" "ipr_size (t' ! 0) = its" "dn_map t' = Map.empty"
      using dn_grow_first [of nt] by auto
    then show ?thesis using 1 ot st by (auto simp: dngrow_install_def)
  next
    case (2 t)
    obtain t' where t': "dn_grow (Some t) its nt = Some t'" "dn_ok t'" "ipr_size (t' ! 0) = its" "dn_map t' = dn_map t"
      using dn_grow_next [OF 2(3) _ its(2) nt] its(1) 2(5) by auto
    have ne: "na \<noteq> ot" using 2(2) na(2) ot by auto
    have "(dn_mem st)(na \<mapsto> t', ot := None) = [na \<mapsto> t']" using st 2(2) ot ne by (auto simp: fun_eq_iff)
    then have "dngrow_install ot its na nt st = Some (st\<lparr>dn_mem := [na \<mapsto> t'], ip_dnrequests := na\<rparr>)"
      using 2(1,2,6,7) ne st ot t'(1) dn_okD(3) [OF 2(3), symmetric]
      by (simp add: dngrow_install_def it_dnrequests_free_def)
    then show ?thesis using t' 2(4) by metis
  qed
qed

lemma grow_fail_good:
  assumes inv: "dn_inv sys" and k: "k < length (dn_growers sys)" "dn_growers sys ! k = (ot, its)" "its \<le> 63"
    and fail: "alloc = None \<or> its = 63"
  shows "dn_good (Grow_resume k alloc) sys"
proof -
  note r = dn_refsD [OF inv] and rn = remove_nth_props [of _ "dn_growers sys"]
  define st' where "st' = (dn_port sys)\<lparr>ip_references := ip_references (dn_port sys) - 1,
    ip_freed := ip_freed (dn_port sys) \<or> unat (ip_references (dn_port sys)) = 1\<rparr>"
  define sys' where "sys' = sys\<lparr>dn_port := st', dn_growers := remove_nth k (dn_growers sys)\<rparr>"
  have pos: "0 < unat (ip_references (dn_port sys))" using k(1) r(1) by linarith
  have l: "length (remove_nth k (dn_growers sys)) = length (dn_growers sys) - 1" by (rule rn(1) [OF k(1)])
  then have nil: "remove_nth k (dn_growers sys) = [] \<longleftrightarrow> length (dn_growers sys) = 1"
    using k(1) by (cases "remove_nth k (dn_growers sys)") auto
  have "dn_growers sys \<noteq> []" using k(1) by auto
  then have refs: "dn_refs_ok sys'" using r l nil k(1) unat_refs_dec [OF pos]
    by (auto simp: dn_refs_ok_def sys'_def st'_def)
  have gs: "x \<in> set (dn_growers sys') \<Longrightarrow> x \<in> set (dn_growers sys) \<or> grower_ok (dn_port sys) x" for x
    using rn(2) [of k] by (auto simp: sys'_def)
  have "dn_inv sys'" "dn_requests sys' = dn_requests sys"
    by (rule dn_frame [OF inv _ _ _ _ gs refs]; simp add: sys'_def st'_def)+
  moreover have "dngrow_resume (ot, its) alloc (dn_port sys) = Some (KERN_RESOURCE_SHORTAGE, st')"
    using ipc_port_release_eq [OF pos] fail k(3) dnrequests_size_zero [OF k(3)] by (auto simp: dngrow_resume_def st'_def)
  ultimately show ?thesis using k(2) fail
    by (intro dn_goodI [of _ _ "Return KERN_RESOURCE_SHORTAGE" sys']) (simp_all add: sys'_def)
qed

text \<open>Somebody else has grown the table, or the port died: the new memory is given back.\<close>

lemma grow_lost_good:
  assumes inv: "dn_inv sys" and k: "k < length (dn_growers sys)" "dn_growers sys ! k = (ot, its)" "its < 63"
    and g: "grower_ok (dn_port sys) (ot, its)" and na: "dn_mem (dn_port sys) na = None"
    and nt: "length nt = unat (ipc_table_dnrequests ! its)"
    and lost: "\<not> (ip_active (dn_port sys) \<and> its = dn_level (dn_port sys))"
  shows "dn_good (Grow_resume k (Some (na, nt))) sys"
proof -
  note r = dn_refsD [OF inv] and rn = remove_nth_props [of _ "dn_growers sys"]
  define st0 where "st0 = (dn_port sys)\<lparr>dn_mem := (dn_mem (dn_port sys))(na \<mapsto> nt), ip_references := ip_references (dn_port sys) - 1\<rparr>"
  define st' where "st' = (ip_check_unlock st0)\<lparr>dn_mem := dn_mem (dn_port sys)\<rparr>"
  define sys' where "sys' = sys\<lparr>dn_port := st', dn_growers := remove_nth k (dn_growers sys)\<rparr>"
  have pos: "0 < unat (ip_references (dn_port sys))" using k(1) r(1) by linarith
  have l: "length (remove_nth k (dn_growers sys)) = length (dn_growers sys) - 1" by (rule rn(1) [OF k(1)])
  then have nil: "remove_nth k (dn_growers sys) = [] \<longleftrightarrow> length (dn_growers sys) = 1"
    using k(1) by (cases "remove_nth k (dn_growers sys)") auto
  have st': "ip_active st' = ip_active (dn_port sys)" "ip_dnrequests st' = ip_dnrequests (dn_port sys)"
    "dn_mem st' = dn_mem (dn_port sys)" "ip_references st' = ip_references (dn_port sys) - 1"
    "ip_freed st' \<longleftrightarrow> ip_freed (dn_port sys) \<or> ip_references (dn_port sys) - 1 = 0"
    by (auto simp: st'_def st0_def ip_check_unlock_def)
  have "dn_growers sys \<noteq> []" using k(1) by auto
  moreover have "ip_references (dn_port sys) - 1 = 0 \<longleftrightarrow> unat (ip_references (dn_port sys)) = 1"
    using unat_refs_dec [OF pos] pos by (metis One_nat_def Suc_pred diff_self_eq_0 unat_eq_zero)
  ultimately have refs: "dn_refs_ok sys'" using r l nil k(1) unat_refs_dec [OF pos]
    by (auto simp: dn_refs_ok_def sys'_def st')
  have gs: "x \<in> set (dn_growers sys') \<Longrightarrow> x \<in> set (dn_growers sys) \<or> grower_ok (dn_port sys) x" for x
    using rn(2) [of k] by (auto simp: sys'_def)
  have inv': "dn_inv sys'" "dn_requests sys' = dn_requests sys" "dn_level (dn_port sys') = dn_level (dn_port sys)"
    by (rule dn_frame [OF inv _ _ _ _ gs refs]; simp add: sys'_def st')+
  have "dngrow_check ot its st0 = Some False"
    using dngrow_check_eq [OF inv g, of st0 na nt] lost na by (simp add: st0_def)
  moreover have "it_dnrequests_free its na (ip_check_unlock st0) = Some st'"
    using k(3) nt na by (cases "dn_port sys") (auto simp: fun_upd_idem it_dnrequests_free_def st'_def st0_def ip_check_unlock_def)
  ultimately have "dngrow_resume (ot, its) (Some (na, nt)) (dn_port sys) = Some (KERN_SUCCESS, st')"
    using k(3) dnrequests_size_zero [of its] by (simp add: dngrow_resume_def st0_def Let_def)
  moreover have "ip_active (dn_port sys) \<Longrightarrow> its < dn_level (dn_port sys)"
    using lost g by (auto simp: grower_ok_def)
  ultimately show ?thesis using k(2) inv'
    by (intro dn_goodI [of _ _ "Return KERN_SUCCESS" sys']) (simp_all add: sys'_def)
qed

lemma grow_won_good:
  assumes inv: "dn_inv sys" and k: "k < length (dn_growers sys)" "dn_growers sys ! k = (ot, its)" "its < 63"
    and g: "grower_ok (dn_port sys) (ot, its)" and na: "na \<noteq> 0" "dn_mem (dn_port sys) na = None"
    and nt: "length nt = unat (ipc_table_dnrequests ! its)"
    and won: "ip_active (dn_port sys)" "its = dn_level (dn_port sys)"
  shows "dn_good (Grow_resume k (Some (na, nt))) sys"
proof -
  note r = dn_refsD [OF inv] and rn = remove_nth_props [of _ "dn_growers sys"]
  define st0 where "st0 = (dn_port sys)\<lparr>dn_mem := (dn_mem (dn_port sys))(na \<mapsto> nt), ip_references := ip_references (dn_port sys) - 1\<rparr>"
  have ot: "ot = ip_dnrequests (dn_port sys)" using g won by (auto simp: grower_ok_def)
  obtain t' where t': "dngrow_install ot its na nt st0 = Some (st0\<lparr>dn_mem := [na \<mapsto> t'], ip_dnrequests := na\<rparr>)"
    "dn_ok t'" "ipr_size (t' ! 0) = its" "dn_map t' = dn_requests sys"
    using dngrow_install_ok [OF inv won(1) ot won(2) k(3) na nt, of st0] by (auto simp: st0_def)
  define st' where "st' = st0\<lparr>dn_mem := [na \<mapsto> t'], ip_dnrequests := na\<rparr>"
  define sys' where "sys' = sys\<lparr>dn_port := st', dn_growers := remove_nth k (dn_growers sys)\<rparr>"
  have st': "ip_active st'" "ip_dnrequests st' = na" "dn_mem st' = [na \<mapsto> t']" "ip_references st' = ip_references (dn_port sys) - 1"
    "ip_freed st' = ip_freed (dn_port sys)" using won(1) by (simp_all add: st'_def st0_def)
  have level: "dn_level st' = Suc its" using st' na(1) t'(3) by (simp add: dn_level_def)
  have pos: "0 < unat (ip_references (dn_port sys))" using k(1) r(1) by linarith
  have l: "length (remove_nth k (dn_growers sys)) = length (dn_growers sys) - 1" by (rule rn(1) [OF k(1)])
  have refs: "dn_refs_ok sys'" using r won(1) l k(1) unat_refs_dec [OF pos] by (auto simp: dn_refs_ok_def sys'_def st')
  have "grower_ok st' x" if "x \<in> set (dn_growers sys')" for x
  proof -
    have "grower_ok (dn_port sys) x" using that rn(2) [of k] inv by (auto simp: sys'_def dn_inv_def)
    then show ?thesis using won level by (auto simp: grower_ok_def)
  qed
  moreover have "dn_mem_ok sys'" using dn_mem_okI [of sys' t'] st' na(1) t'(2) by (simp add: sys'_def)
  ultimately have inv': "dn_inv sys'" using refs by (simp add: dn_inv_def sys'_def)
  have req: "dn_requests sys' = dn_requests sys" using st' na(1) t'(4) by (simp add: dn_requests_def sys'_def)
  have "dngrow_check ot its st0 = Some True"
    using dngrow_check_eq [OF inv g, of st0 na nt] won na by (simp add: st0_def)
  then have "dngrow_resume (ot, its) (Some (na, nt)) (dn_port sys) = Some (KERN_SUCCESS, st')"
    using k(3) dnrequests_size_zero [of its] t'(1) by (simp add: dngrow_resume_def st0_def st'_def Let_def)
  then show ?thesis using k(2) inv' req level
    by (intro dn_goodI [of _ _ "Return KERN_SUCCESS" sys']) (simp_all add: sys'_def)
qed

lemma grow_resume_good:
  assumes inv: "dn_inv sys" and en: "dn_enabled (Grow_resume k alloc) sys"
  shows "dn_good (Grow_resume k alloc) sys"
proof -
  obtain ot its where g: "dn_growers sys ! k = (ot, its)" by (cases "dn_growers sys ! k")
  have k: "k < length (dn_growers sys)" using en by simp
  then have ok: "grower_ok (dn_port sys) (ot, its)" using inv g nth_mem [OF k] by (auto simp: dn_inv_def)
  then have its: "its \<le> 63" by (simp add: grower_ok_def)
  show ?thesis
  proof (cases "alloc = None \<or> its = 63")
    case True
    then show ?thesis by (rule grow_fail_good [OF inv k g its])
  next
    case False
    then obtain na nt where a: "alloc = Some (na, nt)" "its < 63" using its by auto
    then have "na \<noteq> 0" "dn_mem (dn_port sys) na = None" "length nt = unat (ipc_table_dnrequests ! its)"
      using en g by simp_all
    then show ?thesis unfolding a(1)
      using grow_lost_good [OF inv k g a(2) ok] grow_won_good [OF inv k g a(2) ok] by blast
  qed
qed

lemma dn_op_good: "dn_inv sys \<Longrightarrow> dn_enabled op sys \<Longrightarrow> dn_good op sys"
  using request_good cancel_good rename_good grow_start_good grow_resume_good reference_good release_good die_good notify_good
  by (cases op) blast+

lemma dn_reachable_inv: "dn_reachable sys \<Longrightarrow> dn_inv sys"
proof (induction rule: dn_reachable.induct)
  case dn_start
  show ?case by (rule dn_inv_init)
next
  case (dn_next sys op out sys')
  then show ?case using dn_op_good [of sys op] by (auto simp: dn_good_def)
qed

subsection \<open>The requests are kept\<close>

fun dn_run :: "dn_op list \<Rightarrow> dn_system \<Rightarrow> dn_system option" where
  "dn_run [] sys = Some sys"
| "dn_run (op # ops) sys =
     (if dn_enabled op sys then case dn_exec op sys of None \<Rightarrow> None | Some (out, sys') \<Rightarrow> dn_run ops sys' else None)"

lemma dn_run_reachable: "dn_run ops sys = Some sys' \<Longrightarrow> dn_reachable sys \<Longrightarrow> dn_reachable sys'"
  by (induction ops arbitrary: sys) (auto split: if_splits option.splits intro: dn_next)

text \<open>While a thread waits for memory, the table it looked at is replaced by a larger one and that by a
  third, which gets the address of the first.\<close>

definition dn_reuse :: "dn_op list" where
  "dn_reuse =
     [Grow_start, Grow_resume 0 (Some (0x100, replicate 2 \<lparr>ipr_notify = 7, ipr_name = 7\<rparr>)), Request 5 8,
      Grow_start, Grow_start, Grow_resume 0 (Some (0x200, replicate 4 \<lparr>ipr_notify = 7, ipr_name = 7\<rparr>)),
      Grow_start, Grow_resume 0 (Some (0x100, replicate 8 \<lparr>ipr_notify = 7, ipr_name = 7\<rparr>))]"

lemma dnrequests_first: "ipc_table_dnrequests ! 0 = 2" "ipc_table_dnrequests ! Suc 0 = 4" "ipc_table_dnrequests ! Suc (Suc 0) = 8"
  by (simp_all add: ipc_table_arrays nth_append)

lemma replicate_few: "replicate 2 x = [x, x]" "replicate 4 x = [x, x, x, x]" "replicate 8 x = [x, x, x, x, x, x, x, x]"
  by (simp_all add: eval_nat_numeral)

lemma upt_few: "[Suc 0..<2] = [1]" "[2..<4] = [2, 3]" "[4..<8] = [4, 5, 6, 7]"
  by (simp_all add: upt_rec)

lemmas dn_compute = dn_init_def dngrow_start_def dngrow_resume_def dngrow_check_def dngrow_install_def dn_grow_def dn_copy_def
  dn_add_free_def it_dnrequests_free_def ip_check_unlock_def ipc_port_dnrequest_def dn_take_def ipr_size_def ipr_next_def
  dnrequests_first remove_nth_def replicate_few upt_few

lemma dn_reuse_run:
  "\<exists>sys. dn_run dn_reuse dn_init = Some sys \<and> dn_growers sys = [(0x100, 1)] \<and> ip_dnrequests (dn_port sys) = 0x100 \<and>
     ip_active (dn_port sys) \<and> dn_mem (dn_port sys) 0x200 = None \<and> dn_requests sys 1 = Some (5, 8)"
  unfolding dn_reuse_def
  by (simp add: dn_compute dn_requests_def dn_map_def)

text \<open>C40. In whatever order threads make, cancel and rename dead-name requests for a port, grow its
  table and destroy it, no assertion fails and no access leaves a table.  A request gets an index
  that was free and keeps its name and its right until it is cancelled, also when the table is
  moved by growing, when two threads grow it at the same time, and when the memory of an old table
  is used again for a new one; a cancelled request returns the right it was made with.  A call of
  \<open>ipc_port_dngrow\<close> that succeeds leaves an active port with a larger table than it had when the
  call began.  When the port dies, exactly the requests that are left are answered, each once and
  in the order of their indices.  No table is leaked, and the port is freed with its last
  reference.
\<close>

theorem dead_name_requests_kept:
  assumes "dn_reachable sys" "dn_enabled op sys"
  shows "\<exists>out sys'. dn_exec op sys = Some (out, sys') \<and> dn_spec op out sys sys' \<and> dn_tidy sys'"
  using dn_op_good [OF dn_reachable_inv [OF assms(1)] assms(2)] dn_inv_tidy unfolding dn_good_def by blast

theorem dead_name_requests_kept_witness:
  "\<exists>sys. dn_reachable sys \<and> fst (dn_growers sys ! 0) = ip_dnrequests (dn_port sys) \<and> dn_requests sys 1 = Some (5, 8) \<and>
     (\<exists>out sys'. dn_exec (Grow_resume 0 (Some (0x200, replicate 4 \<lparr>ipr_notify = 7, ipr_name = 7\<rparr>))) sys = Some (out, sys') \<and>
        dn_spec (Grow_resume 0 (Some (0x200, replicate 4 \<lparr>ipr_notify = 7, ipr_name = 7\<rparr>))) out sys sys' \<and> dn_tidy sys')"
proof -
  obtain sys where sys: "dn_run dn_reuse dn_init = Some sys" "dn_growers sys = [(0x100, 1)]" "ip_dnrequests (dn_port sys) = 0x100"
    "dn_mem (dn_port sys) 0x200 = None" "dn_requests sys 1 = Some (5, 8)" using dn_reuse_run by blast
  have reach: "dn_reachable sys" by (rule dn_run_reachable [OF sys(1) dn_start])
  have en: "dn_enabled (Grow_resume 0 (Some (0x200, replicate 4 \<lparr>ipr_notify = 7, ipr_name = 7\<rparr>))) sys"
    using sys(2,4) by (simp add: dnrequests_first)
  show ?thesis using dead_name_requests_kept [OF reach en] reach sys(2,3,5) by (intro exI [of _ sys]) simp
qed

end
