(* ===== verification/Ipc_Splay.thy ===== *)
theory Ipc_Splay
  imports Mach_Prelude
begin

text \<open>
  The splay trees of ipc/ipc_splay.c, which hold the entries of a space whose names are too
  large for the space's table.

  A tree is kept \<^emph>\<open>unassembled\<close>: the middle tree \<open>ist_root\<close>, and the left and right trees
  of the top-down splay, each with a pointer to the child field where the next subtree is
  to be stored (\<open>ist_ltreep\<close>, \<open>ist_rtreep\<close>; the pointed-to fields are not initialised).
  A left tree with such a hole is exactly the list of the nodes on its right spine, each
  with its left subtree: the first is the root \<open>ist_ltree\<close>, the last is the node whose
  \<open>ite_rchild\<close> field \<open>ist_ltreep\<close> points to, and the empty list is the case
  \<open>ist_ltreep == &ist_ltree\<close>.  Right trees are modelled in the same way.

  The theory shows that every operation implements the finite map from names to entries
  (the locale \<open>name_tree\<close>), that the assertions of the C code hold, and that the
  pointer-reversing traversal visits the entries in the order of their names, once each.
\<close>

subsection \<open>Data\<close>

type_synonym 'e ite = "mach_port \<times> 'e"   \<comment> \<open>\<open>ite_name\<close> and the rest of the tree entry\<close>
type_synonym 'e ltree = "('e ite tree \<times> 'e ite) list"
type_synonym 'e rtree = "('e ite \<times> 'e ite tree) list"

record 'e ipc_splay_tree =
  ist_name :: mach_port
  ist_root :: "'e ite tree"
  ist_ltree :: "'e ltree"
  ist_rtree :: "'e rtree"

text \<open>Storing a subtree through \<open>ltreep\<close> (or \<open>rtreep\<close>) and reading the whole left
  (or right) tree.\<close>

definition store_ltreep :: "'e ltree \<Rightarrow> 'e ite tree \<Rightarrow> 'e ite tree" where
  "store_ltreep L t = foldr (\<lambda>(l, a) t. Node l a t) L t"

definition store_rtreep :: "'e rtree \<Rightarrow> 'e ite tree \<Rightarrow> 'e ite tree" where
  "store_rtreep R t = foldr (\<lambda>(a, r) t. Node t a r) R t"

subsection \<open>The primitives\<close>

text \<open>
  One call is one iteration of the \<open>while\<close> loop.  \<open>link_right\<close> appends the current node
  with its right subtree to the right tree and continues with its left child, \<open>link_left\<close>
  is symmetric, \<open>rotate_right\<close> and \<open>rotate_left\<close> turn the current node under its child.
\<close>

fun ipc_splay_prim_lookup ::
  "mach_port \<Rightarrow> 'e ite tree \<Rightarrow> 'e ltree \<Rightarrow> 'e rtree \<Rightarrow> 'e ite tree \<times> 'e ltree \<times> 'e rtree" where
  "ipc_splay_prim_lookup name Leaf L R = (Leaf, L, R)"
| "ipc_splay_prim_lookup name (Node l a r) L R =
    (if name = fst a then (Node l a r, L, R)
     else if name < fst a then
       (case l of
          Leaf \<Rightarrow> (Node l a r, L, R)
        | Node ll b lr \<Rightarrow>
            if name < fst b \<and> ll \<noteq> Leaf
            then ipc_splay_prim_lookup name ll L (R @ [(b, Node lr a r)])
                 \<comment> \<open>rotate right, link right\<close>
            else if fst b < name \<and> lr \<noteq> Leaf
            then ipc_splay_prim_lookup name lr (L @ [(ll, b)]) (R @ [(a, r)])
                 \<comment> \<open>link right, link left\<close>
            else ipc_splay_prim_lookup name l L (R @ [(a, r)]))
     else
       (case r of
          Leaf \<Rightarrow> (Node l a r, L, R)
        | Node rl b rr \<Rightarrow>
            if fst b < name \<and> rr \<noteq> Leaf
            then ipc_splay_prim_lookup name rr (L @ [(Node l a rl, b)]) R
                 \<comment> \<open>rotate left, link left\<close>
            else if name < fst b \<and> rl \<noteq> Leaf
            then ipc_splay_prim_lookup name rl (L @ [(l, a)]) (R @ [(b, rr)])
                 \<comment> \<open>link left, link right\<close>
            else ipc_splay_prim_lookup name r (L @ [(l, a)]) R))"

fun ipc_splay_prim_assemble :: "'e ite tree \<Rightarrow> 'e ltree \<Rightarrow> 'e rtree \<Rightarrow> 'e ite tree" where
  "ipc_splay_prim_assemble Leaf L R = Leaf"   \<comment> \<open>excluded by the assertion\<close>
| "ipc_splay_prim_assemble (Node l a r) L R = Node (store_ltreep L l) a (store_rtreep R r)"

subsection \<open>Operations on a splay tree\<close>

definition ipc_splay_tree_init :: "'e ipc_splay_tree" where
  "ipc_splay_tree_init = \<lparr>ist_name = 0, ist_root = Leaf, ist_ltree = [], ist_rtree = []\<rparr>"

text \<open>The common prologue of the operations: assemble and look up again, unless the last
  lookup was for the same name.\<close>

definition splay_to :: "mach_port \<Rightarrow> 'e ipc_splay_tree \<Rightarrow> 'e ite tree \<times> 'e ltree \<times> 'e rtree" where
  "splay_to name s =
     (if ist_name s \<noteq> name
      then ipc_splay_prim_lookup name
             (ipc_splay_prim_assemble (ist_root s) (ist_ltree s) (ist_rtree s)) [] []
      else (ist_root s, ist_ltree s, ist_rtree s))"

definition ipc_splay_tree_pick :: "'e ipc_splay_tree \<Rightarrow> 'e ite option" where
  "ipc_splay_tree_pick s = (case ist_root s of Leaf \<Rightarrow> None | Node l a r \<Rightarrow> Some a)"

definition ipc_splay_tree_lookup ::
  "'e ipc_splay_tree \<Rightarrow> mach_port \<Rightarrow> 'e option \<times> 'e ipc_splay_tree" where
  "ipc_splay_tree_lookup s name =
     (case ist_root s of
        Leaf \<Rightarrow> (None, s)
      | Node _ _ _ \<Rightarrow>
          (let (root, L, R) = splay_to name s;
               s' = \<lparr>ist_name = name, ist_root = root, ist_ltree = L, ist_rtree = R\<rparr>
           in case root of
                Leaf \<Rightarrow> (None, s')
              | Node l a r \<Rightarrow> (if name \<noteq> fst a then None else Some (snd a), s')))"

definition ipc_splay_tree_insert ::
  "'e ipc_splay_tree \<Rightarrow> mach_port \<Rightarrow> 'e \<Rightarrow> 'e ipc_splay_tree option" where
  "ipc_splay_tree_insert s name entry =
     (case ist_root s of
        Leaf \<Rightarrow> Some \<lparr>ist_name = name, ist_root = Node Leaf (name, entry) Leaf,
                      ist_ltree = [], ist_rtree = []\<rparr>
      | Node _ _ _ \<Rightarrow>
          (let (root, L, R) = splay_to name s
           in case root of
                Leaf \<Rightarrow> None
              | Node l a r \<Rightarrow>
                  do {
                    kassert (fst a \<noteq> name);
                    (lt, rt) \<leftarrow>
                      (if name < fst a
                       then do { kassert (l = Leaf);
                                 Some (store_ltreep L Leaf, store_rtreep R root) }
                       else do { kassert (r = Leaf);
                                 Some (store_ltreep L root, store_rtreep R Leaf) });
                    Some \<lparr>ist_name = name, ist_root = Node lt (name, entry) rt,
                          ist_ltree = [], ist_rtree = []\<rparr>
                  }))"

text \<open>The root of a tree becomes its middle tree; the left and right trees are empty.\<close>

definition splay_of_tree :: "mach_port \<Rightarrow> 'e ite tree \<Rightarrow> 'e ipc_splay_tree" where
  "splay_of_tree old root =
     (case root of
        Leaf \<Rightarrow> \<lparr>ist_name = old, ist_root = Leaf, ist_ltree = [], ist_rtree = []\<rparr>
      | Node l a r \<Rightarrow> \<lparr>ist_name = fst a, ist_root = root, ist_ltree = [], ist_rtree = []\<rparr>)"

text \<open>Splaying the largest node of a tree to its root, by looking up \<open>~0\<close>.\<close>

definition splay_largest :: "'e ite tree \<Rightarrow> 'e ite tree" where
  "splay_largest t =
     (let (root, L, R) = ipc_splay_prim_lookup (NOT 0) t [] []
      in ipc_splay_prim_assemble root L R)"

definition ipc_splay_tree_delete ::
  "'e ipc_splay_tree \<Rightarrow> mach_port \<Rightarrow> 'e ipc_splay_tree option" where
  "ipc_splay_tree_delete s name =
     do {
       kassert (ist_root s \<noteq> Leaf);
       let (root, L, R) = splay_to name s;
       case root of
         Leaf \<Rightarrow> None
       | Node l a r \<Rightarrow>
           do {
             kassert (fst a = name);
             let lt = store_ltreep L l;
             let saved = store_rtreep R r;
             root' \<leftarrow>
               (if lt = Leaf then Some saved
                else if saved \<noteq> Leaf then
                  (case splay_largest lt of
                     Leaf \<Rightarrow> None
                   | Node l' a' r' \<Rightarrow> do { kassert (r' = Leaf); Some (Node l' a' saved) })
                else Some lt);
             Some (splay_of_tree (ist_name s) root')
           }
     }"

text \<open>\<open>ipc_splay_tree_split\<close> returns the updated tree and the new tree \<open>small\<close>.\<close>

definition ipc_splay_tree_split ::
  "'e ipc_splay_tree \<Rightarrow> mach_port \<Rightarrow> ('e ipc_splay_tree \<times> 'e ipc_splay_tree) option" where
  "ipc_splay_tree_split s name =
     (case ist_root s of
        Leaf \<Rightarrow> Some (s, ipc_splay_tree_init)
      | Node _ _ _ \<Rightarrow>
          (let (root, L, R) = splay_to name s
           in case root of
                Leaf \<Rightarrow> None
              | Node l a r \<Rightarrow>
                  if fst a < name
                  then do {
                    kassert (r = Leaf);
                    Some (splay_of_tree name (store_rtreep R Leaf),
                          \<lparr>ist_name = fst a, ist_root = Node (store_ltreep L l) a r,
                           ist_ltree = [], ist_rtree = []\<rparr>) }
                  else
                    Some (\<lparr>ist_name = name, ist_root = Node Leaf a r,
                           ist_ltree = [], ist_rtree = R\<rparr>,
                          splay_of_tree 0 (store_ltreep L l))))"

text \<open>\<open>ipc_splay_tree_join\<close> empties \<open>small\<close> and returns the updated \<open>splay\<close>.\<close>

definition ipc_splay_tree_join ::
  "'e ipc_splay_tree \<Rightarrow> 'e ipc_splay_tree \<Rightarrow> 'e ipc_splay_tree option" where
  "ipc_splay_tree_join s small =
     (case ist_root small of
        Leaf \<Rightarrow> Some s
      | Node _ _ _ \<Rightarrow>
          (let sroot = ipc_splay_prim_assemble (ist_root small) (ist_ltree small) (ist_rtree small)
           in case ist_root s of
                Leaf \<Rightarrow> Some (splay_of_tree 0 sroot)
              | Node _ _ _ \<Rightarrow>
                  (let (root, L, R) = splay_to 0 s
                   in case ipc_splay_prim_assemble root L R of
                        Leaf \<Rightarrow> None
                      | Node l a r \<Rightarrow>
                          do {
                            kassert (l = Leaf);
                            kassert (case sroot of Leaf \<Rightarrow> False | Node sl b sr \<Rightarrow> fst b < fst a);
                            Some (splay_of_tree 0 (Node sroot a r))
                          })))"

text \<open>The bounds are the names of the nodes that \<open>ltreep\<close> and \<open>rtreep\<close> point into.\<close>

definition ipc_splay_tree_bounds ::
  "'e ipc_splay_tree \<Rightarrow> mach_port \<Rightarrow> mach_port \<times> mach_port \<times> 'e ipc_splay_tree" where
  "ipc_splay_tree_bounds s name =
     (case ist_root s of
        Leaf \<Rightarrow> (NOT 0, 0, s)
      | Node _ _ _ \<Rightarrow>
          (let (root, L, R) = splay_to name s;
               s' = \<lparr>ist_name = name, ist_root = root, ist_ltree = L, ist_rtree = R\<rparr>;
               rname = (case root of Leaf \<Rightarrow> 0 | Node l a r \<Rightarrow> fst a);
               lower = (if rname \<le> name then rname
                        else if L = [] then NOT 0 else fst (snd (last L)));
               upper = (if name \<le> rname then rname
                        else if R = [] then 0 else fst (fst (last R)))
           in (lower, upper, s')))"

text \<open>A write through a pointer to a tree entry (\<open>ite->ite_entry.field = ...\<close>) changes that
  entry where it stands and moves nothing.\<close>

definition write_ite :: "mach_port \<Rightarrow> ('e \<Rightarrow> 'e) \<Rightarrow> 'e ite \<Rightarrow> 'e ite" where
  "write_ite name f x = (fst x, if fst x = name then f (snd x) else snd x)"

definition splay_write :: "'e ipc_splay_tree \<Rightarrow> mach_port \<Rightarrow> ('e \<Rightarrow> 'e) \<Rightarrow> 'e ipc_splay_tree" where
  "splay_write s name f =
     s\<lparr>ist_root := map_tree (write_ite name f) (ist_root s),
       ist_ltree := map (map_prod (map_tree (write_ite name f)) (write_ite name f)) (ist_ltree s),
       ist_rtree := map (map_prod (write_ite name f) (map_tree (write_ite name f))) (ist_rtree s)\<rparr>"

subsection \<open>The entries of a tree, in order\<close>

fun inorder_l :: "'e ltree \<Rightarrow> 'e ite list" where
  "inorder_l [] = []"
| "inorder_l ((l, a) # L) = inorder l @ a # inorder_l L"

fun inorder_r :: "'e rtree \<Rightarrow> 'e ite list" where
  "inorder_r [] = []"
| "inorder_r ((a, r) # R) = inorder_r R @ a # inorder r"

definition splay_entries :: "'e ipc_splay_tree \<Rightarrow> 'e ite list" where
  "splay_entries s =
     (if ist_root s = Leaf then []
      else inorder_l (ist_ltree s) @ inorder (ist_root s) @ inorder_r (ist_rtree s))"

text \<open>
  The triple left by a lookup of \<open>name\<close>: the left tree holds smaller names, the right tree
  larger ones, and the search cannot go on below the root of the middle tree.
\<close>

definition splayed :: "mach_port \<Rightarrow> 'e ite tree \<Rightarrow> 'e ltree \<Rightarrow> 'e rtree \<Rightarrow> bool" where
  "splayed name t L R \<longleftrightarrow>
     (\<forall>x\<in>set (inorder_l L). fst x < name) \<and> (\<forall>x\<in>set (inorder_r R). name < fst x) \<and>
     (case t of Leaf \<Rightarrow> True
      | Node l a r \<Rightarrow> name = fst a \<or> name < fst a \<and> l = Leaf \<or> fst a < name \<and> r = Leaf)"

definition splay_invar :: "'e ipc_splay_tree \<Rightarrow> bool" where
  "splay_invar s \<longleftrightarrow>
     sorted_keys (splay_entries s) \<and>
     (ist_root s \<noteq> Leaf \<longrightarrow> splayed (ist_name s) (ist_root s) (ist_ltree s) (ist_rtree s))"

lemma splay_entries_Node [simp]:
  "splay_entries \<lparr>ist_name = n, ist_root = Node l a r, ist_ltree = L, ist_rtree = R\<rparr> =
   inorder_l L @ inorder l @ a # inorder r @ inorder_r R"
  by (simp add: splay_entries_def)

lemma splay_entries_Leaf [simp]: "ist_root s = Leaf \<Longrightarrow> splay_entries s = []"
  by (simp add: splay_entries_def)

lemma splay_invar_Leaf [simp]: "ist_root s = Leaf \<Longrightarrow> splay_invar s"
  by (simp add: splay_invar_def)

lemma splay_invar_Node:
  "splay_invar \<lparr>ist_name = n, ist_root = Node l a r, ist_ltree = L, ist_rtree = R\<rparr> \<longleftrightarrow>
   sorted_keys (inorder_l L @ inorder l @ a # inorder r @ inorder_r R) \<and>
   (\<forall>x\<in>set (inorder_l L). fst x < n) \<and> (\<forall>x\<in>set (inorder_r R). n < fst x) \<and>
   (n = fst a \<or> n < fst a \<and> l = Leaf \<or> fst a < n \<and> r = Leaf)"
  by (simp add: splay_invar_def splayed_def)

lemma inorder_l_append [simp]: "inorder_l (L @ L') = inorder_l L @ inorder_l L'"
  by (induction L rule: inorder_l.induct) auto

lemma inorder_r_append [simp]: "inorder_r (R @ R') = inorder_r R' @ inorder_r R"
  by (induction R rule: inorder_r.induct) auto

lemma inorder_store_ltreep [simp]: "inorder (store_ltreep L t) = inorder_l L @ inorder t"
  by (induction L rule: inorder_l.induct) (auto simp: store_ltreep_def)

lemma inorder_store_rtreep [simp]: "inorder (store_rtreep R t) = inorder t @ inorder_r R"
  by (induction R rule: inorder_r.induct) (auto simp: store_rtreep_def)

lemma inorder_assemble [simp]:
  "t \<noteq> Leaf \<Longrightarrow>
   inorder (ipc_splay_prim_assemble t L R) = inorder_l L @ inorder t @ inorder_r R"
  by (cases t) auto

lemma assemble_eq_Leaf [simp]: "ipc_splay_prim_assemble t L R = Leaf \<longleftrightarrow> t = Leaf"
  by (cases t) auto

lemma inorder_eq_Nil [simp]: "inorder t = [] \<longleftrightarrow> t = Leaf"
  by (cases t) auto

subsection \<open>The top-down splay\<close>

text \<open>
  A property of the triple (middle, left, right) that the four macros \<open>link_right\<close>,
  \<open>link_left\<close>, \<open>rotate_right\<close> and \<open>rotate_left\<close> keep is kept by the whole loop.
\<close>

lemma prim_lookup_invariant:
  assumes res: "ipc_splay_prim_lookup name t L R = (t', L', R')"
    and init: "I t L R"
    and link_right: "\<And>l a r L R. name < fst a \<Longrightarrow> l \<noteq> Leaf \<Longrightarrow> I (Node l a r) L R \<Longrightarrow>
      I l L (R @ [(a, r)])"
    and link_left: "\<And>l a r L R. fst a < name \<Longrightarrow> r \<noteq> Leaf \<Longrightarrow> I (Node l a r) L R \<Longrightarrow>
      I r (L @ [(l, a)]) R"
    and rotate_right: "\<And>ll b lr a r L R. name < fst a \<Longrightarrow> name < fst b \<Longrightarrow>
      I (Node (Node ll b lr) a r) L R \<Longrightarrow> I (Node ll b (Node lr a r)) L R"
    and rotate_left: "\<And>l a rl b rr L R. fst a < name \<Longrightarrow> fst b < name \<Longrightarrow>
      I (Node l a (Node rl b rr)) L R \<Longrightarrow> I (Node (Node l a rl) b rr) L R"
  shows "I t' L' R'"
  using res init
proof (induction t arbitrary: L R rule: measure_induct_rule [where f = size])
  case (less t)
  note IH = less.IH and res = less.prems(1) and I = less.prems(2)
  show ?case
  proof (cases t)
    case Leaf
    with res I show ?thesis by simp
  next
    case (Node l a r)
    consider (stop) "name = fst a" | (left) "name < fst a" | (right) "fst a < name"
      by fastforce
    then show ?thesis
    proof cases
      case stop
      with Node res I show ?thesis by simp
    next
      case left
      show ?thesis
      proof (cases l)
        case Leaf
        with Node res I left show ?thesis by (auto split: if_splits)
      next
        case l: (Node ll b lr)
        have I1: "name < fst b \<Longrightarrow> ll \<noteq> Leaf \<Longrightarrow> I ll L (R @ [(b, Node lr a r)])"
          using I left link_right rotate_right by (simp add: Node l)
        have I2: "I l L (R @ [(a, r)])"
          using I left link_right by (simp add: Node l)
        have I3: "fst b < name \<Longrightarrow> lr \<noteq> Leaf \<Longrightarrow> I lr (L @ [(ll, b)]) (R @ [(a, r)])"
          using I2 link_left by (simp add: l)
        show ?thesis
          using left res I1 I2 I3 IH [of ll] IH [of lr] IH [of l]
          by (auto simp: Node l split: if_splits)
      qed
    next
      case right
      show ?thesis
      proof (cases r)
        case Leaf
        with Node res I right show ?thesis by (auto split: if_splits)
      next
        case r: (Node rl b rr)
        have I1: "fst b < name \<Longrightarrow> rr \<noteq> Leaf \<Longrightarrow> I rr (L @ [(Node l a rl, b)]) R"
          using I right link_left rotate_left by (simp add: Node r)
        have I2: "I r (L @ [(l, a)]) R"
          using I right link_left by (simp add: Node r)
        have I3: "name < fst b \<Longrightarrow> rl \<noteq> Leaf \<Longrightarrow> I rl (L @ [(l, a)]) (R @ [(b, rr)])"
          using I2 link_right by (simp add: r)
        show ?thesis
          using right res I1 I2 I3 IH [of rl] IH [of rr] IH [of r]
          by (auto simp: Node r split: if_splits)
      qed
    qed
  qed
qed

lemma prim_lookup_stops:
  assumes "ipc_splay_prim_lookup name t L R = (t', L', R')"
  shows "case t' of Leaf \<Rightarrow> t = Leaf
    | Node l a r \<Rightarrow> name = fst a \<or> name < fst a \<and> l = Leaf \<or> fst a < name \<and> r = Leaf"
  using assms
proof (induction t arbitrary: L R rule: measure_induct_rule [where f = size])
  case (less t)
  note IH = less.IH and res = less.prems
  show ?case
  proof (cases t)
    case Leaf
    with res show ?thesis by simp
  next
    case (Node l a r)
    have small: "\<And>u L R. \<lbrakk>size u < size t; u \<noteq> Leaf;
        ipc_splay_prim_lookup name u L R = (t', L', R')\<rbrakk> \<Longrightarrow> ?thesis"
      using IH Node by (fastforce split: tree.splits)
    show ?thesis
    proof (cases "name < fst a")
      case True
      show ?thesis
      proof (cases l)
        case Leaf
        with Node res True show ?thesis by (auto split: if_splits)
      next
        case l: (Node ll b lr)
        show ?thesis
          using True res small [of ll] small [of lr] small [of l]
          by (simp add: Node l split: if_splits)
      qed
    next
      case False
      show ?thesis
      proof (cases r)
        case Leaf
        with Node res False show ?thesis by (auto split: if_splits)
      next
        case r: (Node rl b rr)
        show ?thesis
        proof (cases "name = fst a")
          case True
          with Node res show ?thesis by auto
        next
          case neq: False
          show ?thesis
            using False neq res small [of rr] small [of rl] small [of r]
            by (simp add: Node r split: if_splits)
        qed
      qed
    qed
  qed
qed

declare ipc_splay_prim_lookup.simps(2) [simp del]

lemma prim_lookup_inorder:
  assumes "ipc_splay_prim_lookup name t L R = (t', L', R')"
  shows "inorder_l L' @ inorder t' @ inorder_r R' = inorder_l L @ inorder t @ inorder_r R"
  by (rule prim_lookup_invariant [OF assms, where I = "\<lambda>t' L' R'.
      inorder_l L' @ inorder t' @ inorder_r R' = inorder_l L @ inorder t @ inorder_r R"]) simp_all

lemma prim_lookup_Leaf_iff:
  assumes "ipc_splay_prim_lookup name t L R = (t', L', R')"
  shows "t' = Leaf \<longleftrightarrow> t = Leaf"
  using prim_lookup_stops [OF assms] prim_lookup_invariant [OF assms, where I = "\<lambda>t' L' R'. t \<noteq> Leaf"]
  by (cases "t = Leaf") (use assms in \<open>auto split: tree.splits\<close>)

lemma prim_lookup_splayed:
  assumes "ipc_splay_prim_lookup name t [] [] = (t', L', R')" "sorted_keys (inorder t)"
  shows "splayed name t' L' R'"
proof -
  let ?I = "\<lambda>t L R. sorted_keys (inorder t) \<and>
    (\<forall>x\<in>set (inorder_l L). fst x < name) \<and> (\<forall>x\<in>set (inorder_r R). name < fst x)"
  have "?I t' L' R'"
    by (rule prim_lookup_invariant [OF assms(1), where I = ?I])
       (use assms(2) in \<open>auto intro: order.strict_trans\<close>)
  with prim_lookup_stops [OF assms(1)] show ?thesis
    by (auto simp: splayed_def split: tree.splits)
qed

lemma splay_to_correct:
  assumes "splay_invar s" "ist_root s \<noteq> Leaf" "splay_to name s = (t, L, R)"
  shows "t \<noteq> Leaf" "inorder_l L @ inorder t @ inorder_r R = splay_entries s" "splayed name t L R"
proof -
  let ?u = "ipc_splay_prim_assemble (ist_root s) (ist_ltree s) (ist_rtree s)"
  have u: "?u \<noteq> Leaf" "inorder ?u = splay_entries s" "sorted_keys (inorder ?u)"
    using assms(1,2) by (simp_all add: splay_entries_def splay_invar_def)
  consider (again) "ist_name s \<noteq> name" "ipc_splay_prim_lookup name ?u [] [] = (t, L, R)"
    | (same) "ist_name s = name" "t = ist_root s" "L = ist_ltree s" "R = ist_rtree s"
    using assms(3) by (auto simp: splay_to_def split: if_splits)
  then have "t \<noteq> Leaf \<and> inorder_l L @ inorder t @ inorder_r R = splay_entries s \<and> splayed name t L R"
  proof cases
    case again
    then show ?thesis
      using u prim_lookup_Leaf_iff [OF again(2)] prim_lookup_inorder [OF again(2)]
        prim_lookup_splayed [OF again(2)] by simp
  next
    case same
    with assms(1,2) show ?thesis by (simp add: splay_entries_def splay_invar_def)
  qed
  then show "t \<noteq> Leaf" "inorder_l L @ inorder t @ inorder_r R = splay_entries s" "splayed name t L R"
    by blast+
qed

definition below :: "mach_port \<Rightarrow> 'e ite list \<Rightarrow> 'e ite list" where
  "below name xs = filter (\<lambda>x. fst x < name) xs"

definition at_or_above :: "mach_port \<Rightarrow> 'e ite list \<Rightarrow> 'e ite list" where
  "at_or_above name xs = filter (\<lambda>x. name \<le> fst x) xs"

lemma below_append [simp]: "below n (xs @ ys) = below n xs @ below n ys"
  and at_or_above_append [simp]: "at_or_above n (xs @ ys) = at_or_above n xs @ at_or_above n ys"
  and below_Nil [simp]: "below n [] = []"
  and at_or_above_Nil [simp]: "at_or_above n [] = []"
  and below_Cons [simp]: "below n (x # xs) = (if fst x < n then x # below n xs else below n xs)"
  and at_or_above_Cons [simp]:
    "at_or_above n (x # xs) = (if n \<le> fst x then x # at_or_above n xs else at_or_above n xs)"
  by (simp_all add: below_def at_or_above_def)

lemma below_all: "(\<And>x. x \<in> set xs \<Longrightarrow> fst x < n) \<Longrightarrow> below n xs = xs"
  and below_none: "(\<And>x. x \<in> set xs \<Longrightarrow> n \<le> fst x) \<Longrightarrow> below n xs = []"
  and at_or_above_all: "(\<And>x. x \<in> set xs \<Longrightarrow> n \<le> fst x) \<Longrightarrow> at_or_above n xs = xs"
  and at_or_above_none: "(\<And>x. x \<in> set xs \<Longrightarrow> fst x < n) \<Longrightarrow> at_or_above n xs = []"
  by (force simp: below_def at_or_above_def filter_empty_conv intro: filter_True)+

lemmas below_at_or_above = below_all below_none at_or_above_all at_or_above_none

text \<open>The middle tree of a lookup, taken apart: what is below, at and above the name.\<close>

definition middle ::
  "mach_port \<Rightarrow> 'e ite list \<Rightarrow> 'e ltree \<Rightarrow> 'e ite tree \<Rightarrow> 'e ite \<Rightarrow> 'e ite tree \<Rightarrow> 'e rtree \<Rightarrow> bool" where
  "middle name xs L l a r R \<longleftrightarrow>
     xs = inorder_l L @ inorder l @ a # inorder r @ inorder_r R \<and> sorted_keys xs \<and>
     (\<forall>x\<in>set (inorder_l L) \<union> set (inorder l). fst x < name) \<and>
     (\<forall>x\<in>set (inorder_r R) \<union> set (inorder r). name < fst x) \<and>
     (name = fst a \<or> name < fst a \<and> l = Leaf \<or> fst a < name \<and> r = Leaf)"

lemma middleD:
  assumes "middle name xs L l a r R"
  shows "xs = inorder_l L @ inorder l @ a # inorder r @ inorder_r R"
    and "sorted_keys (inorder_l L @ inorder l @ a # inorder r @ inorder_r R)"
    and L: "\<forall>x\<in>set (inorder_l L) \<union> set (inorder l). fst x < name"
    and R: "\<forall>x\<in>set (inorder_r R) \<union> set (inorder r). name < fst x"
    and "name = fst a \<or> name < fst a \<and> l = Leaf \<or> fst a < name \<and> r = Leaf"
    and "below name xs = inorder_l L @ inorder l @ (if fst a < name then [a] else [])"
    and "at_or_above name xs = (if name \<le> fst a then [a] else []) @ inorder r @ inorder_r R"
proof -
  show e: "xs = inorder_l L @ inorder l @ a # inorder r @ inorder_r R"
    and "sorted_keys (inorder_l L @ inorder l @ a # inorder r @ inorder_r R)"
    and L: "\<forall>x\<in>set (inorder_l L) \<union> set (inorder l). fst x < name"
    and R: "\<forall>x\<in>set (inorder_r R) \<union> set (inorder r). name < fst x"
    and "name = fst a \<or> name < fst a \<and> l = Leaf \<or> fst a < name \<and> r = Leaf"
    using assms unfolding middle_def by blast+
  have "below name (inorder_l L) = inorder_l L" "below name (inorder l) = inorder l"
    "below name (inorder r) = []" "below name (inorder_r R) = []"
    "at_or_above name (inorder_l L) = []" "at_or_above name (inorder l) = []"
    "at_or_above name (inorder r) = inorder r" "at_or_above name (inorder_r R) = inorder_r R"
    using L R by (intro below_at_or_above; force)+
  then show "below name xs = inorder_l L @ inorder l @ (if fst a < name then [a] else [])"
    and "at_or_above name xs = (if name \<le> fst a then [a] else []) @ inorder r @ inorder_r R"
    unfolding e by simp_all
qed

lemma splay_to_Node:
  assumes inv: "splay_invar s" and root: "ist_root s \<noteq> Leaf" and to: "splay_to name s = (t, L, R)"
  obtains l a r where "t = Node l a r" "middle name (splay_entries s) L l a r R"
proof -
  note c = splay_to_correct [OF inv root to]
  from c(1) obtain l a r where t: "t = Node l a r" by (cases t) auto
  have e: "splay_entries s = inorder_l L @ inorder l @ a # inorder r @ inorder_r R"
    using c(2) by (simp add: t)
  have sorted: "sorted_keys (inorder_l L @ inorder l @ a # inorder r @ inorder_r R)"
    using inv e by (simp add: splay_invar_def)
  have "name = fst a \<or> name < fst a \<and> l = Leaf \<or> fst a < name \<and> r = Leaf"
    using c(3) by (simp add: splayed_def t)
  moreover from this have "\<forall>x\<in>set (inorder_l L) \<union> set (inorder l). fst x < name"
    and "\<forall>x\<in>set (inorder_r R) \<union> set (inorder r). name < fst x"
    using c(3) sorted by (auto simp: splayed_def intro: order.strict_trans)
  ultimately have "middle name (splay_entries s) L l a r R"
    unfolding middle_def e using sorted by blast
  then show thesis by (rule that [OF t])
qed

lemma below_append_at_or_above:
  assumes "sorted_keys xs"
  shows "xs = below name xs @ at_or_above name xs"
  using assms
proof (induction xs)
  case (Cons x xs)
  show ?case
  proof (cases "fst x < name")
    case False
    then have "below name xs = []" "at_or_above name xs = xs"
      using Cons.prems by (intro below_at_or_above; force)+
    with False show ?thesis by simp
  qed (use Cons in auto)
qed simp

lemma map_of_filter_neq: "map_of (filter (\<lambda>x. fst x \<noteq> k) xs) = (map_of xs)(k := None)"
  by (induction xs) (auto simp: fun_eq_iff)

lemma length_filter_neq:
  "distinct (map fst xs) \<Longrightarrow> k \<in> fst ` set xs \<Longrightarrow>
     Suc (length (filter (\<lambda>x. fst x \<noteq> k) xs)) = length xs"
proof (induction xs)
  case (Cons x xs)
  show ?case
  proof (cases "fst x = k")
    case True
    then have "filter (\<lambda>x. fst x \<noteq> k) xs = xs"
      using Cons.prems by (auto intro!: filter_True simp: image_iff)
    with True show ?thesis by simp
  qed (use Cons in auto)
qed simp

lemma fst_write_ite [simp]: "fst (write_ite name f x) = fst x"
  by (simp add: write_ite_def)

lemma map_of_write_ite:
  "map_of (map (write_ite name f) xs) = (map_of xs)(name := map_option f (map_of xs name))"
  by (induction xs) (auto simp: fun_eq_iff write_ite_def)

subsection \<open>The contract of a tree of names\<close>

text \<open>
  What the users of the tree (ipc/ipc_entry.c and ipc/ipc_space.c) rely on: every operation
  is an operation on the list of entries, sorted by name.
\<close>

locale name_tree =
  fixes invar :: "'t \<Rightarrow> bool"
    and entries :: "'t \<Rightarrow> 'e ite list"
    and init :: 't
    and pick :: "'t \<Rightarrow> 'e ite option"
    and lookup :: "'t \<Rightarrow> mach_port \<Rightarrow> 'e option \<times> 't"
    and insert :: "'t \<Rightarrow> mach_port \<Rightarrow> 'e \<Rightarrow> 't option"
    and delete :: "'t \<Rightarrow> mach_port \<Rightarrow> 't option"
    and split :: "'t \<Rightarrow> mach_port \<Rightarrow> ('t \<times> 't) option"
    and join :: "'t \<Rightarrow> 't \<Rightarrow> 't option"
    and bounds :: "'t \<Rightarrow> mach_port \<Rightarrow> mach_port \<times> mach_port \<times> 't"
    and store :: "'t \<Rightarrow> mach_port \<Rightarrow> ('e \<Rightarrow> 'e) \<Rightarrow> 't"
  assumes sorted: "invar s \<Longrightarrow> sorted_keys (entries s)"
    and init: "invar init" "entries init = []"
    and pick_None: "pick s = None \<longleftrightarrow> entries s = []"
    and pick_Some: "pick s = Some x \<Longrightarrow> x \<in> set (entries s)"
    and lookup: "invar s \<Longrightarrow> lookup s name = (res, s') \<Longrightarrow>
      res = map_of (entries s) name \<and> invar s' \<and> entries s' = entries s"
    and insert: "invar s \<Longrightarrow> name \<notin> fst ` set (entries s) \<Longrightarrow>
      \<exists>s'. insert s name e = Some s' \<and> invar s' \<and>
           entries s' = below name (entries s) @ (name, e) # at_or_above name (entries s)"
    and delete: "invar s \<Longrightarrow> name \<in> fst ` set (entries s) \<Longrightarrow>
      \<exists>s'. delete s name = Some s' \<and> invar s' \<and>
           entries s' = filter (\<lambda>x. fst x \<noteq> name) (entries s)"
    and split: "invar s \<Longrightarrow>
      \<exists>s' small. split s name = Some (s', small) \<and> invar s' \<and> invar small \<and>
        entries s' = at_or_above name (entries s) \<and> entries small = below name (entries s)"
    and join: "invar s \<Longrightarrow> invar small \<Longrightarrow>
      (\<forall>x\<in>set (entries small). \<forall>y\<in>set (entries s). fst x < fst y) \<Longrightarrow>
      \<exists>s'. join s small = Some s' \<and> invar s' \<and> entries s' = entries small @ entries s"
    and bounds: "invar s \<Longrightarrow> bounds s name = (lo, up, s') \<Longrightarrow>
      invar s' \<and> entries s' = entries s \<and>
      lo = (let xs = filter (\<lambda>x. fst x \<le> name) (entries s) in if xs = [] then NOT 0 else fst (last xs)) \<and>
      up = (let xs = at_or_above name (entries s) in if xs = [] then 0 else fst (hd xs))"
    and store: "invar s \<Longrightarrow>
      invar (store s name f) \<and> entries (store s name f) = map (write_ite name f) (entries s)"
begin

abbreviation tmap :: "'t \<Rightarrow> mach_port \<rightharpoonup> 'e" where
  "tmap s \<equiv> map_of (entries s)"

lemma lookup_tmap:
  "invar s \<Longrightarrow> \<exists>s'. lookup s name = (tmap s name, s') \<and> invar s' \<and> entries s' = entries s"
  using lookup [of s name] by (cases "lookup s name") blast

lemma insert_tmap:
  assumes "invar s" "tmap s name = None"
  shows "\<exists>s'. insert s name e = Some s' \<and> invar s' \<and> tmap s' = (tmap s)(name \<mapsto> e) \<and>
    length (entries s') = Suc (length (entries s))"
proof -
  have fresh: "name \<notin> fst ` set (entries s)" using assms(2) by (simp add: map_of_eq_None_iff)
  obtain s' where s': "insert s name e = Some s'" "invar s'"
    "entries s' = below name (entries s) @ (name, e) # at_or_above name (entries s)"
    using insert [OF assms(1) fresh] by blast
  note split = below_append_at_or_above [OF sorted [OF assms(1)], of name]
  have "name \<notin> dom (map_of (below name (entries s)))"
    by (auto simp: below_def dest!: map_of_SomeD)
  moreover have "tmap s = map_of (at_or_above name (entries s)) ++ map_of (below name (entries s))"
    by (metis split map_of_append)
  ultimately have "tmap s' = (tmap s)(name \<mapsto> e)"
    by (simp add: s'(3) map_add_upd_left)
  moreover have "length (entries s') = Suc (length (entries s))"
    using arg_cong [OF split, of length] by (simp add: s'(3))
  ultimately show ?thesis using s'(1,2) by blast
qed

lemma delete_tmap:
  assumes "invar s" "tmap s name \<noteq> None"
  shows "\<exists>s'. delete s name = Some s' \<and> invar s' \<and> tmap s' = (tmap s)(name := None) \<and>
    Suc (length (entries s')) = length (entries s)"
proof -
  have "name \<in> fst ` set (entries s)" using assms(2) by (simp add: map_of_eq_None_iff)
  then obtain s' where s': "delete s name = Some s'" "invar s'"
    "entries s' = filter (\<lambda>x. fst x \<noteq> name) (entries s)"
    using delete [OF assms(1)] by blast
  have "tmap s' = (tmap s)(name := None)"
    unfolding s'(3) by (rule map_of_filter_neq)
  moreover have "Suc (length (entries s')) = length (entries s)"
    unfolding s'(3) using assms(2) by (intro length_filter_neq sorted_keys_distinct sorted assms(1))
      (simp add: map_of_eq_None_iff)
  ultimately show ?thesis using s'(1,2) by blast
qed

text \<open>The nearest names tell whether any name of the tree falls in the same class, for a
  classification that is monotone in the names.\<close>

lemma bounds_class:
  assumes inv: "invar s" and b: "bounds s name = (lo, up, s')"
    and mono: "\<And>m n. m \<le> n \<Longrightarrow> (cls m :: nat) \<le> cls n"
    and name: "name \<noteq> 0" "name \<noteq> NOT 0"
  shows "lo \<noteq> NOT 0 \<and> cls lo = cls name \<or> up \<noteq> 0 \<and> cls up = cls name \<longleftrightarrow>
    (\<exists>x\<in>set (entries s). cls (fst x) = cls name)"
proof -
  let ?xs = "filter (\<lambda>x. fst x \<le> name) (entries s)" and ?ys = "at_or_above name (entries s)"
  note res = bounds [OF inv b]
  have lo: "lo = (if ?xs = [] then NOT 0 else fst (last ?xs))"
    and up: "up = (if ?ys = [] then 0 else fst (hd ?ys))"
    using res by (simp_all add: Let_def)
  have last: "last ?xs \<in> set ?xs" "\<And>x. x \<in> set ?xs \<Longrightarrow> fst x \<le> fst (last ?xs)" if "?xs \<noteq> []"
    using last_in_set [OF that]
      sorted_keys_last [OF sorted_keys_filter [OF sorted [OF inv]] that] by blast+
  have hd: "hd ?ys \<in> set ?ys" "\<And>x. x \<in> set ?ys \<Longrightarrow> fst (hd ?ys) \<le> fst x" if "?ys \<noteq> []"
    using hd_in_set [OF that] sorted_keys_hd [OF sorted_keys_filter [OF sorted [OF inv]]]
    unfolding at_or_above_def by blast+
  show ?thesis
  proof (intro iffI; (elim disjE conjE bexE)?)
    assume "lo \<noteq> NOT 0" "cls lo = cls name"
    then show "\<exists>x\<in>set (entries s). cls (fst x) = cls name"
      using last(1) lo by (auto split: if_splits)
  next
    assume "up \<noteq> 0" "cls up = cls name"
    then show "\<exists>x\<in>set (entries s). cls (fst x) = cls name"
      using hd(1) up by (auto simp: at_or_above_def split: if_splits)
  next
    fix x assume x: "x \<in> set (entries s)" "cls (fst x) = cls name"
    show "lo \<noteq> NOT 0 \<and> cls lo = cls name \<or> up \<noteq> 0 \<and> cls up = cls name"
    proof (cases "fst x \<le> name")
      case True
      then have xs: "x \<in> set ?xs" using x(1) by simp
      then have "?xs \<noteq> []" by force
      with xs have le: "fst x \<le> lo" "lo \<le> name"
        using last lo by simp_all
      then have "cls lo = cls name" using mono [OF le(1)] mono [OF le(2)] x(2) by simp
      moreover have "lo \<noteq> NOT 0" using le(2) name(2) word_order.extremum_unique [of name] by auto
      ultimately show ?thesis by blast
    next
      case False
      then have ys: "x \<in> set ?ys" using x(1) by (simp add: at_or_above_def)
      then have "?ys \<noteq> []" by force
      with ys have le: "up \<le> fst x" "name \<le> up"
        using hd up by (simp_all add: at_or_above_def)
      then have "cls up = cls name" using mono [OF le(1)] mono [OF le(2)] x(2) by simp
      moreover have "up \<noteq> 0" using le(2) name(1) by auto
      ultimately show ?thesis by blast
    qed
  qed
qed

lemma store_tmap:
  "invar s \<Longrightarrow> tmap (store s name f) = (tmap s)(name := map_option f (tmap s name))"
  using store [of s name f] by (simp add: map_of_write_ite)

end

subsection \<open>The splay tree meets the contract\<close>

lemma splay_of_tree [simp]:
  "splay_entries (splay_of_tree n t) = inorder t"
  "splay_invar (splay_of_tree n t) \<longleftrightarrow> sorted_keys (inorder t)"
  by (auto simp: splay_of_tree_def splay_invar_Node split: tree.splits)

lemma splay_lookup_correct:
  assumes "splay_invar s" "ipc_splay_tree_lookup s name = (e', s')"
  shows "e' = map_of (splay_entries s) name \<and> splay_invar s' \<and> splay_entries s' = splay_entries s"
proof (cases "ist_root s = Leaf")
  case True
  with assms show ?thesis
    by (auto simp: ipc_splay_tree_lookup_def)
next
  case False
  obtain t L R where to: "splay_to name s = (t, L, R)" by (cases "splay_to name s")
  obtain l a r where t: "t = Node l a r" and m: "middle name (splay_entries s) L l a r R"
    by (rule splay_to_Node [OF assms(1) False to])
  note e = middleD(1) [OF m] and sorted = middleD(2) [OF m] and L = middleD(3) [OF m]
    and R = middleD(4) [OF m] and stop = middleD(5) [OF m] and b = middleD(6) [OF m]
    and f = middleD(7) [OF m]
  have s': "s' = \<lparr>ist_name = name, ist_root = t, ist_ltree = L, ist_rtree = R\<rparr>"
    and res: "e' = (if name \<noteq> fst a then None else Some (snd a))"
    using assms(2) False to t by (auto simp: ipc_splay_tree_lookup_def split: tree.splits)
  have keys: "sorted_keys (splay_entries s)" using sorted by (simp only: e)
  have "map_of (splay_entries s) name = (if name \<noteq> fst a then None else Some (snd a))"
  proof (cases "name = fst a")
    case True
    then have "(name, snd a) \<in> set (splay_entries s)" by (simp add: e)
    with True keys show ?thesis by (simp only: map_of_sorted_keys_iff if_False simp_thms)
  next
    case False
    with L R have "\<forall>x\<in>set (splay_entries s). fst x \<noteq> name"
      by (auto simp: e)
    with False show ?thesis by (force simp: map_of_eq_None_iff)
  qed
  moreover have "splay_invar s' \<and> splay_entries s' = splay_entries s"
    using L R stop sorted by (auto simp: s' t splay_invar_Node e)
  ultimately show ?thesis using res by simp
qed

lemma splay_insert_correct:
  assumes "splay_invar s" "name \<notin> fst ` set (splay_entries s)"
  shows "\<exists>s'. ipc_splay_tree_insert s name e' = Some s' \<and> splay_invar s' \<and>
    splay_entries s' = below name (splay_entries s) @ (name, e') # at_or_above name (splay_entries s)"
proof (cases "ist_root s = Leaf")
  case True
  then show ?thesis
    by (simp add: ipc_splay_tree_insert_def splay_invar_Node)
next
  case False
  obtain t L R where to: "splay_to name s = (t, L, R)" by (cases "splay_to name s")
  obtain l a r where t: "t = Node l a r" and m: "middle name (splay_entries s) L l a r R"
    by (rule splay_to_Node [OF assms(1) False to])
  note e = middleD(1) [OF m] and sorted = middleD(2) [OF m] and L = middleD(3) [OF m]
    and R = middleD(4) [OF m] and stop = middleD(5) [OF m] and b = middleD(6) [OF m]
    and f = middleD(7) [OF m]
  have neq: "fst a \<noteq> name" using assms(2) by (auto simp: e)
  show ?thesis
    using False to t neq stop sorted L R unfolding b f
    by (auto simp: ipc_splay_tree_insert_def splay_invar_Node split: tree.splits)
qed

lemma inorder_l_eq_Nil [simp]: "inorder_l L = [] \<longleftrightarrow> L = []"
  by (cases L rule: inorder_l.cases) auto

lemma inorder_r_eq_Nil [simp]: "inorder_r R = [] \<longleftrightarrow> R = []"
  by (cases R rule: inorder_r.cases) auto

lemma splay_largest_correct:
  assumes "t \<noteq> Leaf" "sorted_keys (inorder t)"
  obtains l a where "splay_largest t = Node l a Leaf" "inorder l @ [a] = inorder t"
proof -
  obtain u L R where res: "ipc_splay_prim_lookup (NOT 0) t [] [] = (u, L, R)"
    by (cases "ipc_splay_prim_lookup (NOT 0) t [] []")
  obtain l a r where u: "u = Node l a r"
    using prim_lookup_Leaf_iff [OF res] assms(1) by (cases u) auto
  have e: "inorder_l L @ inorder u @ inorder_r R = inorder t"
    using prim_lookup_inorder [OF res] by simp
  have none: "x \<notin> set (inorder_r R)" and "fst a = - 1 \<or> r = Leaf" for x
    using prim_lookup_splayed [OF res assms(2)] by (cases x; auto simp: splayed_def u)+
  from none have R: "R = []" by (metis all_not_in_conv inorder_r_eq_Nil set_empty)
  from \<open>fst a = - 1 \<or> r = Leaf\<close>
  have "r = Leaf"
  proof
    assume "fst a = - 1"
    moreover have "\<forall>x\<in>set (inorder r). fst a < fst x"
      using assms(2) unfolding e [symmetric] u by simp
    ultimately have "x \<notin> set (inorder r)" for x by (cases x) auto
    then show "r = Leaf" by (metis all_not_in_conv inorder_eq_Nil set_empty)
  qed
  with R res have "splay_largest t = Node (store_ltreep L l) a Leaf"
    by (simp add: splay_largest_def u store_rtreep_def)
  moreover have "inorder (store_ltreep L l) @ [a] = inorder t"
    using e R \<open>r = Leaf\<close> by (simp add: u)
  ultimately show thesis by (rule that)
qed

lemma splay_delete_correct:
  assumes "splay_invar s" "name \<in> fst ` set (splay_entries s)"
  shows "\<exists>s'. ipc_splay_tree_delete s name = Some s' \<and> splay_invar s' \<and>
    splay_entries s' = filter (\<lambda>x. fst x \<noteq> name) (splay_entries s)"
proof -
  have False: "ist_root s \<noteq> Leaf" using assms(2) by auto
  obtain t L R where to: "splay_to name s = (t, L, R)" by (cases "splay_to name s")
  obtain l a r where t: "t = Node l a r" and m: "middle name (splay_entries s) L l a r R"
    by (rule splay_to_Node [OF assms(1) False to])
  note e = middleD(1) [OF m] and sorted = middleD(2) [OF m] and L = middleD(3) [OF m]
    and R = middleD(4) [OF m] and stop = middleD(5) [OF m] and b = middleD(6) [OF m]
    and f = middleD(7) [OF m]
  let ?lt = "store_ltreep L l" and ?rt = "store_rtreep R r"
  have a: "fst a = name" using assms(2) L R by (auto simp: e)
  have rest: "filter (\<lambda>x. fst x \<noteq> name) (splay_entries s) = inorder ?lt @ inorder ?rt"
  proof -
    have "filter (\<lambda>x. fst x \<noteq> name) xs = xs"
      if "xs \<in> {inorder_l L, inorder l, inorder r, inorder_r R}" for xs
      unfolding filter_id_conv using that L R by (elim insertE) (fastforce simp: a [symmetric])+
    then show ?thesis by (simp add: e a)
  qed
  have lt: "sorted_keys (inorder ?lt @ inorder ?rt)" using sorted by auto
  consider "?lt = Leaf" | "?lt \<noteq> Leaf" "?rt = Leaf" | "?lt \<noteq> Leaf" "?rt \<noteq> Leaf" by blast
  then show ?thesis
  proof cases
    case 3
    obtain l' a' where big: "splay_largest ?lt = Node l' a' Leaf" "inorder l' @ [a'] = inorder ?lt"
      using splay_largest_correct [OF 3(1)] lt by auto
    have "inorder (Node l' a' ?rt) = inorder ?lt @ inorder ?rt"
      using big(2) by simp
    moreover have "ipc_splay_tree_delete s name = Some (splay_of_tree (ist_name s) (Node l' a' ?rt))"
      using 3 big(1) by (simp add: ipc_splay_tree_delete_def False to t a Let_def)
    ultimately show ?thesis
      using lt unfolding rest by (simp del: inorder.simps inorder_store_ltreep inorder_store_rtreep sorted_keys_simps)
  qed (use lt in \<open>simp_all add: ipc_splay_tree_delete_def False to t a Let_def rest
         del: inorder_store_ltreep inorder_store_rtreep\<close>)
qed

lemma splay_split_correct:
  assumes "splay_invar s"
  shows "\<exists>s' small. ipc_splay_tree_split s name = Some (s', small) \<and> splay_invar s' \<and>
    splay_invar small \<and> splay_entries s' = at_or_above name (splay_entries s) \<and>
    splay_entries small = below name (splay_entries s)"
proof (cases "ist_root s = Leaf")
  case True
  then show ?thesis by (simp add: ipc_splay_tree_split_def ipc_splay_tree_init_def)
next
  case False
  obtain t L R where to: "splay_to name s = (t, L, R)" by (cases "splay_to name s")
  obtain l a r where t: "t = Node l a r" and m: "middle name (splay_entries s) L l a r R"
    by (rule splay_to_Node [OF assms(1) False to])
  note e = middleD(1) [OF m] and sorted = middleD(2) [OF m] and L = middleD(3) [OF m]
    and R = middleD(4) [OF m] and stop = middleD(5) [OF m] and b = middleD(6) [OF m]
    and f = middleD(7) [OF m]
  show ?thesis
    using False to t stop sorted L R unfolding b f
    by (auto simp: ipc_splay_tree_split_def splay_invar_Node not_less split: tree.splits)
qed

lemma splay_join_correct:
  assumes "splay_invar s" "splay_invar small"
    and less: "\<forall>x\<in>set (splay_entries small). \<forall>y\<in>set (splay_entries s). fst x < fst y"
  shows "\<exists>s'. ipc_splay_tree_join s small = Some s' \<and> splay_invar s' \<and>
    splay_entries s' = splay_entries small @ splay_entries s"
proof (cases "ist_root small = Leaf")
  case True
  with assms show ?thesis by (simp add: ipc_splay_tree_join_def)
next
  case small: False
  let ?u = "ipc_splay_prim_assemble (ist_root small) (ist_ltree small) (ist_rtree small)"
  have u: "inorder ?u = splay_entries small" "sorted_keys (inorder ?u)"
    using assms(2) small by (auto simp: splay_entries_def splay_invar_def)
  show ?thesis
  proof (cases "ist_root s = Leaf")
    case True
    then have "ipc_splay_tree_join s small = Some (splay_of_tree 0 ?u)"
      using small by (simp add: ipc_splay_tree_join_def split: tree.splits)
    with True u show ?thesis by simp
  next
    case False
    obtain t L R where to: "splay_to 0 s = (t, L, R)" by (cases "splay_to 0 s")
    obtain l a r where t: "t = Node l a r" and m: "middle 0 (splay_entries s) L l a r R"
      by (rule splay_to_Node [OF assms(1) False to])
    note e = middleD(1) [OF m] and L = middleD(3) [OF m]
    from L have "x \<notin> set (inorder_l L)" "x \<notin> set (inorder l)" for x by (cases x, auto)+
    then have Nil: "L = []" "l = Leaf"
      by (metis all_not_in_conv inorder_l_eq_Nil set_empty)
         (metis \<open>\<And>x. x \<notin> set (inorder l)\<close> all_not_in_conv inorder_eq_Nil set_empty)
    obtain ul ua ur where un: "?u = Node ul ua ur"
      using small by (cases ?u) auto
    have "ua \<in> set (inorder ?u)" by (simp add: un)
    then have "fst ua < fst a" using less u(1) by (auto simp: e)
    then have "ipc_splay_tree_join s small = Some (splay_of_tree 0 (Node ?u a (store_rtreep R r)))"
      using False small un Nil
      by (auto simp: ipc_splay_tree_join_def to t store_ltreep_def Let_def split: tree.splits)
    moreover have "inorder (Node ?u a (store_rtreep R r)) = splay_entries small @ splay_entries s"
      using Nil by (simp add: u e)
    moreover have "sorted_keys (splay_entries small @ splay_entries s)"
      using assms by (simp add: splay_invar_def)
    ultimately show ?thesis
      by (simp del: inorder.simps sorted_keys_simps)
  qed
qed

lemma splay_bounds_correct:
  assumes "splay_invar s" "ipc_splay_tree_bounds s name = (lo, up, s')"
  shows "splay_invar s' \<and> splay_entries s' = splay_entries s \<and>
    lo = (let xs = filter (\<lambda>x. fst x \<le> name) (splay_entries s) in
            if xs = [] then NOT 0 else fst (last xs)) \<and>
    up = (let xs = at_or_above name (splay_entries s) in if xs = [] then 0 else fst (hd xs))"
proof (cases "ist_root s = Leaf")
  case True
  with assms show ?thesis by (auto simp: ipc_splay_tree_bounds_def)
next
  case False
  obtain t L R where to: "splay_to name s = (t, L, R)" by (cases "splay_to name s")
  obtain l a r where t: "t = Node l a r" and m: "middle name (splay_entries s) L l a r R"
    by (rule splay_to_Node [OF assms(1) False to])
  note e = middleD(1) [OF m] and sorted = middleD(2) [OF m] and L = middleD(3) [OF m]
    and R = middleD(4) [OF m] and stop = middleD(5) [OF m] and b = middleD(6) [OF m]
    and f = middleD(7) [OF m]
  have s': "s' = \<lparr>ist_name = name, ist_root = t, ist_ltree = L, ist_rtree = R\<rparr>"
    and lo: "lo = (if fst a \<le> name then fst a else if L = [] then NOT 0 else fst (snd (last L)))"
    and up: "up = (if name \<le> fst a then fst a else if R = [] then 0 else fst (fst (last R)))"
    using assms(2) False to t
    by (auto simp: ipc_splay_tree_bounds_def Let_def split: tree.splits)
  have f': "filter (\<lambda>x. fst x \<le> name) (splay_entries s) =
      inorder_l L @ inorder l @ (if fst a \<le> name then [a] else [])"
  proof -
    have "filter (\<lambda>x. fst x \<le> name) xs = xs" if "xs \<in> {inorder_l L, inorder l}" for xs
      unfolding filter_id_conv using that L by (elim insertE) force+
    moreover have "filter (\<lambda>x. fst x \<le> name) xs = []" if "xs \<in> {inorder r, inorder_r R}" for xs
      unfolding filter_empty_conv using that R by (elim insertE) (force simp: not_le)+
    ultimately show ?thesis by (simp add: e)
  qed
  have lastL: "L \<noteq> [] \<Longrightarrow> last (inorder_l L) = snd (last L)"
    by (induction L rule: inorder_l.induct) auto
  have hdR: "R \<noteq> [] \<Longrightarrow> hd (inorder_r R) = fst (last R)"
    by (induction R rule: inorder_r.induct) (auto simp: hd_append)
  have "splay_invar s' \<and> splay_entries s' = splay_entries s"
    using L R stop sorted by (auto simp: s' t splay_invar_Node e)
  moreover have "lo = (let xs = filter (\<lambda>x. fst x \<le> name) (splay_entries s) in
            if xs = [] then NOT 0 else fst (last xs))"
    using stop by (auto simp: f' lo lastL Let_def)
  moreover have "up = (let xs = at_or_above name (splay_entries s) in if xs = [] then 0 else fst (hd xs))"
    using stop by (auto simp: f up hdR Let_def)
  ultimately show ?thesis by blast
qed

lemma inorder_l_map [simp]:
  "inorder_l (map (map_prod (map_tree g) g) L) = map g (inorder_l L)"
  by (induction L) (auto simp: inorder_map)

lemma inorder_r_map [simp]:
  "inorder_r (map (map_prod g (map_tree g)) R) = map g (inorder_r R)"
  by (induction R) (auto simp: inorder_map)

lemma sorted_keys_write_ite [simp]:
  "sorted_keys (map (write_ite name f) xs) \<longleftrightarrow> sorted_keys xs"
  by (simp add: sorted_keys_def sorted_wrt_map)

lemma splay_write_correct:
  assumes "splay_invar s"
  shows "splay_invar (splay_write s name f) \<and>
    splay_entries (splay_write s name f) = map (write_ite name f) (splay_entries s)"
proof -
  have "splay_entries (splay_write s name f) = map (write_ite name f) (splay_entries s)"
    by (simp add: splay_entries_def splay_write_def inorder_map)
  moreover have "splayed (ist_name s) t L R \<Longrightarrow>
      splayed (ist_name s) (map_tree (write_ite name f) t)
        (map (map_prod (map_tree (write_ite name f)) (write_ite name f)) L)
        (map (map_prod (write_ite name f) (map_tree (write_ite name f))) R)" for t L R
    by (cases t) (auto simp: splayed_def write_ite_def)
  ultimately show ?thesis using assms
    by (simp add: splay_invar_def) (simp add: splay_write_def)
qed

interpretation splay: name_tree splay_invar splay_entries ipc_splay_tree_init
  ipc_splay_tree_pick ipc_splay_tree_lookup ipc_splay_tree_insert ipc_splay_tree_delete
  ipc_splay_tree_split ipc_splay_tree_join ipc_splay_tree_bounds splay_write
proof (unfold_locales, goal_cases)
  case 1 then show ?case by (simp add: splay_invar_def)
next
  case 2 show ?case by (simp add: ipc_splay_tree_init_def)
next
  case 3 show ?case by (simp add: ipc_splay_tree_init_def)
next
  case 4 show ?case by (auto simp: ipc_splay_tree_pick_def splay_entries_def split: tree.splits)
next
  case 5 then show ?case by (auto simp: ipc_splay_tree_pick_def splay_entries_def split: tree.splits)
next
  case 6 then show ?case by (rule splay_lookup_correct)
next
  case 7 then show ?case by (rule splay_insert_correct)
next
  case 8 then show ?case by (rule splay_delete_correct)
next
  case 9 then show ?case by (rule splay_split_correct)
next
  case 10 then show ?case by (rule splay_join_correct)
next
  case 11 then show ?case by (rule splay_bounds_correct)
next
  case 12 then show ?case by (rule splay_write_correct)
qed

subsection \<open>Traversal by pointer reversal\<close>

text \<open>
  While a tree is traversed, the child pointers on the path from the root to the current
  node are reversed.  The path is a list of the nodes above the current one, nearest first;
  \<open>LParent b r\<close> is a node whose \<open>ite_lchild\<close> field is reversed (the current node is in its
  left subtree, \<open>r\<close> is its right child), \<open>RParent l b\<close> one whose \<open>ite_rchild\<close> field is.
  Like the code, the model finds out which field is reversed by comparing names; taking the
  other one would follow a wild pointer, which is \<open>None\<close>.
  \<open>At cur P\<close> is a traversal that stopped to return the root of \<open>cur\<close>
  (\<open>ist_ltree = current\<close>, \<open>ist_rtree = parent\<close>); \<open>Done root\<close> one that returned \<open>ITE_NULL\<close>.
\<close>

datatype 'e parent = LParent "'e ite" "'e ite tree" | RParent "'e ite tree" "'e ite"

datatype 'e traversal = At "'e ite tree" "'e parent list" | Done "'e ite tree"

fun parent_name :: "'e parent \<Rightarrow> mach_port" where
  "parent_name (LParent b r) = fst b"
| "parent_name (RParent l b) = fst b"

fun traverse_left :: "'e ite tree \<Rightarrow> 'e parent list \<Rightarrow> 'e traversal option" where
  "traverse_left Leaf P = None"
| "traverse_left (Node l a r) P =
     (if l \<noteq> Leaf then traverse_left l (LParent a r # P) else Some (At (Node l a r) P))"

fun traverse_back :: "'e ite tree \<Rightarrow> 'e parent list \<Rightarrow> 'e traversal option" where
  "traverse_back cur [] = Some (Done cur)"
| "traverse_back Leaf (p # P) = None"
| "traverse_back (Node l a r) (p # P) =
     (if fst a < parent_name p
      then (case p of LParent b rc \<Rightarrow> Some (At (Node (Node l a r) b rc) P) | RParent _ _ \<Rightarrow> None)
      else (case p of RParent lc b \<Rightarrow> traverse_back (Node lc b (Node l a r)) P | LParent _ _ \<Rightarrow> None))"

fun traverse_right :: "'e ite tree \<Rightarrow> 'e parent list \<Rightarrow> 'e traversal option" where
  "traverse_right Leaf P = None"
| "traverse_right (Node l a r) P =
     (if r \<noteq> Leaf then traverse_left r (RParent l a # P) else traverse_back (Node l a r) P)"

definition ipc_splay_traverse_start :: "'e ipc_splay_tree \<Rightarrow> 'e traversal option" where
  "ipc_splay_traverse_start s =
     (if ist_root s = Leaf then Some (Done Leaf)
      else traverse_left (ipc_splay_prim_assemble (ist_root s) (ist_ltree s) (ist_rtree s)) [])"

fun ipc_splay_traverse_next :: "'e ite tree \<Rightarrow> 'e parent list \<Rightarrow> bool \<Rightarrow> 'e traversal option" where
  "ipc_splay_traverse_next Leaf P delete = None"
| "ipc_splay_traverse_next (Node l a r) P delete =
     (if \<not> delete then traverse_right (Node l a r) P
      else if l = Leaf then
        if r = Leaf then
          (case P of
             [] \<Rightarrow> Some (Done Leaf)
           | p # P' \<Rightarrow>
               if fst a < parent_name p
               then (case p of LParent b rc \<Rightarrow> Some (At (Node Leaf b rc) P') | RParent _ _ \<Rightarrow> None)
               else (case p of RParent lc b \<Rightarrow> traverse_back (Node lc b Leaf) P' | LParent _ _ \<Rightarrow> None))
        else traverse_left r P
      else if r = Leaf then traverse_back l P
      else
        (case splay_largest l of
           Leaf \<Rightarrow> None
         | Node l' a' r' \<Rightarrow> do { kassert (r' = Leaf); traverse_right (Node l' a' r) P }))"

definition ipc_splay_traverse_finish :: "'e ite tree \<Rightarrow> 'e ipc_splay_tree" where
  "ipc_splay_traverse_finish root = splay_of_tree 0 root"

text \<open>What has been passed and kept, and what is still to come.\<close>

fun kept_above :: "'e parent list \<Rightarrow> 'e ite list" where
  "kept_above [] = []"
| "kept_above (LParent b r # P) = kept_above P"
| "kept_above (RParent l b # P) = kept_above P @ inorder l @ [b]"

fun coming_above :: "'e parent list \<Rightarrow> 'e ite list" where
  "coming_above [] = []"
| "coming_above (LParent b r # P) = b # inorder r @ coming_above P"
| "coming_above (RParent l b # P) = coming_above P"

text \<open>\<open>stands tr K X\<close>: the traversal has kept \<open>K\<close>, and \<open>X\<close> is still to come, the current entry
  first.\<close>

fun stands :: "'e traversal \<Rightarrow> 'e ite list \<Rightarrow> 'e ite list \<Rightarrow> bool" where
  "stands (At (Node l a r) P) K X \<longleftrightarrow>
     K = kept_above P @ inorder l \<and> X = a # inorder r @ coming_above P"
| "stands (At Leaf P) K X \<longleftrightarrow> False"
| "stands (Done t) K X \<longleftrightarrow> K = inorder t \<and> X = []"

lemma traverse_left_stands:
  "traverse_left cur P = Some tr \<Longrightarrow> stands tr (kept_above P) (inorder cur @ coming_above P)"
  by (induction cur P rule: traverse_left.induct) (auto split: if_splits)

lemma traverse_left_total: "cur \<noteq> Leaf \<Longrightarrow> \<exists>tr. traverse_left cur P = Some tr"
  by (induction cur P rule: traverse_left.induct) auto

lemma traverse_back_stands:
  "traverse_back cur P = Some tr \<Longrightarrow> stands tr (kept_above P @ inorder cur) (coming_above P)"
  by (induction cur P rule: traverse_back.induct) (auto split: if_splits parent.splits)

lemma traverse_back_total:
  "cur \<noteq> Leaf \<Longrightarrow> sorted_keys (kept_above P @ inorder cur @ coming_above P) \<Longrightarrow>
   \<exists>tr. traverse_back cur P = Some tr"
proof (induction cur P rule: traverse_back.induct)
  case (3 l a r p P)
  then show ?case by (cases p) auto
qed auto

lemma traverse_right_stands:
  "traverse_right cur P = Some tr \<Longrightarrow> cur = Node l a r \<Longrightarrow>
   stands tr (kept_above P @ inorder l @ [a]) (inorder r @ coming_above P)"
  using traverse_left_stands [of r "RParent l a # P" tr] traverse_back_stands [of cur P tr]
  by (auto split: if_splits)

lemma traverse_right_total:
  "sorted_keys (kept_above P @ inorder (Node l a r) @ coming_above P) \<Longrightarrow>
   \<exists>tr. traverse_right (Node l a r) P = Some tr"
  using traverse_left_total [of r "RParent l a # P"] traverse_back_total [of "Node l a r" P]
  by auto

lemma splay_largest_inorder: "t \<noteq> Leaf \<Longrightarrow> inorder (splay_largest t) = inorder t"
  using prim_lookup_inorder [of "NOT 0" t "[]" "[]"] prim_lookup_Leaf_iff [of "NOT 0" t "[]" "[]"]
  by (auto simp: splay_largest_def split: prod.splits)

lemma traverse_next_stands:
  assumes "ipc_splay_traverse_next cur P delete = Some tr" "stands (At cur P) K (a # X)"
  shows "stands tr (if delete then K else K @ [a]) X"
proof -
  obtain l r where cur: "cur = Node l a r" and K: "K = kept_above P @ inorder l"
    and X: "X = inorder r @ coming_above P"
    using assms(2) by (cases cur) auto
  show ?thesis
  proof (cases delete)
    case False
    then show ?thesis using assms(1) traverse_right_stands [of cur P tr l a r] by (simp add: cur K X)
  next
    case True
    consider (leaf) "l = Leaf" "r = Leaf" | (left) "l \<noteq> Leaf" "r = Leaf"
      | (right) "l = Leaf" "r \<noteq> Leaf" | (both) "l \<noteq> Leaf" "r \<noteq> Leaf" by blast
    then show ?thesis
    proof cases
      case leaf
      then show ?thesis
        using assms(1) True traverse_back_stands
        by (fastforce simp: cur K X split: list.splits if_splits parent.splits)
    next
      case left
      then show ?thesis using assms(1) True traverse_back_stands [of l P tr] by (simp add: cur K X)
    next
      case right
      then show ?thesis using assms(1) True traverse_left_stands [of r P tr] by (simp add: cur K X)
    next
      case both
      then obtain l' a' where big: "splay_largest l = Node l' a' Leaf"
        and tr: "traverse_right (Node l' a' r) P = Some tr"
        using assms(1) True by (auto simp: cur split: tree.splits)
      then show ?thesis
        using True splay_largest_inorder [OF both(1)] traverse_right_stands [OF tr]
        by (simp add: K X)
    qed
  qed
qed

lemma traverse_next_total:
  assumes "stands (At cur P) K X" "sorted_keys (K @ X)"
  shows "\<exists>tr. ipc_splay_traverse_next cur P delete = Some tr"
proof -
  obtain l a r where cur: "cur = Node l a r" and K: "K = kept_above P @ inorder l"
    and X: "X = a # inorder r @ coming_above P"
    using assms(1) by (cases cur) auto
  have sorted: "sorted_keys (kept_above P @ inorder (Node l a r) @ coming_above P)"
    using assms(2) by (simp add: K X)
  consider (keep) "\<not> delete" | (leaf) delete "l = Leaf" "r = Leaf"
    | (left) delete "l \<noteq> Leaf" "r = Leaf" | (right) delete "l = Leaf" "r \<noteq> Leaf"
    | (both) delete "l \<noteq> Leaf" "r \<noteq> Leaf" by blast
  then show ?thesis
  proof cases
    case keep
    then show ?thesis using traverse_right_total [OF sorted] by (simp add: cur)
  next
    case leaf
    show ?thesis
    proof (cases P)
      case (Cons p P')
      then show ?thesis
        using leaf sorted traverse_back_total [of "Node _ _ Leaf" P'] by (cases p) (auto simp: cur)
    qed (simp add: cur leaf)
  next
    case left
    then show ?thesis using sorted traverse_back_total [of l P] by (simp add: cur)
  next
    case right
    then show ?thesis using traverse_left_total [of r P] by (simp add: cur)
  next
    case both
    obtain l' a' where big: "splay_largest l = Node l' a' Leaf" "inorder l' @ [a'] = inorder l"
      using splay_largest_correct [OF both(2)] sorted by auto
    have "sorted_keys (kept_above P @ inorder (Node l' a' r) @ coming_above P)"
      using sorted by (simp flip: big(2))
    from traverse_right_total [OF this] show ?thesis using both big(1) by (simp add: cur)
  qed
qed

text \<open>
  The client loop \<open>for (e = traverse_start; e != ITE_NULL; e = traverse_next (delete)) body\<close>:
  the body works on a state of its own and says whether the entry is to be deleted.
\<close>

fun coming :: "'e traversal \<Rightarrow> nat" where
  "coming (At (Node l a r) P) = Suc (size r + length (coming_above P))"
| "coming _ = 0"

lemma coming_stands: "stands tr K X \<Longrightarrow> coming tr = length X"
  by (induction tr K X rule: stands.induct) auto

lemma stands_At: "\<exists>K X. stands (At (Node l a r) P) K (a # X)"
  by simp

lemma coming_next:
  "ipc_splay_traverse_next (Node l a r) P delete = Some tr \<Longrightarrow> coming tr < coming (At (Node l a r) P)"
  using stands_At [of l a r P] traverse_next_stands coming_stands
  by (metis length_Cons lessI)

function traverse_loop ::
  "('e ite \<Rightarrow> 's \<Rightarrow> (bool \<times> 's) option) \<Rightarrow> 'e traversal \<Rightarrow> 's \<Rightarrow> ('e ite tree \<times> 's) option" where
  "traverse_loop body (Done root) st = Some (root, st)"
| "traverse_loop body (At Leaf P) st = None"
| "traverse_loop body (At (Node l a r) P) st =
     (case body a st of
        None \<Rightarrow> None
      | Some (delete, st') \<Rightarrow>
          (case ipc_splay_traverse_next (Node l a r) P delete of
             None \<Rightarrow> None
           | Some tr \<Rightarrow> traverse_loop body tr st'))"
  by pat_completeness auto
termination
  by (relation "measure (\<lambda>(body, tr, st). coming tr)") (auto dest: coming_next simp del: ipc_splay_traverse_next.simps coming.simps)

definition splay_traverse ::
  "('e ite \<Rightarrow> 's \<Rightarrow> (bool \<times> 's) option) \<Rightarrow> 'e ipc_splay_tree \<Rightarrow> 's \<Rightarrow> ('e ipc_splay_tree \<times> 's) option" where
  "splay_traverse body s st =
     do {
       tr \<leftarrow> ipc_splay_traverse_start s;
       (root, st') \<leftarrow> traverse_loop body tr st;
       Some (ipc_splay_traverse_finish root, st')
     }"

text \<open>The same loop over the list of entries.\<close>

fun traverse_list ::
  "('x \<Rightarrow> 's \<Rightarrow> (bool \<times> 's) option) \<Rightarrow> 'x list \<Rightarrow> 's \<Rightarrow> ('x list \<times> 's) option" where
  "traverse_list body [] st = Some ([], st)"
| "traverse_list body (x # xs) st =
     do {
       (delete, st') \<leftarrow> body x st;
       (ys, st'') \<leftarrow> traverse_list body xs st';
       Some (if delete then ys else x # ys, st'')
     }"

lemma traverse_list_subset: "traverse_list body xs st = Some (ys, st') \<Longrightarrow> set ys \<subseteq> set xs"
  by (induction xs arbitrary: st ys) (auto split: bind_splits if_splits, blast+)

lemma traverse_loop_correct:
  assumes "stands tr K X" "sorted_keys (K @ X)"
  shows "case traverse_list body X st of
      None \<Rightarrow> traverse_loop body tr st = None
    | Some (ys, st') \<Rightarrow> \<exists>root. traverse_loop body tr st = Some (root, st') \<and> inorder root = K @ ys"
  using assms
proof (induction body tr st arbitrary: K X rule: traverse_loop.induct)
  case (3 body l a r P st)
  from "3.prems"(1) obtain X' where X: "X = a # X'" by simp
  show ?case
  proof (cases "body a st")
    case None
    then show ?thesis by (simp add: X)
  next
    case (Some ds)
    obtain d st' where ds: "ds = (d, st')" by (cases ds)
    obtain tr' where next': "ipc_splay_traverse_next (Node l a r) P d = Some tr'"
      using traverse_next_total [OF "3.prems"] by blast
    let ?K = "if d then K else K @ [a]"
    have "stands tr' ?K X'"
      using traverse_next_stands [OF next'] "3.prems"(1) by (simp only: X)
    moreover have "sorted_keys (?K @ X')" using "3.prems"(2) by (auto simp: X)
    ultimately have "case traverse_list body X' st' of
        None \<Rightarrow> traverse_loop body tr' st' = None
      | Some (ys, st'') \<Rightarrow> \<exists>root. traverse_loop body tr' st' = Some (root, st'') \<and> inorder root = ?K @ ys"
      by (rule "3.IH" [OF Some ds [symmetric] next'])
    then show ?thesis
      using next' by (cases "traverse_list body X' st'")
        (auto simp: X Some ds simp del: ipc_splay_traverse_next.simps)
  qed
qed auto

lemma sorted_keys_traverse_list:
  "traverse_list body xs st = Some (ys, st') \<Longrightarrow> sorted_keys xs \<Longrightarrow> sorted_keys ys"
proof (induction xs arbitrary: st ys)
  case (Cons x xs)
  then show ?case by (force split: bind_splits if_splits dest: traverse_list_subset)
qed simp

text \<open>A traversal is the loop over the entries in the order of their names; what is left is
  the tree of the entries that the body kept.\<close>

lemma traverse_start_stands:
  assumes "splay_invar s"
  obtains tr where "ipc_splay_traverse_start s = Some tr" "stands tr [] (splay_entries s)"
proof (cases "ist_root s = Leaf")
  case True
  then show thesis by (intro that [of "Done Leaf"]) (simp_all add: ipc_splay_traverse_start_def)
next
  case False
  let ?u = "ipc_splay_prim_assemble (ist_root s) (ist_ltree s) (ist_rtree s)"
  obtain tr where "traverse_left ?u [] = Some tr"
    using traverse_left_total [of ?u] False by auto
  moreover have "inorder ?u = splay_entries s" using False by (simp add: splay_entries_def)
  ultimately show thesis
    using that [of tr] False traverse_left_stands [of ?u "[]" tr]
    by (simp add: ipc_splay_traverse_start_def)
qed

lemma splay_traverse_correct:
  assumes "splay_invar s"
  shows "case traverse_list body (splay_entries s) st of
      None \<Rightarrow> splay_traverse body s st = None
    | Some (ys, st') \<Rightarrow>
        \<exists>s'. splay_traverse body s st = Some (s', st') \<and> splay_invar s' \<and> splay_entries s' = ys"
proof -
  obtain tr where start: "ipc_splay_traverse_start s = Some tr" and tr: "stands tr [] (splay_entries s)"
    by (rule traverse_start_stands [OF assms])
  have sorted: "sorted_keys (splay_entries s)" using assms by (rule splay.sorted)
  show ?thesis
    using traverse_loop_correct [OF tr, of body st] sorted
      sorted_keys_traverse_list [of body "splay_entries s" st]
    by (auto simp: splay_traverse_def start ipc_splay_traverse_finish_def split: option.splits)
qed

subsection \<open>Properties\<close>

text \<open>Sequences of lookups, insertions and deletions, on the tree and on a finite map.  The
  specification has no step for an insertion of a name that is present or a deletion of one
  that is absent, which the assertions of the code exclude.\<close>

datatype 'e tree_op = Lookup mach_port | Insert mach_port 'e | Delete mach_port

fun splay_op :: "'e tree_op \<Rightarrow> 'e ipc_splay_tree \<Rightarrow> ('e option \<times> 'e ipc_splay_tree) option" where
  "splay_op (Lookup name) s = Some (ipc_splay_tree_lookup s name)"
| "splay_op (Insert name e) s = map_option (Pair None) (ipc_splay_tree_insert s name e)"
| "splay_op (Delete name) s = map_option (Pair None) (ipc_splay_tree_delete s name)"

fun map_op :: "'e tree_op \<Rightarrow> (mach_port \<rightharpoonup> 'e) \<Rightarrow> ('e option \<times> (mach_port \<rightharpoonup> 'e)) option" where
  "map_op (Lookup name) m = Some (m name, m)"
| "map_op (Insert name e) m = (if m name = None then Some (None, m(name \<mapsto> e)) else None)"
| "map_op (Delete name) m = (if m name = None then None else Some (None, m(name := None)))"

definition splay_map :: "'e ipc_splay_tree \<Rightarrow> mach_port \<rightharpoonup> 'e" where
  "splay_map s = map_of (splay_entries s)"

lemma splay_op_refines:
  assumes "splay_invar s" "map_op x (splay_map s) = Some (y, m')"
  shows "\<exists>s'. splay_op x s = Some (y, s') \<and> splay_invar s' \<and> splay_map s' = m'"
proof (cases x)
  case (Lookup name)
  then show ?thesis using assms splay.lookup_tmap [OF assms(1), of name] by (auto simp: splay_map_def)
next
  case (Insert name e)
  then show ?thesis using assms splay.insert_tmap [OF assms(1), of name e]
    by (auto simp: splay_map_def split: if_splits)
next
  case (Delete name)
  then show ?thesis using assms splay.delete_tmap [OF assms(1), of name]
    by (auto simp: splay_map_def split: if_splits)
qed

text \<open>C9. The splay tree of ipc/ipc_splay.c implements a finite map: any sequence of lookups,
  insertions and deletions, begun on the tree that \<open>ipc_splay_tree_init\<close> makes, meets no
  failed assertion, returns what the same sequence returns on the map, and ends with a
  well-formed tree that holds the contents of the map.\<close>

theorem splay_refines_map:
  assumes "run_ops map_op ops Map.empty = Some (outs, m)"
  shows "\<exists>s. run_ops splay_op ops ipc_splay_tree_init = Some (outs, s) \<and>
    splay_invar s \<and> splay_map s = m"
proof -
  let ?R = "\<lambda>s m. splay_invar s \<and> splay_map s = m"
  have "?R ipc_splay_tree_init Map.empty"
    using splay.init by (simp add: splay_map_def)
  moreover have "\<exists>s'. splay_op x s = Some (y, s') \<and> ?R s' m'"
    if "?R s m" "map_op x m = Some (y, m')" for x s m y m'
    using that splay_op_refines by blast
  ultimately show ?thesis
    using run_ops_simulation [of ?R map_op splay_op] assms by blast
qed

theorem splay_refines_map_witness:
  "\<exists>s. run_ops splay_op [Insert 768 (3 :: nat), Insert 256 1, Insert 512 2, Lookup 256, Delete 512, Lookup 512]
      ipc_splay_tree_init = Some ([None, None, None, Some 1, None, None], s) \<and>
    splay_invar s \<and> splay_map s = [768 \<mapsto> 3, 256 \<mapsto> 1]"
proof -
  have m: "[768 :: mach_port \<mapsto> 3, 256 \<mapsto> 1, 512 \<mapsto> 2](512 := None) = [768 \<mapsto> (3 :: nat), 256 \<mapsto> (1 :: nat)]"
    by (auto simp: fun_eq_iff)
  show ?thesis
    by (rule splay_refines_map) (simp add: m)
qed

text \<open>C10. Splitting a tree at a name yields the names below it and the names from it on;
  joining the two parts gives a tree with the original contents.  Neither operation fails
  an assertion.\<close>

theorem splay_split_join:
  assumes "splay_invar s"
  shows "\<exists>big small s'. ipc_splay_tree_split s name = Some (big, small) \<and>
    splay_entries small = filter (\<lambda>x. fst x < name) (splay_entries s) \<and>
    splay_entries big = filter (\<lambda>x. name \<le> fst x) (splay_entries s) \<and>
    ipc_splay_tree_join big small = Some s' \<and> splay_invar s' \<and> splay_entries s' = splay_entries s"
proof -
  obtain big small where sp: "ipc_splay_tree_split s name = Some (big, small)"
    "splay_invar big" "splay_invar small"
    "splay_entries big = at_or_above name (splay_entries s)"
    "splay_entries small = below name (splay_entries s)"
    using splay.split [OF assms, of name] by blast
  have "\<forall>x\<in>set (splay_entries small). \<forall>y\<in>set (splay_entries big). fst x < fst y"
    by (auto simp: sp(4,5) below_def at_or_above_def)
  from splay.join [OF sp(2,3) this] sp(1,4,5)
    below_append_at_or_above [OF splay.sorted [OF assms], of name]
  show ?thesis by (auto simp: below_def at_or_above_def)
qed

theorem splay_split_join_witness:
  "let s = splay_of_tree 0 (Node (Node Leaf (256, ''a'') Leaf) (512, ''b'') (Node Leaf (768, ''c'') Leaf)) in
   \<exists>big small s'. ipc_splay_tree_split s 600 = Some (big, small) \<and>
    splay_entries small = filter (\<lambda>x. fst x < 600) (splay_entries s) \<and>
    splay_entries big = filter (\<lambda>x. 600 \<le> fst x) (splay_entries s) \<and>
    ipc_splay_tree_join big small = Some s' \<and> splay_invar s' \<and> splay_entries s' = splay_entries s"
  unfolding Let_def by (rule splay_split_join) simp

text \<open>C11. Traversing a tree with the pointer-reversing iterator visits every entry once, in
  ascending order of the names, also when the loop body has entries deleted on the way: it
  returns the state that the same loop over the sorted list of entries returns, and leaves
  a well-formed tree of exactly the entries the body kept.\<close>

theorem splay_traverse_in_order:
  assumes "splay_invar s" and "traverse_list body (splay_entries s) st = Some (kept, st')"
  shows "\<exists>s'. splay_traverse body s st = Some (s', st') \<and> splay_invar s' \<and> splay_entries s' = kept"
  using splay_traverse_correct [OF assms(1), of body st] assms(2) by simp

theorem splay_traverse_in_order_witness:
  "let s = splay_of_tree 0 (Node (Node Leaf (256, 4 :: nat) Leaf) (512, 5) (Node Leaf (768, 6) Leaf));
       body = (\<lambda>x st. Some (even (snd x), st @ [fst x])) in
   \<exists>s'. splay_traverse body s [] = Some (s', [256, 512, 768]) \<and> splay_invar s' \<and>
     splay_entries s' = [(512, 5)]"
  unfolding Let_def by (rule splay_traverse_in_order) simp_all

end
