(* ===== verification/Ipc_Space.thy ===== *)
theory Ipc_Space
  imports Ipc_Table Ipc_Splay
begin

text \<open>
  The data of a capability space: \<open>struct ipc_entry\<close> and \<open>struct ipc_tree_entry\<close>
  (ipc/ipc_entry.h) and \<open>struct ipc_space\<close> (ipc/ipc_space.h).

  \<^item> The union of \<open>ie_next\<close> and \<open>ie_request\<close> is one field \<open>ie_request\<close>; both are indices,
    kept as natural numbers, as is \<open>ie_index\<close>, the slot of the local reverse hash table
    that lives in the same array.
  \<^item> A tree entry is an \<open>ipc_entry\<close> in the splay tree under its name; its \<open>ite_space\<close> is
    the space whose tree holds it and its \<open>ite_next\<close> link is its place in a bucket of the
    global reverse hash table.
  \<^item> A pointer \<open>ipc_entry_t\<close> into a space is \<open>TableEntry i\<close> for \<open>&is_table[i]\<close> or
    \<open>TreeEntry n\<close> for the tree entry with name \<open>n\<close>.
  \<^item> \<open>is_table_next\<close> is an index into \<open>ipc_table_entries\<close>.
\<close>

record ipc_entry =
  ie_bits :: u32
  ie_object :: addr
  ie_request :: nat
  ie_index :: nat

abbreviation ie_next :: "ipc_entry \<Rightarrow> nat" where
  "ie_next \<equiv> ie_request"

definition entry_zero :: ipc_entry where
  "entry_zero = \<lparr>ie_bits = 0, ie_object = 0, ie_request = 0, ie_index = 0\<rparr>"

datatype ipc_entry_ref = TableEntry nat | TreeEntry mach_port

record ipc_space =
  is_references :: u32
  is_active :: bool
  is_table :: "ipc_entry list"
  is_table_size :: nat
  is_table_next :: nat
  is_tree :: "ipc_entry ipc_splay_tree"
  is_tree_total :: nat
  is_tree_small :: nat
  is_tree_hash :: nat
  is_notify :: addr

text \<open>Reads and writes through an entry pointer.\<close>

fun get_entry :: "ipc_space \<Rightarrow> ipc_entry_ref \<Rightarrow> ipc_entry option" where
  "get_entry sp (TableEntry i) = nth_opt (is_table sp) i"
| "get_entry sp (TreeEntry name) = splay_map (is_tree sp) name"

definition table_write :: "ipc_entry list \<Rightarrow> nat \<Rightarrow> (ipc_entry \<Rightarrow> ipc_entry) \<Rightarrow> ipc_entry list" where
  "table_write t i f = t[i := f (t ! i)]"

fun write_entry :: "ipc_space \<Rightarrow> ipc_entry_ref \<Rightarrow> (ipc_entry \<Rightarrow> ipc_entry) \<Rightarrow> ipc_space" where
  "write_entry sp (TableEntry i) f = sp\<lparr>is_table := table_write (is_table sp) i f\<rparr>"
| "write_entry sp (TreeEntry name) f = sp\<lparr>is_tree := splay_write (is_tree sp) name f\<rparr>"

lemma length_table_write [simp]: "length (table_write t i f) = length t"
  by (simp add: table_write_def)

lemma nth_table_write:
  "i < length t \<Longrightarrow> table_write t i f ! j = (if j = i then f (t ! i) else t ! j)"
  by (simp add: table_write_def nth_list_update)

lemma nth_table_write_eq [simp]: "i < length t \<Longrightarrow> table_write t i f ! i = f (t ! i)"
  and nth_table_write_neq [simp]: "j \<noteq> i \<Longrightarrow> table_write t i f ! j = t ! j"
  by (simp_all add: table_write_def)

text \<open>An assignment to a field other than \<open>ie_index\<close> leaves the reverse hash table alone,
  one to \<open>ie_index\<close> leaves the rest alone.\<close>

lemma table_write_field:
  assumes "\<And>e. g (f e) = g e"
  shows "g (table_write t i f ! j) = g (t ! j)"
  using assms by (cases "i < length t") (auto simp: table_write_def nth_list_update list_update_beyond)

end
