(* ===== verification/Linear_Probing.thy ===== *)
theory Linear_Probing
  imports Mach_Prelude
begin

text \<open>
  Open addressing with linear probing, on slots \<open>T 0, ..., T (n - 1)\<close> that hold keys, zero
  meaning an empty slot; \<open>home k\<close> is the slot where the search for key \<open>k\<close> begins.  The
  theory is used for the local reverse hash table of a space.

  \<open>cdist n a b\<close> is the number of steps from slot \<open>a\<close> to slot \<open>b\<close> going upwards and around.
  The slots on the way from \<open>a\<close> to \<open>b\<close>, without \<open>b\<close>, are those \<open>k\<close> with
  \<open>cdist n a k < cdist n a b\<close>.
\<close>

definition next_slot :: "nat \<Rightarrow> nat \<Rightarrow> nat" where
  "next_slot n h = (if Suc h = n then 0 else Suc h)"

definition cdist :: "nat \<Rightarrow> nat \<Rightarrow> nat \<Rightarrow> nat" where
  "cdist n a b = (if a \<le> b then b - a else b + n - a)"

lemma next_slot_less [simp]: "h < n \<Longrightarrow> next_slot n h < n"
  by (auto simp: next_slot_def)

lemma cdist_less: "a < n \<Longrightarrow> b < n \<Longrightarrow> cdist n a b < n"
  by (auto simp: cdist_def)

lemma cdist_self [simp]: "cdist n a a = 0"
  by (simp add: cdist_def)

lemma cdist_eq_0: "a < n \<Longrightarrow> b < n \<Longrightarrow> cdist n a b = 0 \<longleftrightarrow> a = b"
  by (auto simp: cdist_def)

lemma cdist_inj: "a < n \<Longrightarrow> b < n \<Longrightarrow> c < n \<Longrightarrow> cdist n a b = cdist n a c \<longleftrightarrow> b = c"
  by (auto simp: cdist_def split: if_splits)

lemma cdist_next_slot:
  "a < n \<Longrightarrow> b < n \<Longrightarrow> a \<noteq> b \<Longrightarrow> cdist n a b = Suc (cdist n (next_slot n a) b)"
  by (auto simp: cdist_def next_slot_def)

lemma cdist_to_next_slot:
  "a < n \<Longrightarrow> d < n \<Longrightarrow> next_slot n d \<noteq> a \<Longrightarrow> cdist n a (next_slot n d) = Suc (cdist n a d)"
  by (auto simp: cdist_def next_slot_def)

text \<open>The test of \<open>ipc_hash_local_delete\<close>: the way from the home slot \<open>t\<close> to slot \<open>d\<close>
  leads over the hole \<open>h\<close>.\<close>

lemma displaced_iff:
  assumes "d < n" "h < n" "t < n" "d \<noteq> h"
  shows "(if d < h then d < t \<and> t \<le> h else d < t \<or> t \<le> h) \<longleftrightarrow> cdist n t h < cdist n t d"
  using assms by (auto simp: cdist_def)

text \<open>Well-formed tables: keys are below \<open>n\<close>, no key is stored twice, and no empty slot lies
  between the home of a key and its slot.\<close>

definition on_way :: "nat \<Rightarrow> nat \<Rightarrow> nat \<Rightarrow> nat \<Rightarrow> bool" where
  "on_way n a b k \<longleftrightarrow> k < n \<and> cdist n a k < cdist n a b"

definition probe_wf :: "nat \<Rightarrow> (nat \<Rightarrow> nat) \<Rightarrow> (nat \<Rightarrow> nat) \<Rightarrow> bool" where
  "probe_wf n home T \<longleftrightarrow>
     (\<forall>h<n. T h \<noteq> 0 \<longrightarrow> T h < n \<and> home (T h) < n \<and> (\<forall>k<n. on_way n (home (T h)) h k \<longrightarrow> T k \<noteq> 0)) \<and>
     (\<forall>h<n. \<forall>h'<n. T h = T h' \<longrightarrow> T h \<noteq> 0 \<longrightarrow> h = h')"

definition stored :: "nat \<Rightarrow> (nat \<Rightarrow> nat) \<Rightarrow> nat set" where
  "stored n T = T ` {..<n} - {0}"

lemma stored_update:
  "h < n \<Longrightarrow> stored n (T(h := k)) = insert k (T ` ({..<n} - {h})) - {0}"
  unfolding stored_def fun_upd_image by auto

lemma probe_wfD:
  assumes "probe_wf n home T" "h < n" "T h \<noteq> 0"
  shows "T h < n" "home (T h) < n" "on_way n (home (T h)) h k \<Longrightarrow> T k \<noteq> 0"
    "h' < n \<Longrightarrow> T h' = T h \<Longrightarrow> h' = h"
proof -
  note A = assms(1) [unfolded probe_wf_def, THEN conjunct1, rule_format, OF assms(2,3)]
  note B = assms(1) [unfolded probe_wf_def, THEN conjunct2, rule_format, of h h', OF assms(2) _ _ assms(3)]
  show "T h < n" "home (T h) < n" "on_way n (home (T h)) h k \<Longrightarrow> T k \<noteq> 0"
    using A by (simp_all add: on_way_def)
  show "h' < n \<Longrightarrow> T h' = T h \<Longrightarrow> h' = h"
    using B by simp
qed

text \<open>Since zero is not a key, at least one slot is empty.\<close>

lemma empty_slot:
  assumes "probe_wf n home T" "0 < n"
  obtains z where "z < n" "T z = 0"
proof (rule ccontr)
  assume "\<not> thesis"
  with that have full: "T h \<noteq> 0" if "h < n" for h using that by blast
  have "T ` {..<n} \<subseteq> {1..<n}"
    using probe_wfD(1) [OF assms(1)] full by (fastforce simp: Suc_le_eq)
  moreover have "inj_on T {..<n}"
    using probe_wfD(4) [OF assms(1)] full by (auto simp: inj_on_def)
  ultimately have "n \<le> card {1..<n}"
    using card_inj_on_le [of T "{..<n}" "{1..<n}"] by simp
  then show False using assms(2) by simp
qed

text \<open>Storing a key in an empty slot that is the first empty one from its home.\<close>

lemma probe_wf_insert:
  assumes wf: "probe_wf n home T" and h: "h < n" "T h = 0" and k: "0 < k" "k < n" "home k < n"
    and way: "\<And>j. on_way n (home k) h j \<Longrightarrow> T j \<noteq> 0" and new: "k \<notin> stored n T"
  shows "probe_wf n home (T(h := k))" "stored n (T(h := k)) = insert k (stored n T)"
proof -
  have neq: "T j \<noteq> k" if "j < n" for j using new k(1) that by (auto simp: stored_def)
  show "probe_wf n home (T(h := k))"
    unfolding probe_wf_def
  proof (intro conjI allI impI)
    fix j assume j: "j < n" "(T(h := k)) j \<noteq> 0"
    show "(T(h := k)) j < n" "home ((T(h := k)) j) < n"
      using j k probe_wfD(1,2) [OF wf] by auto
    fix i assume "i < n" "on_way n (home ((T(h := k)) j)) j i"
    then show "(T(h := k)) i \<noteq> 0"
      using j k way probe_wfD(3) [OF wf, of j i] by (auto split: if_splits)
  next
    fix j j' assume "j < n" "j' < n" "(T(h := k)) j = (T(h := k)) j'" "(T(h := k)) j \<noteq> 0"
    then show "j = j'"
      using neq probe_wfD(4) [OF wf] by (auto split: if_splits)
  qed
  show "stored n (T(h := k)) = insert k (stored n T)"
    using h k by (subst stored_update) (auto simp: stored_def)
qed

text \<open>Deletion.  The table has a hole \<open>h\<close>, whose contents do not count; the slots from the
  hole up to \<open>d\<close> have been examined, and only keys stored beyond \<open>d\<close> may have the hole on
  the way from their home.\<close>

definition hole_wf :: "nat \<Rightarrow> (nat \<Rightarrow> nat) \<Rightarrow> (nat \<Rightarrow> nat) \<Rightarrow> nat \<Rightarrow> nat \<Rightarrow> bool" where
  "hole_wf n home T h d \<longleftrightarrow>
     h < n \<and> d < n \<and>
     (\<forall>p<n. p \<noteq> h \<longrightarrow> T p \<noteq> 0 \<longrightarrow>
        T p < n \<and> home (T p) < n \<and>
        (\<forall>k. on_way n (home (T p)) p k \<longrightarrow> k \<noteq> h \<longrightarrow> T k \<noteq> 0) \<and>
        (on_way n (home (T p)) p h \<longrightarrow> cdist n h d < cdist n h p)) \<and>
     (\<forall>p<n. \<forall>p'<n. p \<noteq> h \<longrightarrow> p' \<noteq> h \<longrightarrow> T p = T p' \<longrightarrow> T p \<noteq> 0 \<longrightarrow> p = p')"

lemma hole_wfD:
  assumes "hole_wf n home T h d" "p < n" "p \<noteq> h" "T p \<noteq> 0"
  shows "T p < n" "home (T p) < n" "on_way n (home (T p)) p k \<Longrightarrow> k \<noteq> h \<Longrightarrow> T k \<noteq> 0"
    "on_way n (home (T p)) p h \<Longrightarrow> cdist n h d < cdist n h p"
    "p' < n \<Longrightarrow> p' \<noteq> h \<Longrightarrow> T p' = T p \<Longrightarrow> p' = p"
proof -
  note hw = assms(1) [unfolded hole_wf_def, THEN conjunct2, THEN conjunct2]
  note A = hw [THEN conjunct1, rule_format, OF assms(2-4)]
  note B = hw [THEN conjunct2, rule_format, of p p', OF assms(2) _ assms(3) _ _ assms(4)]
  show "T p < n" "home (T p) < n" "on_way n (home (T p)) p k \<Longrightarrow> k \<noteq> h \<Longrightarrow> T k \<noteq> 0"
    "on_way n (home (T p)) p h \<Longrightarrow> cdist n h d < cdist n h p"
    using A by simp_all
  show "p' < n \<Longrightarrow> p' \<noteq> h \<Longrightarrow> T p' = T p \<Longrightarrow> p' = p"
    using B by simp
qed

lemma hole_wf_start:
  assumes "probe_wf n home T" "h < n" "T h \<noteq> 0"
  shows "hole_wf n home T h h" "stored n (T(h := 0)) = stored n T - {T h}"
proof -
  show "hole_wf n home T h h"
    unfolding hole_wf_def
  proof (intro conjI allI impI assms)
    fix p assume p: "p < n" "p \<noteq> h" "T p \<noteq> 0"
    note w = probe_wfD [OF assms(1) p(1,3)]
    show "T p < n" "home (T p) < n" by (rule w)+
    show "cdist n h h < cdist n h p"
      using p assms(2) cdist_eq_0 [of h n p] by auto
    show "T k \<noteq> 0" if "on_way n (home (T p)) p k" for k using that by (rule w)
    show "p = p'" if "p' < n" "T p = T p'" for p' using w(4) [OF that(1) that(2) [symmetric]] by simp
  qed
  have "T x \<noteq> T h" if "x < n" "x \<noteq> h" for x
    using probe_wfD(4) [OF assms] that by blast
  then show "stored n (T(h := 0)) = stored n T - {T h}"
    using assms(2,3) by (subst stored_update) (auto simp: stored_def)
qed

text \<open>The way from \<open>a\<close> to \<open>p\<close> over \<open>h\<close> leads over everything between \<open>h\<close> and \<open>p\<close>.\<close>

lemma on_way_over:
  assumes "a < n" "h < n" "p < n" "k < n" "on_way n a p h" "cdist n h k < cdist n h p"
  shows "on_way n a p k"
  using assms by (auto simp: on_way_def cdist_def split: if_splits)

lemma hole_wf_finish:
  assumes hole: "hole_wf n home T h d" and z: "next_slot n d \<noteq> h" "T (next_slot n d) = 0"
  shows "probe_wf n home (T(h := 0))"
proof -
  let ?z = "next_slot n d"
  have hd: "h < n" "d < n" using hole by (simp_all add: hole_wf_def)
  have over: False if p: "p < n" "p \<noteq> h" "T p \<noteq> 0" and "on_way n (home (T p)) p h" for p
  proof -
    note w = hole_wfD [OF hole p]
    have "p \<noteq> ?z" using z(2) p(3) by metis
    then have "cdist n h ?z \<noteq> cdist n h p" using hd p(1) by (simp add: cdist_inj)
    then have "cdist n h ?z < cdist n h p"
      using w(4) [OF that(4)] cdist_to_next_slot [OF hd z(1)] by simp
    then have "on_way n (home (T p)) p ?z"
      using on_way_over [OF w(2) hd(1) p(1) _ that(4)] hd(2) by simp
    then show False using w(3) z by blast
  qed
  show ?thesis
    unfolding probe_wf_def
  proof (intro conjI allI impI)
    fix p assume p: "p < n" "(T(h := 0)) p \<noteq> 0"
    then have p': "p \<noteq> h" "T p \<noteq> 0" by (auto split: if_splits)
    note w = hole_wfD [OF hole p(1) p']
    show "(T(h := 0)) p < n" "home ((T(h := 0)) p) < n" using w p' by simp_all
    fix k assume "k < n" "on_way n (home ((T(h := 0)) p)) p k"
    then show "(T(h := 0)) k \<noteq> 0" using w(3) over [OF p(1) p'] p' by auto
  next
    fix p p' assume "p < n" "p' < n" "(T(h := 0)) p = (T(h := 0)) p'" "(T(h := 0)) p \<noteq> 0"
    then show "p = p'" using hole_wfD(5) [OF hole, of p' p] by (auto split: if_splits)
  qed
qed

lemma hole_wf_skip:
  assumes hole: "hole_wf n home T h d" and d: "next_slot n d \<noteq> h"
    and "\<not> on_way n (home (T (next_slot n d))) (next_slot n d) h"
  shows "hole_wf n home T h (next_slot n d)"
proof -
  let ?d = "next_slot n d"
  have hd: "h < n" "d < n" using hole by (simp_all add: hole_wf_def)
  have far: "cdist n h ?d < cdist n h p"
    if p: "p < n" "p \<noteq> h" "T p \<noteq> 0" and "on_way n (home (T p)) p h" for p
  proof -
    have "p \<noteq> ?d" using assms(3) that(4) by metis
    then have "cdist n h ?d \<noteq> cdist n h p" using hd p(1) by (simp add: cdist_inj)
    then show ?thesis
      using hole_wfD(4) [OF hole p that(4)] cdist_to_next_slot [OF hd d] by simp
  qed
  show ?thesis
    unfolding hole_wf_def
  proof (intro conjI allI impI)
    show "h < n" "?d < n" using hd by simp_all
    fix p assume p: "p < n" "p \<noteq> h" "T p \<noteq> 0"
    show "T p < n" "home (T p) < n" using hole_wfD(1,2) [OF hole p] by blast+
    show "on_way n (home (T p)) p h \<Longrightarrow> cdist n h ?d < cdist n h p" using p by (rule far)
    show "on_way n (home (T p)) p k \<Longrightarrow> k \<noteq> h \<Longrightarrow> T k \<noteq> 0" for k
      by (rule hole_wfD(3) [OF hole p])
  next
    fix p p' assume "p < n" "p' < n" "p \<noteq> h" "p' \<noteq> h" "T p = T p'" "T p \<noteq> 0"
    then show "p = p'" using hole_wfD(5) [OF hole, of p' p] by simp
  qed
qed

lemma hole_wf_move:
  assumes hole: "hole_wf n home T h d" and d: "next_slot n d \<noteq> h" "T (next_slot n d) \<noteq> 0"
    and disp: "on_way n (home (T (next_slot n d))) (next_slot n d) h"
  shows "hole_wf n home (T(h := T (next_slot n d))) (next_slot n d) (next_slot n d)"
    and "stored n (T(h := T (next_slot n d), next_slot n d := 0)) = stored n (T(h := 0))"
proof -
  let ?d = "next_slot n d" let ?T = "T(h := T ?d)"
  have hd: "h < n" "?d < n" using hole by (simp_all add: hole_wf_def)
  note w = hole_wfD [OF hole hd(2) d]
  show "hole_wf n home ?T ?d ?d"
    unfolding hole_wf_def
  proof (intro conjI allI impI hd)
    fix p assume p: "p < n" "p \<noteq> ?d" "?T p \<noteq> 0"
    show "?T p < n" "home (?T p) < n"
      using p w hole_wfD [OF hole p(1)] by (auto split: if_splits)
    show "cdist n ?d ?d < cdist n ?d p"
      using p hd by (simp add: cdist_eq_0 neq0_conv [symmetric] del: neq0_conv)
    fix k assume k: "on_way n (home (?T p)) p k" "k \<noteq> ?d"
    show "?T k \<noteq> 0"
    proof (cases "p = h")
      case True
      then have "on_way n (home (T ?d)) ?d k" using k(1) disp by (auto simp: on_way_def)
      then show ?thesis using w(3) [of k] d(2) by auto
    next
      case False
      then show ?thesis using k(1) hole_wfD(3) [OF hole p(1), of k] p(3) d(2) by auto
    qed
  next
    fix p p' assume p: "p < n" "p' < n" "p \<noteq> ?d" "p' \<noteq> ?d" "?T p = ?T p'" "?T p \<noteq> 0"
    consider "p = h" "p' = h" | "p = h" "p' \<noteq> h" | "p \<noteq> h" "p' = h" | "p \<noteq> h" "p' \<noteq> h"
      by blast
    then show "p = p'"
    proof cases
      case 2
      with p w(5) [of p'] show ?thesis by simp
    next
      case 3
      with p w(5) [of p] show ?thesis by simp
    next
      case 4
      with p hole_wfD(5) [OF hole, of p' p] show ?thesis by simp
    qed simp
  qed
  have "?T ` ({..<n} - {?d}) = T ` ({..<n} - {h})"
    using hd d(1) by (auto simp: fun_upd_image)
  then show "stored n (?T(?d := 0)) = stored n (T(h := 0))"
    using hd by (simp add: stored_update)
qed

text \<open>Only the homes of keys below \<open>n\<close> matter.\<close>

lemma probe_wf_cong:
  assumes "\<And>i. i < n \<Longrightarrow> home' i = home i"
  shows "probe_wf n home' T \<longleftrightarrow> probe_wf n home T"
proof -
  have "(T h < n \<and> home' (T h) < n \<and> (\<forall>k<n. on_way n (home' (T h)) h k \<longrightarrow> T k \<noteq> 0)) \<longleftrightarrow>
     (T h < n \<and> home (T h) < n \<and> (\<forall>k<n. on_way n (home (T h)) h k \<longrightarrow> T k \<noteq> 0))" for h
    using assms [of "T h"] by (cases "T h < n") simp_all
  then show ?thesis unfolding probe_wf_def by simp
qed

lemma hole_wf_cong:
  assumes "\<And>i. i < n \<Longrightarrow> home' i = home i"
  shows "hole_wf n home' T h d \<longleftrightarrow> hole_wf n home T h d"
proof -
  have "(T p < n \<and> home' (T p) < n \<and>
       (\<forall>k. on_way n (home' (T p)) p k \<longrightarrow> k \<noteq> h \<longrightarrow> T k \<noteq> 0) \<and>
       (on_way n (home' (T p)) p h \<longrightarrow> cdist n h d < cdist n h p)) \<longleftrightarrow>
     (T p < n \<and> home (T p) < n \<and>
       (\<forall>k. on_way n (home (T p)) p k \<longrightarrow> k \<noteq> h \<longrightarrow> T k \<noteq> 0) \<and>
       (on_way n (home (T p)) p h \<longrightarrow> cdist n h d < cdist n h p))" for p
    using assms [of "T p"] by (cases "T p < n") simp_all
  then show ?thesis unfolding hole_wf_def by simp
qed

lemma stored_cong: "(\<And>h. h < n \<Longrightarrow> T' h = T h) \<Longrightarrow> stored n T' = stored n T"
  by (auto simp: stored_def)

lemma probe_wf_stored_cong:
  assumes wf: "probe_wf n home T" and T: "\<And>h. h < n \<Longrightarrow> T' h = T h"
    and home: "\<And>i. i \<in> stored n T \<Longrightarrow> home' i = home i"
  shows "probe_wf n home' T'"
  unfolding probe_wf_def
proof (intro conjI allI impI)
  fix h assume h: "h < n" "T' h \<noteq> 0"
  then have e: "T' h = T h" "T h \<noteq> 0" "home' (T h) = home (T h)"
    using T home [of "T h"] by (auto simp: stored_def)
  note w = probe_wfD [OF wf h(1) e(2)]
  show "T' h < n" "home' (T' h) < n" using e w by simp_all
  show "T' k \<noteq> 0" if "on_way n (home' (T' h)) h k" for k
    using that w(3) [of k] T [of k] e by (simp add: on_way_def)
next
  fix h h' assume h: "h < n" "h' < n" "T' h = T' h'" "T' h \<noteq> 0"
  then show "h = h'" using probe_wfD(4) [OF wf, of h' h] T by simp
qed

end
