(* ===== verification/Ipc_Hash.thy ===== *)
theory Ipc_Hash
  imports Ipc_Space Linear_Probing "HOL-Library.Multiset"
begin

text \<open>
  The reverse hash tables of ipc/ipc_hash.c, which find the entry of a space that holds a
  send right for a given object.

  The local table of a space is an open-addressing table with linear probing whose slots
  are the \<open>ie_index\<close> fields of the space's table.  The global table holds tree entries; it
  is an array of buckets with move-to-front, and a tree entry is identified by its space
  and its name.  The address of the space, \<open>is\<close>, is an argument besides the structure.
\<close>

subsection \<open>The local table\<close>

definition IH_LOCAL_HASH :: "addr \<Rightarrow> nat \<Rightarrow> nat" where
  "IH_LOCAL_HASH obj sz = unat (drop_bit 6 obj) mod sz"

text \<open>The probe loops: advance (\<open>if (++hindex == size) hindex = 0\<close> is \<open>next_slot\<close>) to the first
  slot at which \<open>stop\<close> holds.  The loops of the C
  code have no bound; \<open>size\<close> probes are fuel enough when some slot stops the loop.  \<open>None\<close> is
  running out of fuel or an access outside the table.\<close>

fun probe :: "nat \<Rightarrow> (nat \<Rightarrow> bool option) \<Rightarrow> nat \<Rightarrow> nat \<Rightarrow> nat option" where
  "probe 0 stop sz h = None"
| "probe (Suc fuel) stop sz h =
     do {
       s \<leftarrow> stop h;
       if s then Some h else probe fuel stop sz (next_slot sz h)
     }"

definition slot_at :: "ipc_entry list \<Rightarrow> nat \<Rightarrow> nat option" where
  "slot_at t h = map_option ie_index (nth_opt t h)"

definition ipc_hash_local_lookup ::
  "ipc_space \<Rightarrow> addr \<Rightarrow> (mach_port \<times> ipc_entry_ref) option option" where
  "ipc_hash_local_lookup sp obj =
     do {
       kassert (obj \<noteq> 0);
       let t = is_table sp;
       let sz = is_table_size sp;
       h \<leftarrow> probe sz
             (\<lambda>h. do {
                index \<leftarrow> slot_at t h;
                if index = 0 then Some True
                else do { entry \<leftarrow> nth_opt t index; Some (ie_object entry = obj) }
              }) sz (IH_LOCAL_HASH obj sz);
       index \<leftarrow> slot_at t h;
       if index = 0 then Some None
       else do {
         entry \<leftarrow> nth_opt t index;
         Some (Some (MACH_PORT_MAKEB (of_nat index) (ie_bits entry), TableEntry index))
       }
     }"

definition ipc_hash_local_insert :: "ipc_space \<Rightarrow> addr \<Rightarrow> nat \<Rightarrow> ipc_space option" where
  "ipc_hash_local_insert sp obj index =
     do {
       kassert (index \<noteq> 0);
       kassert (obj \<noteq> 0);
       let t = is_table sp;
       let sz = is_table_size sp;
       entry \<leftarrow> nth_opt t index;
       kassert (ie_object entry = obj);
       h \<leftarrow> probe sz (\<lambda>h. map_option (\<lambda>s. s = 0) (slot_at t h)) sz (IH_LOCAL_HASH obj sz);
       Some (sp\<lparr>is_table := table_write t h (ie_index_update (\<lambda>_. index))\<rparr>)
     }"

text \<open>The nested loops of \<open>ipc_hash_local_delete\<close> as one: \<open>hindex\<close> is the hole, \<open>dindex\<close> the
  slot last examined.  Storing a displaced object in the hole makes its slot the new hole;
  at the end of the clump zero is stored in the hole.\<close>

fun local_delete_loop :: "nat \<Rightarrow> ipc_entry list \<Rightarrow> nat \<Rightarrow> nat \<Rightarrow> nat \<Rightarrow> ipc_entry list option" where
  "local_delete_loop 0 t sz hindex dindex = None"
| "local_delete_loop (Suc fuel) t sz hindex dindex =
     (let d = next_slot sz dindex in
      do {
        kassert (d \<noteq> hindex);
        index \<leftarrow> slot_at t d;
        if index = 0 then Some (table_write t hindex (ie_index_update (\<lambda>_. 0)))
        else do {
          tentry \<leftarrow> nth_opt t index;
          let tobj = ie_object tentry;
          kassert (tobj \<noteq> 0);
          let tindex = IH_LOCAL_HASH tobj sz;
          if (if d < hindex then d < tindex \<and> tindex \<le> hindex else d < tindex \<or> tindex \<le> hindex)
          then local_delete_loop fuel (table_write t hindex (ie_index_update (\<lambda>_. index))) sz d d
          else local_delete_loop fuel t sz hindex d
        }
      })"

definition ipc_hash_local_delete :: "ipc_space \<Rightarrow> addr \<Rightarrow> nat \<Rightarrow> ipc_space option" where
  "ipc_hash_local_delete sp obj index =
     do {
       kassert (index \<noteq> 0);
       kassert (obj \<noteq> 0);
       let t = is_table sp;
       let sz = is_table_size sp;
       entry \<leftarrow> nth_opt t index;
       kassert (ie_object entry = obj);
       h \<leftarrow> probe sz (\<lambda>h. map_option (\<lambda>s. s = index) (slot_at t h)) sz (IH_LOCAL_HASH obj sz);
       t' \<leftarrow> local_delete_loop sz t sz h h;
       Some (sp\<lparr>is_table := t'\<rparr>)
     }"

subsection \<open>The global table\<close>

record ipc_hash_global =
  ipc_hash_global_mask :: u32
  ipc_hash_global_table :: "(addr \<times> mach_port) list list"  \<comment> \<open>the buckets, head first\<close>

definition IH_GLOBAL_HASH :: "ipc_hash_global \<Rightarrow> addr \<Rightarrow> addr \<Rightarrow> nat" where
  "IH_GLOBAL_HASH g is obj = unat ((drop_bit 4 is + drop_bit 6 obj) AND ipc_hash_global_mask g)"

definition set_bucket :: "ipc_hash_global \<Rightarrow> nat \<Rightarrow> (addr \<times> mach_port) list \<Rightarrow> ipc_hash_global" where
  "set_bucket g i b = g\<lparr>ipc_hash_global_table := (ipc_hash_global_table g)[i := b]\<rparr>"

text \<open>The search of a bucket; \<open>seen\<close> are the entries passed.  A hit in front leaves the bucket
  alone, a later one is moved to the front.  Only for an entry of the same space does the
  outcome of the comparison depend on its \<open>ite_object\<close>.\<close>

fun global_search ::
  "ipc_space \<Rightarrow> addr \<Rightarrow> addr \<Rightarrow> (addr \<times> mach_port) list \<Rightarrow> (addr \<times> mach_port) list \<Rightarrow>
     (mach_port option \<times> (addr \<times> mach_port) list) option" where
  "global_search sp is obj seen [] = Some (None, seen)"
| "global_search sp is obj seen (this # rest) =
     (if fst this \<noteq> is then global_search sp is obj (seen @ [this]) rest
      else do {
        e \<leftarrow> splay_map (is_tree sp) (snd this);
        if ie_object e = obj then Some (Some (snd this), this # seen @ rest)
        else global_search sp is obj (seen @ [this]) rest
      })"

definition ipc_hash_global_lookup ::
  "ipc_hash_global \<Rightarrow> addr \<Rightarrow> ipc_space \<Rightarrow> addr \<Rightarrow> (mach_port option \<times> ipc_hash_global) option" where
  "ipc_hash_global_lookup g is sp obj =
     do {
       kassert (is \<noteq> 0);
       kassert (obj \<noteq> 0);
       let i = IH_GLOBAL_HASH g is obj;
       bucket \<leftarrow> nth_opt (ipc_hash_global_table g) i;
       (res, bucket') \<leftarrow> global_search sp is obj [] bucket;
       Some (res, set_bucket g i bucket')
     }"

definition ipc_hash_global_insert ::
  "ipc_hash_global \<Rightarrow> addr \<Rightarrow> ipc_space \<Rightarrow> addr \<Rightarrow> mach_port \<Rightarrow> (ipc_hash_global \<times> ipc_space) option" where
  "ipc_hash_global_insert g is sp obj name =
     do {
       e \<leftarrow> splay_map (is_tree sp) name;
       kassert (is \<noteq> 0);
       kassert (obj \<noteq> 0);
       kassert (ie_object e = obj);
       let sp = sp\<lparr>is_tree_hash := is_tree_hash sp + 1\<rparr>;
       kassert (is_tree_hash sp \<le> is_tree_total sp);
       let i = IH_GLOBAL_HASH g is obj;
       bucket \<leftarrow> nth_opt (ipc_hash_global_table g) i;
       Some (set_bucket g i ((is, name) # bucket), sp)
     }"

text \<open>The entry removed need not be in the tree of the structure at hand: the callers in
  ipc/ipc_entry.c take the tree apart first.  The tree entry \<open>e\<close> is an argument.\<close>

definition ipc_hash_global_delete ::
  "ipc_hash_global \<Rightarrow> addr \<Rightarrow> ipc_space \<Rightarrow> addr \<Rightarrow> mach_port \<Rightarrow> ipc_entry \<Rightarrow>
     (ipc_hash_global \<times> ipc_space) option" where
  "ipc_hash_global_delete g is sp obj name e =
     do {
       kassert (is \<noteq> 0);
       kassert (obj \<noteq> 0);
       kassert (ie_object e = obj);
       kassert (is_tree_hash sp > 0);
       let sp = sp\<lparr>is_tree_hash := is_tree_hash sp - 1\<rparr>;
       let i = IH_GLOBAL_HASH g is obj;
       bucket \<leftarrow> nth_opt (ipc_hash_global_table g) i;
       kassert ((is, name) \<in> set bucket);
       Some (set_bucket g i (remove1 (is, name) bucket), sp)
     }"

subsection \<open>The common interface\<close>

definition is_table_entry :: "ipc_space \<Rightarrow> mach_port \<Rightarrow> ipc_entry_ref \<Rightarrow> bool" where
  "is_table_entry sp name entry \<longleftrightarrow>
     port_index name < is_table_size sp \<and> entry = TableEntry (port_index name)"

definition ipc_hash_lookup ::
  "ipc_hash_global \<Rightarrow> addr \<Rightarrow> ipc_space \<Rightarrow> addr \<Rightarrow>
     ((mach_port \<times> ipc_entry_ref) option \<times> ipc_hash_global) option" where
  "ipc_hash_lookup g is sp obj =
     do {
       found \<leftarrow> ipc_hash_local_lookup sp obj;
       case found of
         Some r \<Rightarrow> Some (Some r, g)
       | None \<Rightarrow>
           if is_tree_hash sp > 0
           then do {
             (res, g') \<leftarrow> ipc_hash_global_lookup g is sp obj;
             Some (map_option (\<lambda>name. (name, TreeEntry name)) res, g')
           }
           else Some (None, g)
     }"

definition ipc_hash_insert ::
  "ipc_hash_global \<Rightarrow> addr \<Rightarrow> ipc_space \<Rightarrow> addr \<Rightarrow> mach_port \<Rightarrow> ipc_entry_ref \<Rightarrow>
     (ipc_hash_global \<times> ipc_space) option" where
  "ipc_hash_insert g is sp obj name entry =
     (if is_table_entry sp name entry
      then do { sp' \<leftarrow> ipc_hash_local_insert sp obj (port_index name); Some (g, sp') }
      else ipc_hash_global_insert g is sp obj name)"

definition ipc_hash_delete ::
  "ipc_hash_global \<Rightarrow> addr \<Rightarrow> ipc_space \<Rightarrow> addr \<Rightarrow> mach_port \<Rightarrow> ipc_entry_ref \<Rightarrow>
     (ipc_hash_global \<times> ipc_space) option" where
  "ipc_hash_delete g is sp obj name entry =
     (if is_table_entry sp name entry
      then do { sp' \<leftarrow> ipc_hash_local_delete sp obj (port_index name); Some (g, sp') }
      else do { e \<leftarrow> get_entry sp entry; ipc_hash_global_delete g is sp obj name e })"

subsection \<open>Initialisation\<close>



subsection \<open>The local table is a set of entries, found by their objects\<close>

definition slots :: "ipc_entry list \<Rightarrow> nat \<Rightarrow> nat" where
  "slots t h = ie_index (t ! h)"

definition homes :: "ipc_entry list \<Rightarrow> nat \<Rightarrow> nat" where
  "homes t i = IH_LOCAL_HASH (ie_object (t ! i)) (length t)"

definition hashed :: "ipc_entry list \<Rightarrow> nat set" where
  "hashed t = stored (length t) (slots t)"

definition local_wf :: "ipc_entry list \<Rightarrow> bool" where
  "local_wf t \<longleftrightarrow> t \<noteq> [] \<and> probe_wf (length t) (homes t) (slots t) \<and> (\<forall>i\<in>hashed t. ie_object (t ! i) \<noteq> 0)"

text \<open>The table without its \<open>ie_index\<close> fields.\<close>

definition strip :: "ipc_entry list \<Rightarrow> ipc_entry list" where
  "strip t = map (ie_index_update (\<lambda>_. 0)) t"

lemma strip_table_write [simp]:
  "strip (table_write t h (ie_index_update f)) = strip t"
  by (cases "h < length t")
    (auto simp: strip_def table_write_def list_eq_iff_nth_eq nth_list_update list_update_beyond)

lemma strip_eqD:
  assumes "strip t' = strip t"
  shows "length t' = length t" "i < length t \<Longrightarrow> ie_object (t' ! i) = ie_object (t ! i)"
    "i < length t \<Longrightarrow> ie_bits (t' ! i) = ie_bits (t ! i)"
    "i < length t \<Longrightarrow> ie_request (t' ! i) = ie_request (t ! i)"
proof -
  show l: "length t' = length t"
    using arg_cong [OF assms, of length] by (simp add: strip_def)
  have "ie_index_update (\<lambda>_. 0) (t' ! i) = ie_index_update (\<lambda>_. 0) (t ! i)" if "i < length t"
    using arg_cong [OF assms, of "\<lambda>xs. xs ! i"] that l by (simp add: strip_def)
  then show "i < length t \<Longrightarrow> ie_object (t' ! i) = ie_object (t ! i)"
    "i < length t \<Longrightarrow> ie_bits (t' ! i) = ie_bits (t ! i)"
    "i < length t \<Longrightarrow> ie_request (t' ! i) = ie_request (t ! i)"
    by (metis ipc_entry.surjective ipc_entry.update_convs(4) ipc_entry.ext_inject)+
qed

lemma IH_LOCAL_HASH_less [simp]: "0 < n \<Longrightarrow> IH_LOCAL_HASH obj n < n"
  by (simp add: IH_LOCAL_HASH_def)

lemma homes_less [simp]: "t \<noteq> [] \<Longrightarrow> homes t i < length t"
  by (simp add: homes_def)

lemma hashed_bounds: "local_wf t \<Longrightarrow> i \<in> hashed t \<Longrightarrow> 0 < i \<and> i < length t \<and> ie_object (t ! i) \<noteq> 0"
  by (auto simp: local_wf_def hashed_def stored_def dest: probe_wfD(1))

text \<open>The probe loop finds the first slot that stops it.\<close>

lemma on_way_next_slot:
  assumes "h < n" "h' < n" "on_way n h h' k" "k \<noteq> h"
  shows "on_way n (next_slot n h) h' k"
proof -
  have k: "k < n" "cdist n h k < cdist n h h'" using assms(3) by (simp_all add: on_way_def)
  then have "h \<noteq> h'" by auto
  then show ?thesis
    using k assms cdist_next_slot [of h n k] cdist_next_slot [of h n h'] by (simp add: on_way_def)
qed

lemma probe_first:
  assumes "h < n" "p < n" "stop p = Some True" "cdist n h p < fuel" "\<And>k. k < n \<Longrightarrow> stop k \<noteq> None"
  shows "\<exists>h'. probe fuel stop n h = Some h' \<and> h' < n \<and> stop h' = Some True \<and>
    (\<forall>k. on_way n h h' k \<longrightarrow> stop k = Some False)"
  using assms(1,4)
proof (induction fuel arbitrary: h)
  case (Suc fuel)
  then obtain s where s: "stop h = Some s" using assms(5) by blast
  show ?case
  proof (cases s)
    case True
    then show ?thesis using s Suc.prems(1) by (auto simp: on_way_def)
  next
    case False
    then have "h \<noteq> p" using s assms(3) by auto
    then have "cdist n (next_slot n h) p < fuel"
      using cdist_next_slot [OF Suc.prems(1) assms(2)] Suc.prems(2) by simp
    from Suc.IH [OF _ this] Suc.prems(1) obtain h' where
      h': "probe fuel stop n (next_slot n h) = Some h'" "h' < n" "stop h' = Some True"
      "\<forall>k. on_way n (next_slot n h) h' k \<longrightarrow> stop k = Some False" by auto
    have "stop k = Some False" if "on_way n h h' k" for k
      using that s False h'(4) on_way_next_slot [OF Suc.prems(1) h'(2) that] by (cases "k = h") auto
    then show ?thesis using h' s False by auto
  qed
qed simp

lemma slot_at_eq: "h < length t \<Longrightarrow> slot_at t h = Some (slots t h)"
  by (simp add: slot_at_def slots_def nth_opt_def)

lemma hashedE:
  assumes "i \<in> hashed t"
  obtains p where "p < length t" "slots t p = i" "i \<noteq> 0"
  using assms by (auto simp: hashed_def stored_def)

lemma slots_hashed: "p < length t \<Longrightarrow> slots t p \<noteq> 0 \<Longrightarrow> slots t p \<in> hashed t"
  by (auto simp: hashed_def stored_def)

lemma local_lookup_correct:
  assumes wf: "local_wf (is_table sp)" and sz: "is_table_size sp = length (is_table sp)" and obj: "obj \<noteq> 0"
  obtains (none) "ipc_hash_local_lookup sp obj = Some None"
      "\<And>i. i \<in> hashed (is_table sp) \<Longrightarrow> ie_object (is_table sp ! i) \<noteq> obj"
  | (found) i where "i \<in> hashed (is_table sp)" "ie_object (is_table sp ! i) = obj"
      "ipc_hash_local_lookup sp obj =
         Some (Some (MACH_PORT_MAKEB (of_nat i) (ie_bits (is_table sp ! i)), TableEntry i))"
proof -
  let ?t = "is_table sp" let ?n = "length ?t"
  let ?stop = "\<lambda>h. do {
      index \<leftarrow> slot_at ?t h;
      if index = 0 then Some True
      else do { entry \<leftarrow> nth_opt ?t index; Some (ie_object entry = obj) } }"
  note pw = wf [unfolded local_wf_def]
  have n: "0 < ?n" using pw by simp
  have stop: "?stop h = Some (slots ?t h = 0 \<or> ie_object (?t ! slots ?t h) = obj)" if "h < ?n" for h
    using that hashed_bounds [OF wf slots_hashed [OF that]] by (auto simp: slot_at_eq)
  let ?h = "IH_LOCAL_HASH obj ?n"
  obtain z where z: "z < ?n" "slots ?t z = 0"
    using empty_slot pw n by blast
  have "?h < ?n" using n by simp
  moreover have "?stop z = Some True" using stop z by simp
  ultimately obtain h where h: "probe ?n ?stop ?n ?h = Some h" "h < ?n" "?stop h = Some True"
      "\<forall>k. on_way ?n ?h h k \<longrightarrow> ?stop k = Some False"
    using probe_first [of ?h ?n z ?stop ?n] z cdist_less stop by blast
  show thesis
  proof (cases "slots ?t h = 0")
    case True
    have "ie_object (?t ! i) \<noteq> obj" if i: "i \<in> hashed ?t" for i
    proof
      assume o: "ie_object (?t ! i) = obj"
      obtain p where p: "p < ?n" "slots ?t p = i" "i \<noteq> 0" by (rule hashedE [OF i])
      have home: "homes ?t (slots ?t p) = ?h" using p o by (simp add: homes_def)
      have "\<not> on_way ?n ?h h p" using h(4) stop [OF p(1)] p o by auto
      moreover have "\<not> on_way ?n ?h p h"
        using probe_wfD(3) [of ?n "homes ?t" "slots ?t" p h] pw p True home by auto
      ultimately have "cdist ?n ?h h = cdist ?n ?h p"
        using p h(2) by (simp add: on_way_def)
      then have "h = p" using n p(1) h(2) by (simp add: cdist_inj)
      then show False using True p by simp
    qed
    moreover have "ipc_hash_local_lookup sp obj = Some None"
      using h(1,2) True obj by (simp add: ipc_hash_local_lookup_def Let_def sz slot_at_eq)
    ultimately show thesis by (intro none)
  next
    case False
    let ?i = "slots ?t h"
    have i: "?i \<in> hashed ?t" using h(2) False by (rule slots_hashed)
    moreover have "ie_object (?t ! ?i) = obj" using h(2,3) stop False by auto
    moreover have "ipc_hash_local_lookup sp obj =
        Some (Some (MACH_PORT_MAKEB (of_nat ?i) (ie_bits (?t ! ?i)), TableEntry ?i))"
      using h(1,2) False obj hashed_bounds [OF wf i] by (simp add: ipc_hash_local_lookup_def Let_def sz slot_at_eq)
    ultimately show thesis by (rule found)
  qed
qed

lemma slots_table_write:
  "h < length t \<Longrightarrow> slots (table_write t h (ie_index_update (\<lambda>_. i))) = (slots t)(h := i)"
  by (auto simp: slots_def fun_eq_iff nth_table_write)

lemma homes_strip: "strip t' = strip t \<Longrightarrow> i < length t \<Longrightarrow> homes t' i = homes t i"
  using strip_eqD(1) [of t' t] strip_eqD(2) [of t' t i] by (simp add: homes_def)

lemma local_wfI:
  assumes "strip t' = strip t" "t \<noteq> []" "probe_wf (length t) (homes t) (slots t')"
    and "\<And>i. i \<in> hashed t' \<Longrightarrow> i < length t \<and> ie_object (t ! i) \<noteq> 0"
  shows "local_wf t'"
proof -
  note l = strip_eqD(1) [OF assms(1)]
  then have "t' \<noteq> []" using assms(2) by auto
  moreover have "probe_wf (length t') (homes t') (slots t')"
    unfolding l using probe_wf_cong [of "length t" "homes t'" "homes t" "slots t'"] homes_strip [OF assms(1)] assms(3)
    by blast
  moreover have "ie_object (t' ! i) \<noteq> 0" if "i \<in> hashed t'" for i
    using assms(4) [OF that] strip_eqD(2) [OF assms(1)] by simp
  ultimately show ?thesis unfolding local_wf_def by blast
qed

lemma local_insert_correct:
  assumes wf: "local_wf (is_table sp)" and sz: "is_table_size sp = length (is_table sp)"
    and i: "0 < i" "i < length (is_table sp)" "i \<notin> hashed (is_table sp)"
    and obj: "ie_object (is_table sp ! i) = obj" "obj \<noteq> 0"
  shows "\<exists>t'. ipc_hash_local_insert sp obj i = Some (sp\<lparr>is_table := t'\<rparr>) \<and>
    strip t' = strip (is_table sp) \<and> local_wf t' \<and> hashed t' = insert i (hashed (is_table sp))"
proof -
  let ?t = "is_table sp" let ?n = "length ?t" let ?h = "IH_LOCAL_HASH obj ?n"
  let ?stop = "\<lambda>h. map_option (\<lambda>s. s = 0) (slot_at ?t h)"
  note pw = wf [unfolded local_wf_def]
  have n: "0 < ?n" using pw by simp
  obtain z where z: "z < ?n" "slots ?t z = 0" using empty_slot pw n by blast
  have "?h < ?n" using n by simp
  then obtain h where h: "probe ?n ?stop ?n ?h = Some h" "h < ?n" "?stop h = Some True"
      "\<forall>k. on_way ?n ?h h k \<longrightarrow> ?stop k = Some False"
    using probe_first [of ?h ?n z ?stop ?n] z cdist_less by (auto simp: slot_at_eq)
  let ?t' = "table_write ?t h (ie_index_update (\<lambda>_. i))"
  have home: "homes ?t i = ?h" using obj by (simp add: homes_def)
  have way: "slots ?t k \<noteq> 0" if "on_way ?n (homes ?t i) h k" for k
    using that h(4) home by (auto simp: on_way_def slot_at_eq)
  have slots': "slots ?t' = (slots ?t)(h := i)" using h(2) by (rule slots_table_write)
  have ins: "probe_wf ?n (homes ?t) ((slots ?t)(h := i))" "hashed ?t' = insert i (hashed ?t)"
    using probe_wf_insert [of ?n "homes ?t" "slots ?t" h i] pw h(2,3) i way
    by (simp_all add: hashed_def slot_at_eq slots')
  have "local_wf ?t'"
  proof (rule local_wfI [OF strip_table_write])
    show "i' < ?n \<and> ie_object (?t ! i') \<noteq> 0" if "i' \<in> hashed ?t'" for i'
      using that ins(2) i obj hashed_bounds [OF wf] by auto
  qed (use pw ins slots' in auto)
  then show ?thesis
    using h(1) i obj ins(2) by (intro exI [of _ ?t']) (simp add: ipc_hash_local_insert_def Let_def sz)
qed

lemma local_delete_loop_correct:
  assumes "hole_wf (length t) (homes t) (slots t) h d"
    and "z < length t" "slots t z = 0" "z \<noteq> h" "cdist (length t) h d < cdist (length t) h z"
    and "cdist (length t) d z \<le> fuel"
    and "\<And>i. i \<in> stored (length t) ((slots t)(h := 0)) \<Longrightarrow> i < length t \<and> ie_object (t ! i) \<noteq> 0"
  shows "\<exists>t'. local_delete_loop fuel t (length t) h d = Some t' \<and> strip t' = strip t \<and>
    local_wf t' \<and> hashed t' = stored (length t) ((slots t)(h := 0))"
  using assms
proof (induction fuel arbitrary: t h d)
  case 0
  have "d < length t" using "0.prems"(1) by (auto simp only: hole_wf_def)
  then have "d = z" using cdist_eq_0 [of d "length t" z] "0.prems"(2,6) by simp
  with "0.prems"(5) show ?case by simp
next
  case (Suc fuel)
  let ?n = "length t" let ?d = "next_slot ?n d" let ?i = "slots t ?d"
  have hd: "h < ?n" "d < ?n" using Suc.prems(1) by (auto simp only: hole_wf_def)
  have dz: "d \<noteq> z" using Suc.prems(5) by auto
  have dh: "?d \<noteq> h"
  proof
    assume "?d = h"
    then have "cdist ?n h d = ?n - 1" using hd by (auto simp: next_slot_def cdist_def split: if_splits)
    then show False using Suc.prems(5) cdist_less [OF hd(1) Suc.prems(2)] by simp
  qed
  have fuel: "cdist ?n ?d z \<le> fuel"
    using Suc.prems(6) cdist_next_slot [OF hd(2) Suc.prems(2) dz] by simp
  show ?case
  proof (cases "?i = 0")
    case True
    let ?t' = "table_write t h (ie_index_update (\<lambda>_. 0))"
    have sl: "slots ?t' = (slots t)(h := 0)" using hd(1) by (rule slots_table_write)
    have hashed: "hashed ?t' = stored ?n ((slots t)(h := 0))" by (simp add: hashed_def sl)
    have "local_wf ?t'"
    proof (rule local_wfI [OF strip_table_write])
      show "t \<noteq> []" using hd by auto
      show "probe_wf ?n (homes t) (slots ?t')"
        unfolding sl using Suc.prems(1) dh True by (rule hole_wf_finish)
    qed (use Suc.prems(7) hashed in blast)
    moreover have "local_delete_loop (Suc fuel) t ?n h d = Some ?t'"
      using True dh hd(2) by (simp add: slot_at_eq)
    ultimately show ?thesis using hashed by (intro exI [of _ ?t']) (simp only: strip_table_write)
  next
    case False
    have "?i \<in> stored ?n ((slots t)(h := 0))"
      using False dh hd by (simp add: stored_update)
    then have i: "?i < ?n" "ie_object (t ! ?i) \<noteq> 0"
      using Suc.prems(7) by blast+
    have home: "homes t ?i < ?n" using hd by (intro homes_less) auto
    have disp: "(if ?d < h then ?d < homes t ?i \<and> homes t ?i \<le> h else ?d < homes t ?i \<or> homes t ?i \<le> h) \<longleftrightarrow>
        on_way ?n (homes t ?i) ?d h"
      using displaced_iff [OF next_slot_less [OF hd(2)] hd(1) home dh] hd(1)
      unfolding on_way_def by blast
    have unfold: "local_delete_loop (Suc fuel) t ?n h d =
       (if on_way ?n (homes t ?i) ?d h
        then local_delete_loop fuel (table_write t h (ie_index_update (\<lambda>_. ?i))) ?n ?d ?d
        else local_delete_loop fuel t ?n h ?d)"
      using i False dh hd(2)
      by (simp add: slot_at_eq disp [unfolded homes_def] Let_def homes_def del: if_split)
    show ?thesis
    proof (cases "on_way ?n (homes t ?i) ?d h")
      case True
      let ?t = "table_write t h (ie_index_update (\<lambda>_. ?i))"
      have sl: "slots ?t = (slots t)(h := ?i)" using hd(1) by (rule slots_table_write)
      note mv = hole_wf_move [OF Suc.prems(1) dh False True]
      have f1: "hole_wf ?n (homes ?t) (slots ?t) ?d ?d"
        unfolding sl using mv(1) hole_wf_cong [of ?n "homes ?t" "homes t"] homes_strip [OF strip_table_write]
        by blast
      have f2: "slots ?t z = 0" "z \<noteq> ?d" using Suc.prems(3,4) sl False by auto
      have f3: "cdist ?n ?d ?d < cdist ?n ?d z"
        using cdist_eq_0 [of ?d ?n z] f2(2) Suc.prems(2) hd by auto
      have f4: "i < ?n \<and> ie_object (?t ! i) \<noteq> 0" if "i \<in> stored ?n ((slots ?t)(?d := 0))" for i
      proof -
        have "i < ?n \<and> ie_object (t ! i) \<noteq> 0"
          using that unfolding sl mv(2) by (rule Suc.prems(7))
        then show ?thesis using strip_eqD(2) [OF strip_table_write, of i t] by simp
      qed
      obtain t' where "local_delete_loop fuel ?t ?n ?d ?d = Some t'" "strip t' = strip ?t"
        "local_wf t'" "hashed t' = stored ?n ((slots ?t)(?d := 0))"
        using Suc.IH [of ?t ?d ?d, unfolded length_table_write, OF f1 Suc.prems(2) f2 f3 fuel f4] by blast
      then show ?thesis
        using True mv(2) unfolding unfold sl by (intro exI [of _ t']) (simp only: if_True strip_table_write)
    next
      case nodisp: False
      have "cdist ?n h ?d < cdist ?n h z"
      proof -
        have "?d \<noteq> z" using False Suc.prems(3) by metis
        then show ?thesis
          using cdist_inj [of h ?n ?d z] cdist_to_next_slot [OF hd dh] Suc.prems(2,5) hd by simp
      qed
      then show ?thesis
        using Suc.IH [OF hole_wf_skip [OF Suc.prems(1) dh nodisp] Suc.prems(2,3,4) _ fuel Suc.prems(7)] nodisp
        unfolding unfold by (simp only: if_False)
    qed
  qed
qed

lemma local_delete_correct:
  assumes wf: "local_wf (is_table sp)" and sz: "is_table_size sp = length (is_table sp)"
    and i: "i \<in> hashed (is_table sp)" and obj: "ie_object (is_table sp ! i) = obj"
  shows "\<exists>t'. ipc_hash_local_delete sp obj i = Some (sp\<lparr>is_table := t'\<rparr>) \<and>
    strip t' = strip (is_table sp) \<and> local_wf t' \<and> hashed t' = hashed (is_table sp) - {i}"
proof -
  let ?t = "is_table sp" let ?n = "length ?t" let ?h = "IH_LOCAL_HASH obj ?n"
  let ?stop = "\<lambda>h. map_option (\<lambda>s. s = i) (slot_at ?t h)"
  note pw = wf [unfolded local_wf_def, THEN conjunct2, THEN conjunct1]
  note b = hashed_bounds [OF wf i]
  have n: "0 < ?n" using b by linarith
  obtain p where p: "p < ?n" "slots ?t p = i" "i \<noteq> 0" by (rule hashedE [OF i])
  have "?h < ?n" using n by simp
  then obtain h where h: "probe ?n ?stop ?n ?h = Some h" "h < ?n" "?stop h = Some True"
    using probe_first [of ?h ?n p ?stop ?n] p cdist_less by (auto simp: slot_at_eq)
  have hi: "slots ?t h = i" using h(2,3) by (simp add: slot_at_eq)
  note start = hole_wf_start [OF pw h(2), unfolded hi, OF p(3)]
  obtain z where z: "z < ?n" "slots ?t z = 0" using empty_slot [OF pw n] by blast
  have zh: "z \<noteq> h" using z(2) hi p(3) by auto
  have "cdist ?n h h < cdist ?n h z" using cdist_eq_0 [OF h(2) z(1)] zh by auto
  moreover have "cdist ?n h z \<le> ?n" using cdist_less [OF h(2) z(1)] by simp
  moreover have "j < ?n \<and> ie_object (?t ! j) \<noteq> 0" if "j \<in> stored ?n ((slots ?t)(h := 0))" for j
    using that hashed_bounds [OF wf] unfolding start(2) hashed_def by blast
  ultimately obtain t' where t': "local_delete_loop ?n ?t ?n h h = Some t'" "strip t' = strip ?t"
      "local_wf t'" "hashed t' = stored ?n ((slots ?t)(h := 0))"
    using local_delete_loop_correct [OF start(1) z zh] by blast
  have "ipc_hash_local_delete sp obj i = Some (sp\<lparr>is_table := t'\<rparr>)"
    using h(1) t'(1) b obj by (simp add: ipc_hash_local_delete_def Let_def sz)
  with t'(2,3) show ?thesis
    using t'(4) unfolding start(2) hashed_def [symmetric] by blast
qed

text \<open>An update of an entry that is not in the table does not disturb it.\<close>

lemma local_wf_cong:
  assumes wf: "local_wf t" and len: "length t' = length t"
    and index: "\<And>i. i < length t \<Longrightarrow> ie_index (t' ! i) = ie_index (t ! i)"
    and obj: "\<And>i. i \<in> hashed t \<Longrightarrow> ie_object (t' ! i) = ie_object (t ! i)"
  shows "local_wf t'" "hashed t' = hashed t"
proof -
  have T: "slots t' h = slots t h" if "h < length t" for h using index [OF that] by (simp add: slots_def)
  then show h: "hashed t' = hashed t"
    unfolding hashed_def len by (rule stored_cong)
  have "homes t' i = homes t i" if "i \<in> stored (length t) (slots t)" for i
    using obj that by (simp add: homes_def len hashed_def)
  then have "probe_wf (length t) (homes t') (slots t')"
    using wf T probe_wf_stored_cong unfolding local_wf_def by blast
  then show "local_wf t'"
    using wf obj h len unfolding local_wf_def by auto
qed

subsection \<open>The global table is a set of tree entries for every space\<close>

definition ghashed :: "ipc_hash_global \<Rightarrow> addr \<Rightarrow> mach_port set" where
  "ghashed g is = {n. (is, n) \<in> set (concat (ipc_hash_global_table g))}"

definition global_wf :: "ipc_hash_global \<Rightarrow> bool" where
  "global_wf g \<longleftrightarrow>
     length (ipc_hash_global_table g) = Suc (unat (ipc_hash_global_mask g)) \<and>
     distinct (concat (ipc_hash_global_table g))"

text \<open>The entries of the space \<open>is\<close> in the table are tree entries of the space, each in the
  bucket of its object.\<close>

definition global_in :: "ipc_hash_global \<Rightarrow> addr \<Rightarrow> (mach_port \<rightharpoonup> ipc_entry) \<Rightarrow> bool" where
  "global_in g is m \<longleftrightarrow>
     (\<forall>n\<in>ghashed g is. \<exists>e. m n = Some e \<and> ie_object e \<noteq> 0 \<and>
        (is, n) \<in> set (ipc_hash_global_table g ! IH_GLOBAL_HASH g is (ie_object e)))"

text \<open>The entries of the other spaces are as before.\<close>

definition others_kept :: "addr \<Rightarrow> ipc_hash_global \<Rightarrow> ipc_hash_global \<Rightarrow> bool" where
  "others_kept is g g' \<longleftrightarrow>
     (\<forall>is'. is' \<noteq> is \<longrightarrow>
        ghashed g' is' = ghashed g is' \<and> (\<forall>m. global_in g is' m \<longrightarrow> global_in g' is' m))"

lemma others_kept_refl [simp]: "others_kept is g g"
  by (simp add: others_kept_def)

lemma others_kept_trans: "others_kept is g g' \<Longrightarrow> others_kept is g' g'' \<Longrightarrow> others_kept is g g''"
  by (simp add: others_kept_def)

lemma finite_ghashed [simp]: "finite (ghashed g is)"
proof -
  have "ghashed g is \<subseteq> snd ` set (concat (ipc_hash_global_table g))" by (force simp: ghashed_def)
  then show ?thesis by (rule finite_subset) simp
qed

text \<open>Tables that hold the same entries in every bucket, in any order.\<close>

definition same_buckets :: "ipc_hash_global \<Rightarrow> ipc_hash_global \<Rightarrow> bool" where
  "same_buckets g g' \<longleftrightarrow>
     ipc_hash_global_mask g' = ipc_hash_global_mask g \<and>
     map mset (ipc_hash_global_table g') = map mset (ipc_hash_global_table g)"

lemma IH_GLOBAL_HASH_less: "global_wf g \<Longrightarrow> IH_GLOBAL_HASH g is obj < length (ipc_hash_global_table g)"
  using word_and_le1 [of "drop_bit 4 is + drop_bit 6 obj" "ipc_hash_global_mask g"]
  by (simp add: global_wf_def IH_GLOBAL_HASH_def word_le_nat_alt le_imp_less_Suc)

lemma mset_concat_map: "mset (concat xs) = sum_list (map mset xs)"
  by (induction xs) simp_all

lemma same_buckets_concat:
  assumes "same_buckets g g'"
  shows "mset (concat (ipc_hash_global_table g')) = mset (concat (ipc_hash_global_table g))"
    "set (concat (ipc_hash_global_table g')) = set (concat (ipc_hash_global_table g))"
    "length (ipc_hash_global_table g') = length (ipc_hash_global_table g)"
    "i < length (ipc_hash_global_table g) \<Longrightarrow> set (ipc_hash_global_table g' ! i) = set (ipc_hash_global_table g ! i)"
proof -
  have m: "map mset (ipc_hash_global_table g') = map mset (ipc_hash_global_table g)"
    using assms by (simp add: same_buckets_def)
  show c: "mset (concat (ipc_hash_global_table g')) = mset (concat (ipc_hash_global_table g))"
    unfolding mset_concat_map m ..
  then show "set (concat (ipc_hash_global_table g')) = set (concat (ipc_hash_global_table g))"
    by (rule mset_eq_setD)
  show l: "length (ipc_hash_global_table g') = length (ipc_hash_global_table g)"
    using arg_cong [OF m, of length] by simp
  show "set (ipc_hash_global_table g' ! i) = set (ipc_hash_global_table g ! i)"
    if "i < length (ipc_hash_global_table g)"
    using arg_cong [OF m, of "\<lambda>xs. xs ! i"] that l by (intro mset_eq_setD) simp
qed

lemma same_buckets_keeps:
  assumes "same_buckets g g'" "global_wf g"
  shows "global_wf g'" "ghashed g' is = ghashed g is" "global_in g is m \<Longrightarrow> global_in g' is m"
proof -
  note c = same_buckets_concat [OF assms(1)]
  have m: "ipc_hash_global_mask g' = ipc_hash_global_mask g" using assms(1) by (simp add: same_buckets_def)
  show "global_wf g'"
    using assms(2) c m mset_eq_imp_distinct_iff [OF c(1)] by (simp add: global_wf_def)
  show gh: "ghashed g' is = ghashed g is" unfolding ghashed_def c(2) ..
  have "IH_GLOBAL_HASH g' is ob = IH_GLOBAL_HASH g is ob" for ob by (simp add: IH_GLOBAL_HASH_def m)
  then show "global_in g is m \<Longrightarrow> global_in g' is m"
    using c(4) IH_GLOBAL_HASH_less [OF assms(2)] unfolding global_in_def gh by simp
qed

lemma same_buckets_refl [simp]: "same_buckets g g"
  by (simp add: same_buckets_def)

lemma set_bucket_same:
  "i < length (ipc_hash_global_table g) \<Longrightarrow> mset b = mset (ipc_hash_global_table g ! i) \<Longrightarrow>
     same_buckets g (set_bucket g i b)"
  by (simp add: same_buckets_def set_bucket_def map_update list_update_same_conv)

lemma global_search_correct:
  assumes "\<And>n. (is, n) \<in> set bucket \<Longrightarrow> splay_map (is_tree sp) n \<noteq> None"
  shows "\<exists>res b. global_search sp is obj seen bucket = Some (res, b) \<and> mset b = mset (seen @ bucket) \<and>
    (case res of
       None \<Rightarrow> \<forall>n e. (is, n) \<in> set bucket \<longrightarrow> splay_map (is_tree sp) n = Some e \<longrightarrow> ie_object e \<noteq> obj
     | Some n \<Rightarrow> (is, n) \<in> set bucket \<and> (\<exists>e. splay_map (is_tree sp) n = Some e \<and> ie_object e = obj))"
  using assms
proof (induction bucket arbitrary: seen)
  case (Cons x rest)
  obtain is' n where x: "x = (is', n)" by (cases x)
  obtain res b where IH: "global_search sp is obj (seen @ [x]) rest = Some (res, b)"
    "mset b = mset ((seen @ [x]) @ rest)"
    "case res of
       None \<Rightarrow> \<forall>n e. (is, n) \<in> set rest \<longrightarrow> splay_map (is_tree sp) n = Some e \<longrightarrow> ie_object e \<noteq> obj
     | Some n \<Rightarrow> (is, n) \<in> set rest \<and> (\<exists>e. splay_map (is_tree sp) n = Some e \<and> ie_object e = obj)"
    using Cons.IH [of "seen @ [x]"] Cons.prems by auto
  show ?case
  proof (cases "is' = is")
    case True
    then obtain e where e: "splay_map (is_tree sp) n = Some e" using Cons.prems [of n] x by auto
    then show ?thesis
      using IH True x by (cases "ie_object e = obj") (auto split: option.splits)
  next
    case False
    then show ?thesis using IH x by (auto split: option.splits)
  qed
qed simp

lemma global_lookup_correct:
  assumes wf: "global_wf g" "global_in g is (splay_map (is_tree sp))" and "is \<noteq> 0" "obj \<noteq> 0"
  shows "\<exists>res g'. ipc_hash_global_lookup g is sp obj = Some (res, g') \<and> same_buckets g g' \<and>
    (case res of
       None \<Rightarrow> \<forall>n\<in>ghashed g is. \<forall>e. splay_map (is_tree sp) n = Some e \<longrightarrow> ie_object e \<noteq> obj
     | Some n \<Rightarrow> n \<in> ghashed g is \<and> (\<exists>e. splay_map (is_tree sp) n = Some e \<and> ie_object e = obj))"
proof -
  let ?i = "IH_GLOBAL_HASH g is obj" let ?b = "ipc_hash_global_table g ! ?i"
  have i: "?i < length (ipc_hash_global_table g)" using wf(1) by (rule IH_GLOBAL_HASH_less)
  have mem: "n \<in> ghashed g is" if "(is, n) \<in> set ?b" for n
    using that i by (auto simp: ghashed_def intro: nth_mem)
  have inb: "(is, n) \<in> set ?b" if "n \<in> ghashed g is" "splay_map (is_tree sp) n = Some e" "ie_object e = obj" for n e
    using that wf(2) unfolding global_in_def by force
  have total: "splay_map (is_tree sp) n \<noteq> None" if "(is, n) \<in> set ?b" for n
    using mem [OF that] wf(2) unfolding global_in_def by force
  obtain res b where r: "global_search sp is obj [] ?b = Some (res, b)" "mset b = mset ?b"
    "case res of
       None \<Rightarrow> \<forall>n e. (is, n) \<in> set ?b \<longrightarrow> splay_map (is_tree sp) n = Some e \<longrightarrow> ie_object e \<noteq> obj
     | Some n \<Rightarrow> (is, n) \<in> set ?b \<and> (\<exists>e. splay_map (is_tree sp) n = Some e \<and> ie_object e = obj)"
    using global_search_correct [of "is" ?b sp obj "[]", OF total] by auto
  show ?thesis
  proof (intro exI conjI)
    show "ipc_hash_global_lookup g is sp obj = Some (res, set_bucket g ?i b)"
      using r(1) i assms(3,4) by (simp add: ipc_hash_global_lookup_def Let_def)
    show "same_buckets g (set_bucket g ?i b)" by (rule set_bucket_same [OF i r(2)])
    show "case res of
       None \<Rightarrow> \<forall>n\<in>ghashed g is. \<forall>e. splay_map (is_tree sp) n = Some e \<longrightarrow> ie_object e \<noteq> obj
     | Some n \<Rightarrow> n \<in> ghashed g is \<and> (\<exists>e. splay_map (is_tree sp) n = Some e \<and> ie_object e = obj)"
    proof (cases res)
      case None
      then show ?thesis using r(3) inb by auto
    next
      case (Some n)
      then show ?thesis using r(3) mem by auto
    qed
  qed
qed

text \<open>Changing one bucket.\<close>

lemma mset_concat_update:
  "i < length xs \<Longrightarrow> mset (concat (xs[i := b])) + mset (xs ! i) = mset (concat xs) + mset b"
  by (induction xs arbitrary: i) (auto simp: nth_Cons split: nat.splits)

lemma global_table_set_bucket [simp]:
  "ipc_hash_global_mask (set_bucket g i b) = ipc_hash_global_mask g"
  "ipc_hash_global_table (set_bucket g i b) = (ipc_hash_global_table g)[i := b]"
  "IH_GLOBAL_HASH (set_bucket g i b) is obj = IH_GLOBAL_HASH g is obj"
  by (simp_all add: set_bucket_def IH_GLOBAL_HASH_def)

lemma bucket_Cons:
  fixes g i x defines "g' \<equiv> set_bucket g i (x # ipc_hash_global_table g ! i)"
  assumes i: "i < length (ipc_hash_global_table g)"
  shows "mset (concat (ipc_hash_global_table g')) = add_mset x (mset (concat (ipc_hash_global_table g)))"
    "set (concat (ipc_hash_global_table g')) = insert x (set (concat (ipc_hash_global_table g)))"
proof -
  show m: "mset (concat (ipc_hash_global_table g')) = add_mset x (mset (concat (ipc_hash_global_table g)))"
    using mset_concat_update [OF i, of "x # ipc_hash_global_table g ! i"] by (simp add: g'_def)
  show "set (concat (ipc_hash_global_table g')) = insert x (set (concat (ipc_hash_global_table g)))"
    using arg_cong [OF m, of set_mset] by (simp only: set_mset_mset set_mset_add_mset_insert)
qed

lemma bucket_remove1:
  fixes g i x defines "g' \<equiv> set_bucket g i (remove1 x (ipc_hash_global_table g ! i))"
  assumes i: "i < length (ipc_hash_global_table g)" and x: "x \<in> set (ipc_hash_global_table g ! i)"
    and d: "distinct (concat (ipc_hash_global_table g))"
  shows "distinct (concat (ipc_hash_global_table g'))"
    "set (concat (ipc_hash_global_table g')) = set (concat (ipc_hash_global_table g)) - {x}"
proof -
  have eq: "mset (concat (ipc_hash_global_table g')) + mset (ipc_hash_global_table g ! i) =
      mset (concat (ipc_hash_global_table g)) + (mset (ipc_hash_global_table g ! i) - {#x#})"
    using mset_concat_update [OF i, of "remove1 x (ipc_hash_global_table g ! i)"] by (simp add: g'_def)
  obtain B where B: "mset (ipc_hash_global_table g ! i) = add_mset x B"
    using multi_member_split [of x "mset (ipc_hash_global_table g ! i)"] x by auto
  have m: "add_mset x (mset (concat (ipc_hash_global_table g'))) = mset (concat (ipc_hash_global_table g))"
    using eq unfolding B by simp
  have "distinct (x # concat (ipc_hash_global_table g'))"
    using d mset_eq_imp_distinct_iff [of "x # concat (ipc_hash_global_table g')" "concat (ipc_hash_global_table g)"] m
    by simp
  moreover have "set (concat (ipc_hash_global_table g)) = insert x (set (concat (ipc_hash_global_table g')))"
    using arg_cong [OF m, of set_mset] by (simp only: set_mset_mset set_mset_add_mset_insert)
  ultimately show "distinct (concat (ipc_hash_global_table g'))"
    "set (concat (ipc_hash_global_table g')) = set (concat (ipc_hash_global_table g)) - {x}"
    by auto
qed

lemma global_insert_correct:
  assumes wf: "global_wf g" "global_in g is (splay_map (is_tree sp))" and nz: "is \<noteq> 0" "obj \<noteq> 0"
    and e: "splay_map (is_tree sp) name = Some e" "ie_object e = obj"
    and new: "name \<notin> ghashed g is" and room: "is_tree_hash sp < is_tree_total sp"
  shows "\<exists>g'. ipc_hash_global_insert g is sp obj name = Some (g', sp\<lparr>is_tree_hash := Suc (is_tree_hash sp)\<rparr>) \<and>
    global_wf g' \<and> ghashed g' is = insert name (ghashed g is) \<and> global_in g' is (splay_map (is_tree sp)) \<and>
    others_kept is g g'"
proof -
  let ?i = "IH_GLOBAL_HASH g is obj"
  let ?g = "set_bucket g ?i ((is, name) # ipc_hash_global_table g ! ?i)"
  have i: "?i < length (ipc_hash_global_table g)" using wf(1) by (rule IH_GLOBAL_HASH_less)
  note b = bucket_Cons [OF i, of "(is, name)"]
  have gh: "ghashed ?g is' = (if is' = is then insert name (ghashed g is) else ghashed g is')" for is'
    unfolding ghashed_def b(2) by auto
  have mono: "x \<in> set (ipc_hash_global_table ?g ! j)" if "x \<in> set (ipc_hash_global_table g ! j)" for x j
    using that i by (auto simp: nth_list_update)
  have keep: "global_in ?g is' m" if "global_in g is' m" "is' \<noteq> is" for is' m
    using that mono unfolding global_in_def gh by fastforce
  have "ipc_hash_global_insert g is sp obj name = Some (?g, sp\<lparr>is_tree_hash := Suc (is_tree_hash sp)\<rparr>)"
    using e nz room i by (simp add: ipc_hash_global_insert_def Let_def)
  moreover have "global_wf ?g"
    using wf(1) new mset_eq_imp_distinct_iff [of "concat (ipc_hash_global_table ?g)" "(is, name) # concat (ipc_hash_global_table g)"] b(1)
    by (simp add: global_wf_def ghashed_def)
  moreover have "global_in ?g is (splay_map (is_tree sp))"
    using wf(2) mono e nz(2) i unfolding global_in_def gh by fastforce
  ultimately show ?thesis using gh keep by (auto simp: others_kept_def)
qed

lemma global_delete_correct:
  assumes wf: "global_wf g" and nz: "is \<noteq> 0" "obj \<noteq> 0"
    and e: "ie_object e = obj" and old: "(is, name) \<in> set (ipc_hash_global_table g ! IH_GLOBAL_HASH g is obj)"
    and pos: "0 < is_tree_hash sp"
  shows "\<exists>g'. ipc_hash_global_delete g is sp obj name e = Some (g', sp\<lparr>is_tree_hash := is_tree_hash sp - 1\<rparr>) \<and>
    global_wf g' \<and> ghashed g' is = ghashed g is - {name} \<and>
    (\<forall>m m'. global_in g is m \<longrightarrow>
       (\<forall>n\<in>ghashed g is - {name}. m' n = m n) \<longrightarrow> global_in g' is m') \<and>
    others_kept is g g'"
proof -
  let ?i = "IH_GLOBAL_HASH g is obj"
  let ?g = "set_bucket g ?i (remove1 (is, name) (ipc_hash_global_table g ! ?i))"
  have i: "?i < length (ipc_hash_global_table g)" using wf by (rule IH_GLOBAL_HASH_less)
  have d: "distinct (concat (ipc_hash_global_table g))" using wf by (simp add: global_wf_def)
  note b = bucket_remove1 [OF i old d]
  have gh: "ghashed ?g is' = (if is' = is then ghashed g is - {name} else ghashed g is')" for is'
    unfolding ghashed_def b(2) by auto
  have mono: "x \<in> set (ipc_hash_global_table ?g ! j)" if "x \<in> set (ipc_hash_global_table g ! j)" "x \<noteq> (is, name)" for x j
    using that i by (auto simp: nth_list_update)
  have "global_in ?g is' m'"
    if gi: "global_in g is' m" and same: "\<forall>n\<in>ghashed ?g is'. m' n = m n" for is' m m'
    unfolding global_in_def
  proof
    fix n assume n: "n \<in> ghashed ?g is'"
    then have n': "n \<in> ghashed g is'" "(is', n) \<noteq> (is, name)" by (auto simp: gh split: if_splits)
    obtain e where "m n = Some e" "ie_object e \<noteq> 0"
        "(is', n) \<in> set (ipc_hash_global_table g ! IH_GLOBAL_HASH g is' (ie_object e))"
      using gi n'(1) unfolding global_in_def by blast
    then show "\<exists>e. m' n = Some e \<and> ie_object e \<noteq> 0 \<and>
        (is', n) \<in> set (ipc_hash_global_table ?g ! IH_GLOBAL_HASH ?g is' (ie_object e))"
      using same n mono n'(2) by (metis global_table_set_bucket(3))
  qed
  note keep = this
  have "ipc_hash_global_delete g is sp obj name e = Some (?g, sp\<lparr>is_tree_hash := is_tree_hash sp - 1\<rparr>)"
    using e nz pos i old by (simp add: ipc_hash_global_delete_def Let_def)
  moreover have "global_wf ?g" using wf b(1) by (simp add: global_wf_def)
  ultimately show ?thesis
    using gh keep [of "is"] keep [where m = m and m' = m for m]
    by (intro exI [of _ ?g]) (auto simp: others_kept_def)
qed

subsection \<open>Rounding up to a power of two\<close>





subsection \<open>Properties\<close>


text \<open>C16. Deleting an entry from the local reverse hash table closes the gap it leaves: the
  deletion returns without a failed assertion, the object of the deleted entry is no longer
  found, and every other entry is still found by its object, also those displaced by
  collisions.\<close>

theorem ipc_hash_local_delete_keeps_others:
  assumes "local_wf (is_table sp)" "is_table_size sp = length (is_table sp)"
    and inj: "inj_on (\<lambda>i. ie_object (is_table sp ! i)) (hashed (is_table sp))"
    and i: "i \<in> hashed (is_table sp)"
  shows "\<exists>sp'. ipc_hash_local_delete sp (ie_object (is_table sp ! i)) i = Some sp' \<and>
    ipc_hash_local_lookup sp' (ie_object (is_table sp ! i)) = Some None \<and>
    (\<forall>j\<in>hashed (is_table sp) - {i}.
       ipc_hash_local_lookup sp' (ie_object (is_table sp ! j)) =
         Some (Some (MACH_PORT_MAKEB (of_nat j) (ie_bits (is_table sp ! j)), TableEntry j)))"
proof -
  let ?t = "is_table sp"
  obtain t' where t': "ipc_hash_local_delete sp (ie_object (?t ! i)) i = Some (sp\<lparr>is_table := t'\<rparr>)"
      "strip t' = strip ?t" "local_wf t'" "hashed t' = hashed ?t - {i}"
    using local_delete_correct [OF assms(1,2) i refl] by blast
  let ?sp = "sp\<lparr>is_table := t'\<rparr>"
  have b: "j < length ?t" "ie_object (?t ! j) \<noteq> 0" if "j \<in> hashed ?t" for j
    using hashed_bounds [OF assms(1) that] by simp_all
  have ob: "ie_object (t' ! j) = ie_object (?t ! j)" "ie_bits (t' ! j) = ie_bits (?t ! j)" if "j \<in> hashed ?t" for j
    using strip_eqD(2,3) [OF t'(2) b(1) [OF that]] by simp_all
  have len: "is_table_size ?sp = length (is_table ?sp)"
    using assms(2) strip_eqD(1) [OF t'(2)] by simp
  have wf: "local_wf (is_table ?sp)" using t'(3) by simp
  have gone: "ipc_hash_local_lookup ?sp (ie_object (?t ! i)) = Some None"
  proof (cases rule: local_lookup_correct [OF wf len b(2) [OF i]])
    case 1 then show ?thesis by blast
  next
    case (2 j)
    then have "j \<in> hashed ?t" "j \<noteq> i" "ie_object (?t ! j) = ie_object (?t ! i)"
      using t'(4) ob by auto
    then show ?thesis using inj i by (auto dest: inj_onD)
  qed
  have "ipc_hash_local_lookup ?sp (ie_object (?t ! j)) =
      Some (Some (MACH_PORT_MAKEB (of_nat j) (ie_bits (?t ! j)), TableEntry j))"
    if j: "j \<in> hashed ?t - {i}" for j
  proof -
    have j': "j \<in> hashed ?t" using j by simp
    show ?thesis
    proof (cases rule: local_lookup_correct [OF wf len b(2) [OF j']])
      case 1 then show ?thesis using j t'(4) ob [of j] by auto
    next
      case (2 k)
      then have "k \<in> hashed ?t" "ie_object (?t ! k) = ie_object (?t ! j)" using t'(4) ob by auto
      then have "k = j" using inj j by (auto dest: inj_onD)
      then show ?thesis using 2 ob [of j] j by simp
    qed
  qed
  then show ?thesis using t'(1) gone by blast
qed

text \<open>A table of four entries: the objects of the entries 1, 2 and 3 all have home slot 3, so
  that the entries 2 and 3 are displaced to the slots 0 and 1.\<close>

definition clump_space :: ipc_space where
  "clump_space = \<lparr>is_references = 1, is_active = True,
     is_table =
       [\<lparr>ie_bits = 0xff000000, ie_object = 0, ie_request = 0, ie_index = 2\<rparr>,
        \<lparr>ie_bits = 0x00010001, ie_object = 0x0c0, ie_request = 0, ie_index = 3\<rparr>,
        \<lparr>ie_bits = 0x00010001, ie_object = 0x1c0, ie_request = 0, ie_index = 0\<rparr>,
        \<lparr>ie_bits = 0x00010001, ie_object = 0x2c0, ie_request = 0, ie_index = 1\<rparr>],
     is_table_size = 4, is_table_next = 1, is_tree = ipc_splay_tree_init, is_tree_total = 0,
     is_tree_small = 0, is_tree_hash = 0, is_notify = 0\<rparr>"



lemma clump_space_hashed: "hashed (is_table clump_space) = {1, 2, 3}"
  by (simp add: clump_space_def hashed_def stored_def slots_def lessThan_nat_numeral lessThan_Suc
    numeral_eq_Suc insert_commute)

lemma clump_space_objects:
  "inj_on (\<lambda>i. ie_object (is_table clump_space ! i)) {1, 2, 3}"
  "homes (is_table clump_space) 1 = 3" "homes (is_table clump_space) 2 = 3"
  "homes (is_table clump_space) 3 = 3"
  by (simp_all add: clump_space_def homes_def IH_LOCAL_HASH_def)

lemma clump_space_wf:
  "local_wf (is_table clump_space)" "is_table_size clump_space = length (is_table clump_space)"
proof -
  have s: "slots (is_table clump_space) 0 = 2" "slots (is_table clump_space) 1 = 3"
     "slots (is_table clump_space) 2 = 0" "slots (is_table clump_space) 3 = 1"
    by (simp_all add: clump_space_def slots_def)
  have l: "length (is_table clump_space) = 4" by (simp add: clump_space_def)
  have all: "(\<forall>h<4. P h) \<longleftrightarrow> P 0 \<and> P 1 \<and> P 2 \<and> P (3::nat)" for P
    by (simp add: numeral_eq_Suc All_less_Suc conj_ac)
  have "probe_wf 4 (homes (is_table clump_space)) (slots (is_table clump_space))"
    unfolding probe_wf_def all s by (simp add: s clump_space_objects clump_space_objects(2) [unfolded One_nat_def] all on_way_def cdist_def)
  then show "local_wf (is_table clump_space)"
    unfolding local_wf_def l clump_space_hashed by (simp add: clump_space_def)
  show "is_table_size clump_space = length (is_table clump_space)" by (simp add: clump_space_def)
qed

theorem ipc_hash_local_delete_witness:
  "\<exists>sp'. ipc_hash_local_delete clump_space 0xc0 1 = Some sp' \<and>
    ipc_hash_local_lookup sp' 0xc0 = Some None \<and>
    ipc_hash_local_lookup sp' 0x1c0 = Some (Some (MACH_PORT_MAKEB 2 0x00010001, TableEntry 2)) \<and>
    ipc_hash_local_lookup sp' 0x2c0 = Some (Some (MACH_PORT_MAKEB 3 0x00010001, TableEntry 3))"
  using ipc_hash_local_delete_keeps_others [of clump_space 1] clump_space_wf clump_space_hashed
    clump_space_objects(1)
  by (auto simp: clump_space_def)

end
