(* ===== verification/Ipc_Entry.thy ===== *)
theory Ipc_Entry
  imports Ipc_Hash
begin

text \<open>
  Translation of names to entries: the operations of ipc/ipc_entry.c on the table and the
  splay tree of a space, and the initial table made by \<open>ipc_space_create\<close>.

  \<^bold>\<open>State.\<close> The operations work on the global reverse hash table and one space, whose
  address \<open>is\<close> is an argument.

  \<^bold>\<open>Memory allocation and unlocking.\<close> \<open>ipc_entry_grow_table\<close>, \<open>ipc_entry_alloc\<close> and
  \<open>ipc_entry_alloc_name\<close> unlock the space to allocate memory.  What happens meanwhile is an
  argument, the \<open>environment\<close>: a list with one element per allocation, which says whether
  the allocation succeeds and what other threads do to the state before the space is locked
  again.  An allocation beyond the end of the list fails.

  \<^bold>\<open>Results.\<close> \<open>Inl\<close> of a return code, or \<open>Inr\<close> of the results of a successful call.  The
  outer option is \<open>None\<close> when an assertion fails or an array is accessed outside its bounds.
\<close>

type_synonym space_state = "ipc_hash_global \<times> ipc_space"
type_synonym environment = "(bool \<times> (space_state \<Rightarrow> space_state)) list"

definition sizeof_ipc_tree_entry :: u32 where
  "sizeof_ipc_tree_entry = 32"

subsection \<open>Operations\<close>

definition ipc_entry_tree_collision :: "ipc_space \<Rightarrow> mach_port \<Rightarrow> (bool \<times> ipc_space) option" where
  "ipc_entry_tree_collision sp name =
     do {
       kassert (is_active sp);
       let (lower, upper, tree) = ipc_splay_tree_bounds (is_tree sp) name;
       let index = port_index name;
       Some ((lower \<noteq> NOT 0 \<and> port_index lower = index) \<or> (upper \<noteq> 0 \<and> port_index upper = index),
             sp\<lparr>is_tree := tree\<rparr>)
     }"

definition entry_tree_lookup :: "ipc_space \<Rightarrow> mach_port \<Rightarrow> (ipc_entry_ref option \<times> ipc_space) option" where
  "entry_tree_lookup sp name =
     do {
       let (res, tree) = ipc_splay_tree_lookup (is_tree sp) name;
       let sp = sp\<lparr>is_tree := tree\<rparr>;
       case res of
         None \<Rightarrow> Some (None, sp)
       | Some entry \<Rightarrow>
           do {
             kassert (IE_BITS_TYPE (ie_bits entry) \<noteq> 0);
             Some (Some (TreeEntry name), sp)
           }
     }"

definition ipc_entry_lookup :: "ipc_space \<Rightarrow> mach_port \<Rightarrow> (ipc_entry_ref option \<times> ipc_space) option" where
  "ipc_entry_lookup sp name =
     do {
       kassert (is_active sp);
       let index = port_index name;
       if index < is_table_size sp then
         do {
           entry \<leftarrow> nth_opt (is_table sp) index;
           if IE_BITS_GEN (ie_bits entry) \<noteq> MACH_PORT_GEN name then
             if ie_bits entry AND IE_BITS_COLLISION \<noteq> 0 then
               do { kassert (is_tree_total sp > 0); entry_tree_lookup sp name }
             else Some (None, sp)
           else if IE_BITS_TYPE (ie_bits entry) = MACH_PORT_TYPE_NONE then Some (None, sp)
           else Some (Some (TableEntry index), sp)
         }
       else if is_tree_total sp = 0 then Some (None, sp)
       else entry_tree_lookup sp name
     }"

definition ipc_entry_get ::
  "ipc_space \<Rightarrow> ((kern_return + mach_port \<times> ipc_entry_ref) \<times> ipc_space) option" where
  "ipc_entry_get sp =
     do {
       kassert (is_active sp);
       let table = is_table sp;
       head \<leftarrow> nth_opt table 0;
       let first_free = ie_next head;
       if first_free = 0 then Some (Inl KERN_NO_SPACE, sp)
       else
         do {
           free_entry \<leftarrow> nth_opt table first_free;
           let table = table_write table 0 (ie_request_update (\<lambda>_. ie_next free_entry));
           kassert (ie_bits free_entry AND NOT IE_BITS_GEN_MASK = 0);
           let gen = ie_bits free_entry + IE_BITS_GEN_ONE;
           let table = table_write table first_free (\<lambda>e. e\<lparr>ie_bits := gen, ie_request := 0\<rparr>);
           let new_name = MACH_PORT_MAKE (of_nat first_free) gen;
           kassert (MACH_PORT_VALID new_name);
           kassert (ie_object free_entry = 0);
           Some (Inr (new_name, TableEntry first_free), sp\<lparr>is_table := table\<rparr>)
         }
     }"

definition ipc_entry_dealloc ::
  "addr \<Rightarrow> mach_port \<Rightarrow> ipc_entry_ref \<Rightarrow> space_state \<Rightarrow> space_state option" where
  "ipc_entry_dealloc is name entry st =
     do {
       let (g, sp) = st;
       kassert (is_active sp);
       e \<leftarrow> get_entry sp entry;
       kassert (ie_object e = 0);
       kassert (ie_request e = 0);
       let index = port_index name;
       if is_table_entry sp name entry then
         do {
           kassert (IE_BITS_GEN (ie_bits e) = MACH_PORT_GEN name);
           if ie_bits e AND IE_BITS_COLLISION \<noteq> 0 then
             do {
               (tree, collisions) \<leftarrow> ipc_splay_tree_split (is_tree sp) (MACH_PORT_MAKE (of_nat (index + 1)) 0);
               (collisions, small) \<leftarrow> ipc_splay_tree_split collisions (MACH_PORT_MAKE (of_nat index) 0);
               (tname, tentry) \<leftarrow> ipc_splay_tree_pick collisions;
               kassert (port_index tname = index);
               let bits = ie_bits tentry;
               let obj = ie_object tentry;
               let sp = sp\<lparr>is_tree := tree,
                           is_table := table_write (is_table sp) index
                             (\<lambda>e. e\<lparr>ie_bits := bits OR MACH_PORT_GEN tname, ie_object := obj,
                                    ie_request := ie_request tentry\<rparr>)\<rparr>;
               (g, sp) \<leftarrow>
                 (if IE_BITS_TYPE bits = MACH_PORT_TYPE_SEND then
                    do {
                      (g, sp) \<leftarrow> ipc_hash_global_delete g is sp obj tname tentry;
                      sp \<leftarrow> ipc_hash_local_insert sp obj index;
                      Some (g, sp)
                    }
                  else Some (g, sp));
               collisions \<leftarrow> ipc_splay_tree_delete collisions tname;
               kassert (is_tree_total sp > 0);
               let sp = sp\<lparr>is_tree_total := is_tree_total sp - 1\<rparr>;
               sp \<leftarrow>
                 (case ipc_splay_tree_pick collisions of
                    None \<Rightarrow> Some sp
                  | Some _ \<Rightarrow>
                      do {
                        tree \<leftarrow> ipc_splay_tree_join (is_tree sp) collisions;
                        Some (sp\<lparr>is_tree := tree,
                                 is_table := table_write (is_table sp) index
                                   (ie_bits_update (\<lambda>b. b OR IE_BITS_COLLISION))\<rparr>)
                      });
               tree \<leftarrow> ipc_splay_tree_join (is_tree sp) small;
               Some (g, sp\<lparr>is_tree := tree\<rparr>)
             }
           else
             do {
               head \<leftarrow> nth_opt (is_table sp) 0;
               let table = table_write (is_table sp) index
                 (\<lambda>e. e\<lparr>ie_bits := ie_bits e AND IE_BITS_GEN_MASK, ie_request := ie_next head\<rparr>);
               let table = table_write table 0 (ie_request_update (\<lambda>_. index));
               Some (g, sp\<lparr>is_table := table\<rparr>)
             }
         }
       else
         do {
           tree \<leftarrow> ipc_splay_tree_delete (is_tree sp) name;
           kassert (is_tree_total sp > 0);
           let sp = sp\<lparr>is_tree := tree, is_tree_total := is_tree_total sp - 1\<rparr>;
           if index < is_table_size sp then
             do {
               ientry \<leftarrow> nth_opt (is_table sp) index;
               kassert (ie_bits ientry AND IE_BITS_COLLISION \<noteq> 0);
               (collision, sp) \<leftarrow> ipc_entry_tree_collision sp name;
               Some (g, if collision then sp
                        else sp\<lparr>is_table := table_write (is_table sp) index
                                (ie_bits_update (\<lambda>b. b AND NOT IE_BITS_COLLISION))\<rparr>)
             }
           else
             do {
               its_size \<leftarrow> nth_opt ipc_table_entries (is_table_next sp);
               if index < unat its_size then
                 do {
                   (collision, sp) \<leftarrow> ipc_entry_tree_collision sp name;
                   if collision then Some (g, sp)
                   else
                     do {
                       kassert (is_tree_small sp > 0);
                       Some (g, sp\<lparr>is_tree_small := is_tree_small sp - 1\<rparr>)
                     }
                 }
               else Some (g, sp)
             }
         }
     }"

subsection \<open>Growing the table\<close>

text \<open>The steps of one round of \<open>ipc_entry_grow_table\<close>, after the new table has been
  allocated.  The old part of the new table is not initialised, except for its \<open>ie_index\<close>
  fields; every other field is copied before it is read.\<close>

definition grow_copy :: "ipc_entry list \<Rightarrow> nat \<Rightarrow> ipc_space \<Rightarrow> ipc_space option" where
  "grow_copy otable i sp =
     do {
       oentry \<leftarrow> nth_opt otable i;
       let sp = sp\<lparr>is_table := table_write (is_table sp) i
                   (\<lambda>e. e\<lparr>ie_bits := ie_bits oentry, ie_object := ie_object oentry,
                          ie_request := ie_request oentry\<rparr>)\<rparr>;
       if IE_BITS_TYPE (ie_bits oentry) = MACH_PORT_TYPE_SEND
       then ipc_hash_local_insert sp (ie_object oentry) i
       else Some sp
     }"

text \<open>The body of the loop that moves entries from the tree to the table; it says whether the
  tree entry is to be deleted.\<close>

definition grow_move ::
  "addr \<Rightarrow> nat \<Rightarrow> nat \<Rightarrow> ipc_entry ite \<Rightarrow> space_state \<Rightarrow> (bool \<times> space_state) option" where
  "grow_move is osize nsize x st =
     do {
       let (name, tentry) = x;
       let (g, sp) = st;
       let gen = MACH_PORT_GEN name;
       let index = port_index name;
       kassert (osize \<le> index \<and> index < nsize);
       entry \<leftarrow> nth_opt (is_table sp) index;
       if ie_bits entry \<noteq> 0 then
         do {
           kassert (IE_BITS_TYPE (ie_bits entry) \<noteq> 0);
           kassert (IE_BITS_GEN (ie_bits entry) \<noteq> gen);
           Some (False, g, sp\<lparr>is_table := table_write (is_table sp) index
                            (ie_bits_update (\<lambda>b. b OR IE_BITS_COLLISION))\<rparr>)
         }
       else
         do {
           let bits = ie_bits tentry;
           kassert (IE_BITS_TYPE bits \<noteq> MACH_PORT_TYPE_NONE);
           let obj = ie_object tentry;
           let sp = sp\<lparr>is_table := table_write (is_table sp) index
                       (\<lambda>e. e\<lparr>ie_bits := bits OR gen, ie_object := obj, ie_request := ie_request tentry\<rparr>)\<rparr>;
           (g, sp) \<leftarrow>
             (if IE_BITS_TYPE bits = MACH_PORT_TYPE_SEND then
                do {
                  (g, sp) \<leftarrow> ipc_hash_global_delete g is sp obj name tentry;
                  sp \<leftarrow> ipc_hash_local_insert sp obj index;
                  Some (g, sp)
                }
              else Some (g, sp));
           Some (True, g, sp\<lparr>is_tree_total := is_tree_total sp - 1\<rparr>)
         }
     }"

text \<open>The body of the loop that counts the indices of the next larger table.\<close>

definition grow_count :: "ipc_entry ite \<Rightarrow> nat \<times> nat \<Rightarrow> (bool \<times> nat \<times> nat) option" where
  "grow_count x st =
     (let (nosmall, index) = st; nindex = port_index (fst x)
      in Some (False, if nindex \<noteq> index then (nosmall + 1, nindex) else (nosmall, index)))"

text \<open>The transfer of entries from the tree.\<close>

definition grow_tree :: "addr \<Rightarrow> u32 \<Rightarrow> u32 \<Rightarrow> u32 \<Rightarrow> space_state \<Rightarrow> space_state option" where
  "grow_tree is osize sz nsize st =
     do {
       let (g, sp) = st;
       (tree, small) \<leftarrow> ipc_splay_tree_split (is_tree sp) (MACH_PORT_MAKE nsize 0);
       (small, move) \<leftarrow> ipc_splay_tree_split small (MACH_PORT_MAKE sz 0);
       (move, ignore) \<leftarrow> ipc_splay_tree_split move (MACH_PORT_MAKE osize 0);
       (move, g, sp) \<leftarrow> splay_traverse (grow_move is (unat osize) (unat sz)) move (g, sp\<lparr>is_tree := tree\<rparr>);
       (small, nosmall, _) \<leftarrow> splay_traverse grow_count small (0, 0);
       kassert (nosmall \<le> unat nsize - unat sz);
       kassert (nosmall \<le> is_tree_total sp);
       tree \<leftarrow> ipc_splay_tree_join (is_tree sp) small;
       tree \<leftarrow> ipc_splay_tree_join tree move;
       tree \<leftarrow> ipc_splay_tree_join tree ignore;
       Some (g, sp\<lparr>is_tree := tree, is_tree_small := nosmall\<rparr>)
     }"

text \<open>One step of the loop \<open>for (i = size-1; i >= osize; --i)\<close>, on the table and \<open>free_index\<close>.\<close>

definition grow_free :: "nat \<Rightarrow> ipc_entry list \<times> nat \<Rightarrow> ipc_entry list \<times> nat" where
  "grow_free i st =
     (let (table, free_index) = st in
      if ie_bits (table ! i) = 0
      then (table_write table i (\<lambda>e. e\<lparr>ie_bits := IE_BITS_GEN_MASK, ie_request := free_index\<rparr>), i)
      else (table, free_index))"

definition grow_free_list :: "nat \<Rightarrow> ipc_entry list \<Rightarrow> ipc_entry list" where
  "grow_free_list osize table =
     (let (table', free_index) =
        fold grow_free (rev [osize..<length table]) (table, ie_next (table ! 0))
      in table_write table' 0 (ie_request_update (\<lambda>_. free_index)))"

definition grow_round :: "addr \<Rightarrow> u32 \<Rightarrow> u32 \<Rightarrow> u32 \<Rightarrow> space_state \<Rightarrow> space_state option" where
  "grow_round is osize sz nsize st =
     do {
       let (g, sp) = st;
       kassert (unat osize = is_table_size sp);
       let otable = is_table sp;
       let sp = sp\<lparr>is_table := replicate (unat sz) entry_zero, is_table_size := unat sz,
                   is_table_next := is_table_next sp + 1\<rparr>;
       sp \<leftarrow> ofold (grow_copy otable) [0..<unat osize] sp;
       (g, sp) \<leftarrow> (if is_tree_total sp > 0 then grow_tree is osize sz nsize (g, sp) else Some (g, sp));
       Some (g, sp\<lparr>is_table := grow_free_list (unat osize) (is_table sp)\<rparr>)
     }"

text \<open>The loop of \<open>ipc_entry_grow_table\<close>.  The size after the next, \<open>nits->its_size\<close>, is read
  before the table is known to have room to grow; at the maximal size the element lies
  outside the array and is not used.\<close>

fun ipc_entry_grow_table ::
  "addr \<Rightarrow> environment \<Rightarrow> space_state \<Rightarrow> (kern_return \<times> environment \<times> space_state) option" where
  "ipc_entry_grow_table is env st =
     do {
       let its = is_table_next (snd st);
       kassert (is_active (snd st));
       sz \<leftarrow> nth_opt ipc_table_entries its;
       kassert (its > 0);
       osize \<leftarrow> nth_opt ipc_table_entries (its - 1);
       if osize = sz then Some (KERN_NO_SPACE, env, st)
       else
         do {
           nsize \<leftarrow> nth_opt ipc_table_entries (its + 1);
           kassert (osize < sz \<and> sz \<le> nsize);
           case env of
             [] \<Rightarrow> Some (KERN_RESOURCE_SHORTAGE, [], st)
           | (allocated, others) # env' \<Rightarrow>
               do {
                 let (g, sp) = others st;
                 if \<not> allocated then Some (KERN_RESOURCE_SHORTAGE, env', g, sp)
                 else if \<not> is_active sp \<or> is_table_next sp \<noteq> its then Some (KERN_SUCCESS, env', g, sp)
                 else
                   do {
                     (g, sp) \<leftarrow> grow_round is osize sz nsize (g, sp);
                     if is_tree_small sp > 0 \<and>
                        (unat nsize - unat sz) * unat sizeof_ipc_entry
                          < is_tree_small sp * unat sizeof_ipc_tree_entry
                     then ipc_entry_grow_table is env' (g, sp)
                     else Some (KERN_SUCCESS, env', g, sp)
                   }
               }
         }
     }"

declare ipc_entry_grow_table.simps [simp del]

lemma grow_table_env:
  "ipc_entry_grow_table is env st = Some (KERN_SUCCESS, env', st') \<Longrightarrow> length env' < length env"
proof (induction "is" env st arbitrary: env' st' rule: ipc_entry_grow_table.induct)
  case (1 "is" env st)
  from "1.prems" show ?case
    by (subst (asm) ipc_entry_grow_table.simps)
      (auto simp: Let_def split: bind_splits if_splits list.splits prod.splits
        dest!: "1.IH" [rotated -1])
qed

subsection \<open>Allocation\<close>

function ipc_entry_alloc ::
  "addr \<Rightarrow> environment \<Rightarrow> space_state \<Rightarrow>
     ((kern_return + mach_port \<times> ipc_entry_ref) \<times> environment \<times> space_state) option" where
  "ipc_entry_alloc is env st =
     (if \<not> is_active (snd st) then Some (Inl KERN_INVALID_TASK, env, st)
      else
        case ipc_entry_get (snd st) of
          None \<Rightarrow> None
        | Some (Inr r, sp) \<Rightarrow> Some (Inr r, env, fst st, sp)
        | Some (Inl _, sp) \<Rightarrow>
            (case ipc_entry_grow_table is env (fst st, sp) of
               None \<Rightarrow> None
             | Some (kr, env', st') \<Rightarrow>
                 if kr \<noteq> KERN_SUCCESS then Some (Inl kr, env', st')
                 else ipc_entry_alloc is env' st'))"
  by pat_completeness auto
termination
  by (relation "measure (\<lambda>(is, env, st). length env)") (auto dest: grow_table_env)

text \<open>Removal from the free list: follow the list from its head to the element before \<open>index\<close>.\<close>

fun rip_free :: "nat \<Rightarrow> ipc_entry list \<Rightarrow> nat \<Rightarrow> nat \<Rightarrow> ipc_entry list option" where
  "rip_free 0 table free_index index = None"
| "rip_free (Suc fuel) table free_index index =
     do {
       free_entry \<leftarrow> nth_opt table free_index;
       let next_index = ie_next free_entry;
       if next_index \<noteq> index then rip_free fuel table next_index index
       else
         do {
           e \<leftarrow> nth_opt table next_index;
           Some (table_write table free_index (ie_request_update (\<lambda>_. ie_next e)))
         }
     }"

text \<open>The part under the table cutoff: the entry is in use for the same name, or it is free;
  \<open>None\<close> as result when it is in use for a different name or there is no such entry.\<close>

definition alloc_name_table ::
  "ipc_space \<Rightarrow> mach_port \<Rightarrow> (ipc_entry_ref option \<times> ipc_space) option" where
  "alloc_name_table sp name =
     (let index = port_index name; gen = MACH_PORT_GEN name in
      if 0 < index \<and> index < is_table_size sp then
        do {
          entry \<leftarrow> nth_opt (is_table sp) index;
          if IE_BITS_TYPE (ie_bits entry) \<noteq> 0 then
            Some (if IE_BITS_GEN (ie_bits entry) = gen then Some (TableEntry index) else None, sp)
          else
            do {
              table \<leftarrow> rip_free (length (is_table sp)) (is_table sp) 0 index;
              kassert (ie_object entry = 0);
              let table = table_write table index (\<lambda>e. e\<lparr>ie_bits := gen, ie_request := 0\<rparr>);
              Some (Some (TableEntry index), sp\<lparr>is_table := table\<rparr>)
            }
        }
      else Some (None, sp))"

text \<open>The check whether the name is in the tree.\<close>

definition alloc_name_tree ::
  "ipc_space \<Rightarrow> mach_port \<Rightarrow> (ipc_entry_ref option \<times> ipc_space) option" where
  "alloc_name_tree sp name =
     (if is_tree_total sp > 0 then entry_tree_lookup sp name else Some (None, sp))"

text \<open>The insertion of a new tree entry.\<close>

definition alloc_name_insert :: "ipc_space \<Rightarrow> mach_port \<Rightarrow> u32 \<Rightarrow> ipc_space option" where
  "alloc_name_insert sp name its_size =
     do {
       let index = port_index name;
       let sp = sp\<lparr>is_tree_total := is_tree_total sp + 1\<rparr>;
       sp \<leftarrow>
         (if index < is_table_size sp then
            Some (sp\<lparr>is_table := table_write (is_table sp) index (ie_bits_update (\<lambda>b. b OR IE_BITS_COLLISION))\<rparr>)
          else if index < unat its_size then
            do {
              (collision, sp) \<leftarrow> ipc_entry_tree_collision sp name;
              Some (if collision then sp else sp\<lparr>is_tree_small := is_tree_small sp + 1\<rparr>)
            }
          else Some sp);
       tree \<leftarrow> ipc_splay_tree_insert (is_tree sp) name entry_zero;
       Some (sp\<lparr>is_tree := tree\<rparr>)
     }"

text \<open>The decision to grow the table rather than to insert into the tree.\<close>

definition alloc_name_grows :: "ipc_space \<Rightarrow> mach_port \<Rightarrow> u32 \<Rightarrow> bool" where
  "alloc_name_grows sp name its_size \<longleftrightarrow>
     is_table_size sp \<le> port_index name \<and> port_index name < unat its_size \<and>
     (unat its_size - is_table_size sp) * unat sizeof_ipc_entry
       < (is_tree_small sp + 1) * unat sizeof_ipc_tree_entry"

text \<open>The loop of \<open>ipc_entry_alloc_name\<close>; \<open>tree_entry\<close> says whether a tree entry has been
  allocated in an earlier round.\<close>

function alloc_name_loop ::
  "addr \<Rightarrow> mach_port \<Rightarrow> bool \<Rightarrow> environment \<Rightarrow> space_state \<Rightarrow>
     ((kern_return + ipc_entry_ref) \<times> environment \<times> space_state) option" where
  "alloc_name_loop is name tree_entry env st =
     (if \<not> is_active (snd st) then Some (Inl KERN_INVALID_TASK, env, st)
      else
        case alloc_name_table (snd st) name of
          None \<Rightarrow> None
        | Some (Some entry, sp) \<Rightarrow> Some (Inr entry, env, fst st, sp)
        | Some (None, sp) \<Rightarrow>
        case alloc_name_tree sp name of
          None \<Rightarrow> None
        | Some (Some entry, sp) \<Rightarrow> Some (Inr entry, env, fst st, sp)
        | Some (None, sp) \<Rightarrow>
        case nth_opt ipc_table_entries (is_table_next sp) of
          None \<Rightarrow> None
        | Some its_size \<Rightarrow>
            if alloc_name_grows sp name its_size then
              (case ipc_entry_grow_table is env (fst st, sp) of
                 None \<Rightarrow> None
               | Some (kr, env', st') \<Rightarrow>
                   if kr = KERN_NO_SPACE then None
                   else if kr \<noteq> KERN_SUCCESS then Some (Inl kr, env', st')
                   else alloc_name_loop is name tree_entry env' st')
            else if tree_entry then
              (case alloc_name_insert sp name its_size of
                 None \<Rightarrow> None
               | Some sp \<Rightarrow> Some (Inr (TreeEntry name), env, fst st, sp))
            else
              (case env of
                 [] \<Rightarrow> Some (Inl KERN_RESOURCE_SHORTAGE, [], fst st, sp)
               | (allocated, others) # env' \<Rightarrow>
                   if \<not> allocated then Some (Inl KERN_RESOURCE_SHORTAGE, env', others (fst st, sp))
                   else alloc_name_loop is name True env' (others (fst st, sp))))"
  by pat_completeness auto
termination
  by (relation "measure (\<lambda>(is, name, tree_entry, env, st). length env)") (auto dest: grow_table_env)

declare ipc_entry_alloc.simps [simp del] alloc_name_loop.simps [simp del]

definition ipc_entry_alloc_name ::
  "addr \<Rightarrow> mach_port \<Rightarrow> environment \<Rightarrow> space_state \<Rightarrow>
     ((kern_return + ipc_entry_ref) \<times> environment \<times> space_state) option" where
  "ipc_entry_alloc_name is name env st =
     do { kassert (MACH_PORT_VALID name); alloc_name_loop is name False env st }"

subsection \<open>A new space\<close>

text \<open>The table and the space as \<open>ipc_space_create\<close> initialises them, before it allocates the
  notification port; \<open>initial\<close> is the index of the initial size in \<open>ipc_table_entries\<close>.\<close>

definition space_table_init :: "nat \<Rightarrow> ipc_entry list" where
  "space_table_init new_size =
     table_write
       (map (\<lambda>index. entry_zero\<lparr>ie_bits := IE_BITS_GEN_MASK, ie_request := index + 1\<rparr>) [0..<new_size])
       (new_size - 1) (ie_request_update (\<lambda>_. 0))"

definition space_init :: "nat \<Rightarrow> ipc_space option" where
  "space_init initial =
     do {
       new_size \<leftarrow> nth_opt ipc_table_entries initial;
       Some \<lparr>is_references = 2, is_active = True,
             is_table = space_table_init (unat new_size), is_table_size = unat new_size,
             is_table_next = initial + 1, is_tree = ipc_splay_tree_init,
             is_tree_total = 0, is_tree_small = 0, is_tree_hash = 0, is_notify = 0\<rparr>
     }"

end
