(* ===== verification/Ipc_Entry_Inv.thy ===== *)
theory Ipc_Entry_Inv
  imports Ipc_Entry
begin

text \<open>
  The invariant of a space and what the operations of ipc/ipc_entry.c do to the map from
  names to rights that the space represents.

  \<open>free_list\<close> follows the free list from its head, table entry 0.  \<open>space_wf\<close> is the
  invariant that ipc/ipc_entry.h and ipc/ipc_space.h describe: the free entries, the
  collision bits, the counters of the tree, and the structure of the reverse hash tables.
  \<open>entry_map\<close> is the map that the space represents.
\<close>

subsection \<open>The free list\<close>

fun chain :: "nat \<Rightarrow> ipc_entry list \<Rightarrow> nat \<Rightarrow> nat list" where
  "chain 0 t i = []"
| "chain (Suc fuel) t i = (if ie_next (t ! i) = 0 then [] else ie_next (t ! i) # chain fuel t (ie_next (t ! i)))"

definition free_list :: "ipc_entry list \<Rightarrow> nat list" where
  "free_list t = chain (length t) t 0"

text \<open>The relational view: \<open>xs\<close> are the indices reached from \<open>i\<close> by \<open>ie_next\<close>.\<close>

fun linked :: "ipc_entry list \<Rightarrow> nat \<Rightarrow> nat list \<Rightarrow> bool" where
  "linked t i [] \<longleftrightarrow> ie_next (t ! i) = 0"
| "linked t i (x # xs) \<longleftrightarrow> ie_next (t ! i) = x \<and> x \<noteq> 0 \<and> x < length t \<and> linked t x xs"

lemma linked_bounds: "linked t i xs \<Longrightarrow> x \<in> set xs \<Longrightarrow> 0 < x \<and> x < length t"
  by (induction xs arbitrary: i) auto

lemma linked_unique: "linked t i xs \<Longrightarrow> linked t i ys \<Longrightarrow> xs = ys"
proof (induction xs arbitrary: i ys)
  case Nil
  then show ?case by (cases ys) auto
next
  case (Cons x xs)
  then show ?case by (cases ys) auto
qed

lemma linked_split: "linked t i (xs @ x # ys) \<Longrightarrow> linked t x ys"
  by (induction xs arbitrary: i) auto

lemma linked_distinct:
  assumes "linked t i xs" shows "distinct xs"
proof (rule ccontr)
  assume "\<not> distinct xs"
  then obtain as bs cs x where xs: "xs = as @ x # bs @ x # cs"
    using not_distinct_decomp by force
  have "linked t x (bs @ x # cs)" using linked_split [of t i as x] assms xs by simp
  moreover have "linked t x cs" using linked_split [of t i "as @ x # bs" x cs] assms xs by simp
  ultimately show False using linked_unique by fastforce
qed

lemma linked_length: "linked t i xs \<Longrightarrow> t \<noteq> [] \<Longrightarrow> length xs < length t"
proof -
  assume l: "linked t i xs" and "t \<noteq> []"
  have "set xs \<subseteq> {1..<length t}" using linked_bounds [OF l] by force
  then have "card (set xs) \<le> card {1..<length t}" by (intro card_mono) auto
  then show ?thesis using distinct_card [OF linked_distinct [OF l]] \<open>t \<noteq> []\<close> by (cases t) auto
qed

lemma chain_linked: "linked t i xs \<Longrightarrow> length xs \<le> fuel \<Longrightarrow> chain fuel t i = xs"
proof (induction fuel arbitrary: i xs)
  case (Suc fuel)
  then show ?case by (cases xs) auto
qed simp

lemma free_list_eq: "linked t 0 xs \<Longrightarrow> t \<noteq> [] \<Longrightarrow> free_list t = xs"
  unfolding free_list_def by (rule chain_linked) (auto dest: linked_length)

text \<open>Only the \<open>ie_next\<close> fields of the head and of the free entries matter.\<close>

lemma linked_cong:
  assumes "linked t i xs" "length t' = length t"
    and "\<And>j. j \<in> insert i (set xs) \<Longrightarrow> ie_next (t' ! j) = ie_next (t ! j)"
  shows "linked t' i xs"
  using assms
proof (induction xs arbitrary: i)
  case (Cons x xs)
  have "linked t' x xs" using Cons.prems by (intro Cons.IH) auto
  then show ?case using Cons.prems by auto
qed simp

subsection \<open>The map that a space represents\<close>

abbreviation tree_map :: "ipc_space \<Rightarrow> mach_port \<rightharpoonup> ipc_entry" where
  "tree_map sp \<equiv> splay_map (is_tree sp)"

definition used :: "ipc_entry list \<Rightarrow> nat \<Rightarrow> bool" where
  "used t i \<longleftrightarrow> 0 < i \<and> i < length t \<and> i \<notin> set (free_list t)"

definition in_table :: "ipc_space \<Rightarrow> mach_port \<Rightarrow> bool" where
  "in_table sp name \<longleftrightarrow>
     used (is_table sp) (port_index name) \<and>
     IE_BITS_GEN (ie_bits (is_table sp ! port_index name)) = MACH_PORT_GEN name"

definition entry_ref :: "ipc_space \<Rightarrow> mach_port \<Rightarrow> ipc_entry_ref option" where
  "entry_ref sp name =
     (if in_table sp name then Some (TableEntry (port_index name))
      else if tree_map sp name \<noteq> None then Some (TreeEntry name) else None)"

text \<open>What an entry says about a right: the bits that are relevant to the right, the object
  and the request.  The generation number, the collision bit and the hash link belong to
  the representation.\<close>

definition right_of :: "ipc_entry \<Rightarrow> u32 \<times> addr \<times> nat" where
  "right_of e = (ie_bits e AND IE_BITS_RIGHT_MASK, ie_object e, ie_request e)"

definition entry_map :: "ipc_space \<Rightarrow> mach_port \<rightharpoonup> u32 \<times> addr \<times> nat" where
  "entry_map sp name =
     (if in_table sp name then Some (right_of (is_table sp ! port_index name))
      else map_option right_of (tree_map sp name))"

subsection \<open>The invariant\<close>

definition table_wf :: "ipc_entry list \<Rightarrow> bool" where
  "table_wf t \<longleftrightarrow>
     t \<noteq> [] \<and> linked t 0 (free_list t) \<and>
     (\<forall>i\<in>set (free_list t). ie_bits (t ! i) AND NOT IE_BITS_GEN_MASK = 0 \<and> ie_object (t ! i) = 0) \<and>
     ie_bits (t ! 0) AND NOT IE_BITS_COLLISION = IE_BITS_GEN_MASK \<and> ie_object (t ! 0) = 0"

definition tree_wf :: "ipc_entry list \<Rightarrow> (mach_port \<rightharpoonup> ipc_entry) \<Rightarrow> bool" where
  "tree_wf t m \<longleftrightarrow>
     (\<forall>name e. m name = Some e \<longrightarrow>
        MACH_PORT_VALID name \<and> ie_bits e AND NOT IE_BITS_RIGHT_MASK = 0 \<and>
        (0 < port_index name \<longrightarrow> port_index name < length t \<longrightarrow>
           used t (port_index name) \<and> IE_BITS_GEN (ie_bits (t ! port_index name)) \<noteq> MACH_PORT_GEN name)) \<and>
     (\<forall>i<length t. ie_bits (t ! i) AND IE_BITS_COLLISION \<noteq> 0 \<longleftrightarrow> i \<in> port_index ` dom m)"

definition small_indices :: "nat \<Rightarrow> nat \<Rightarrow> (mach_port \<rightharpoonup> ipc_entry) \<Rightarrow> nat set" where
  "small_indices sz nsize m = {i \<in> port_index ` dom m. sz \<le> i \<and> i < nsize}"

definition space_wf :: "ipc_space \<Rightarrow> bool" where
  "space_wf sp \<longleftrightarrow>
     is_active sp \<and>
     is_table_size sp = length (is_table sp) \<and>
     0 < is_table_next sp \<and> is_table_next sp < 128 \<and>
     length (is_table sp) = unat (ipc_table_entries ! (is_table_next sp - 1)) \<and>
     table_wf (is_table sp) \<and>
     splay_invar (is_tree sp) \<and> is_tree_total sp = length (splay_entries (is_tree sp)) \<and>
     tree_wf (is_table sp) (tree_map sp) \<and>
     is_tree_small sp =
       card (small_indices (is_table_size sp) (unat (ipc_table_entries ! is_table_next sp)) (tree_map sp))"

lemma space_wfD:
  assumes "space_wf sp"
  shows "is_active sp" "is_table_size sp = length (is_table sp)" "0 < is_table_next sp"
    "is_table_next sp < 128" "length (is_table sp) = unat (ipc_table_entries ! (is_table_next sp - 1))"
    "table_wf (is_table sp)" "splay_invar (is_tree sp)"
    "is_tree_total sp = length (splay_entries (is_tree sp))" "tree_wf (is_table sp) (tree_map sp)"
    "is_tree_small sp =
       card (small_indices (is_table_size sp) (unat (ipc_table_entries ! is_table_next sp)) (tree_map sp))"
  using assms unfolding space_wf_def by blast+

text \<open>Every entry in use has a type, as is the case between the operations on rights.\<close>

definition settled :: "ipc_space \<Rightarrow> bool" where
  "settled sp \<longleftrightarrow>
     (\<forall>i. used (is_table sp) i \<longrightarrow> IE_BITS_TYPE (ie_bits (is_table sp ! i)) \<noteq> 0) \<and>
     (\<forall>name e. tree_map sp name = Some e \<longrightarrow> IE_BITS_TYPE (ie_bits e) \<noteq> 0)"

lemma table_wfD:
  assumes "table_wf t"
  shows "t \<noteq> []" "linked t 0 (free_list t)"
    "i \<in> set (free_list t) \<Longrightarrow> ie_bits (t ! i) AND NOT IE_BITS_GEN_MASK = 0"
    "i \<in> set (free_list t) \<Longrightarrow> ie_object (t ! i) = 0"
    "ie_bits (t ! 0) AND NOT IE_BITS_COLLISION = IE_BITS_GEN_MASK" "ie_object (t ! 0) = 0"
    "IE_BITS_GEN (ie_bits (t ! 0)) = IE_BITS_GEN_MASK" "IE_BITS_TYPE (ie_bits (t ! 0)) = 0"
proof -
  show "t \<noteq> []" "linked t 0 (free_list t)"
    "i \<in> set (free_list t) \<Longrightarrow> ie_bits (t ! i) AND NOT IE_BITS_GEN_MASK = 0"
    "i \<in> set (free_list t) \<Longrightarrow> ie_object (t ! i) = 0" "ie_object (t ! 0) = 0"
    and h: "ie_bits (t ! 0) AND NOT IE_BITS_COLLISION = IE_BITS_GEN_MASK"
    using assms unfolding table_wf_def by blast+
  show "IE_BITS_GEN (ie_bits (t ! 0)) = IE_BITS_GEN_MASK" "IE_BITS_TYPE (ie_bits (t ! 0)) = 0"
    using h collision_bit(5,6) [of "ie_bits (t ! 0)"] by (simp_all add: IE_BITS_fields IE_BITS_masks)
qed

lemma tree_wfD:
  assumes "tree_wf t m"
  shows "m name = Some e \<Longrightarrow> name \<noteq> 0 \<and> name \<noteq> - 1"
    "m name = Some e \<Longrightarrow> ie_bits e AND NOT IE_BITS_RIGHT_MASK = 0"
    "m name = Some e \<Longrightarrow> 0 < port_index name \<Longrightarrow> port_index name < length t \<Longrightarrow>
       used t (port_index name)"
    "m name = Some e \<Longrightarrow> 0 < port_index name \<Longrightarrow> port_index name < length t \<Longrightarrow>
       IE_BITS_GEN (ie_bits (t ! port_index name)) \<noteq> MACH_PORT_GEN name"
    "i < length t \<Longrightarrow> ie_bits (t ! i) AND IE_BITS_COLLISION \<noteq> 0 \<longleftrightarrow> i \<in> port_index ` dom m"
  using assms unfolding tree_wf_def MACH_PORT_VALID_iff by blast+

text \<open>A name is in the table or in the tree, not in both.\<close>

lemma in_table_not_tree:
  assumes "space_wf sp" "in_table sp name" shows "tree_map sp name = None"
proof (rule ccontr)
  assume "tree_map sp name \<noteq> None"
  then obtain e where "tree_map sp name = Some e" by blast
  then show False
    using assms(2) tree_wfD(4) [OF space_wfD(9) [OF assms(1)]] by (auto simp: in_table_def used_def)
qed

lemma dom_tree_map: "dom (tree_map sp) = fst ` set (splay_entries (is_tree sp))"
  by (simp add: splay_map_def dom_map_of_conv_image_fst)

lemma finite_tree_map [simp]: "finite (dom (tree_map sp))"
  by (simp add: dom_tree_map)

lemma tree_total_pos:
  "space_wf sp \<Longrightarrow> tree_map sp name \<noteq> None \<Longrightarrow> 0 < is_tree_total sp"
  using space_wfD(8) [of sp] by (auto simp: splay_map_def)

subsection \<open>Lookup\<close>

text \<open>A search of the tree splays it and changes nothing else.\<close>

definition resplayed :: "ipc_space \<Rightarrow> ipc_space \<Rightarrow> bool" where
  "resplayed sp sp' \<longleftrightarrow>
     sp' = sp\<lparr>is_tree := is_tree sp'\<rparr> \<and> splay_invar (is_tree sp') \<and>
     splay_entries (is_tree sp') = splay_entries (is_tree sp)"

lemma resplayed_refl: "space_wf sp \<Longrightarrow> resplayed sp sp"
  by (simp add: resplayed_def space_wfD)

lemma resplayedI:
  "splay_invar tree \<Longrightarrow> splay_entries tree = splay_entries (is_tree sp) \<Longrightarrow> resplayed sp (sp\<lparr>is_tree := tree\<rparr>)"
  by (simp add: resplayed_def)

lemma resplayed_same:
  assumes "resplayed sp sp'"
  shows "is_table sp' = is_table sp" "tree_map sp' = tree_map sp" "is_table_size sp' = is_table_size sp"
    "is_table_next sp' = is_table_next sp" "is_tree_total sp' = is_tree_total sp"
    "is_tree_small sp' = is_tree_small sp" "is_tree_hash sp' = is_tree_hash sp"
    "is_active sp' = is_active sp" "splay_entries (is_tree sp') = splay_entries (is_tree sp)"
    "splay_invar (is_tree sp')"
proof -
  have eq: "sp' = sp\<lparr>is_tree := is_tree sp'\<rparr>"
    and e: "splay_entries (is_tree sp') = splay_entries (is_tree sp)" "splay_invar (is_tree sp')"
    using assms unfolding resplayed_def by blast+
  show "tree_map sp' = tree_map sp" by (simp add: splay_map_def e)
  show "is_table sp' = is_table sp" "is_table_size sp' = is_table_size sp"
    "is_table_next sp' = is_table_next sp" "is_tree_total sp' = is_tree_total sp"
    "is_tree_small sp' = is_tree_small sp" "is_tree_hash sp' = is_tree_hash sp"
    "is_active sp' = is_active sp"
    by (subst eq, simp)+
  show "splay_entries (is_tree sp') = splay_entries (is_tree sp)" "splay_invar (is_tree sp')" by fact+
qed

lemma resplayed_keeps:
  assumes "resplayed sp sp'"
  shows "space_wf sp \<Longrightarrow> space_wf sp'" "entry_map sp' = entry_map sp" "entry_ref sp' = entry_ref sp"
    "settled sp' = settled sp" "get_entry sp' r = get_entry sp r" "in_table sp' name = in_table sp name"
proof -
  note s = resplayed_same [OF assms]
  show "space_wf sp \<Longrightarrow> space_wf sp'" using s(10) unfolding space_wf_def s by blast
  show "entry_map sp' = entry_map sp" "entry_ref sp' = entry_ref sp" "in_table sp' name = in_table sp name"
    by (simp_all add: fun_eq_iff entry_map_def entry_ref_def in_table_def s)
  show "settled sp' = settled sp" by (simp add: settled_def s)
  show "get_entry sp' r = get_entry sp r" by (cases r) (simp_all add: s)
qed

lemma name_0xff: "port_index name = 0 \<and> MACH_PORT_GEN name = IE_BITS_GEN_MASK \<longleftrightarrow> name = 0xff"
proof -
  have "MACH_PORT_INDEX 0xff = 0" "MACH_PORT_GEN 0xff = IE_BITS_GEN_MASK"
    by (simp_all add: MACH_PORT_INDEX_def MACH_PORT_GEN_def IE_BITS_masks drop_bit_eq_div push_bit_eq_mult)
  then show ?thesis using mach_port_eqI [of name "0xff"] by (metis unat_eq_zero)
qed

lemma tree_lookup_correct:
  assumes "space_wf sp" "settled sp"
  shows "\<exists>sp'. entry_tree_lookup sp name =
      Some (if tree_map sp name = None then None else Some (TreeEntry name), sp') \<and> resplayed sp sp'"
proof -
  obtain tree where t: "ipc_splay_tree_lookup (is_tree sp) name = (tree_map sp name, tree)"
      "splay_invar tree" "splay_entries tree = splay_entries (is_tree sp)"
    using splay.lookup_tmap [OF space_wfD(7) [OF assms(1)], of name] by (auto simp: splay_map_def)
  have "IE_BITS_TYPE (ie_bits e) \<noteq> 0" if "tree_map sp name = Some e" for e
    using assms(2) that by (auto simp: settled_def)
  then show ?thesis
    using t(1) resplayedI [OF t(2,3)] by (auto simp: entry_tree_lookup_def split: option.splits)
qed

lemma entry_lookup_correct:
  assumes wf: "space_wf sp" and set: "settled sp" and name: "name \<noteq> 0xff"
  shows "\<exists>sp'. ipc_entry_lookup sp name = Some (entry_ref sp name, sp') \<and> resplayed sp sp'"
proof -
  let ?t = "is_table sp" let ?i = "port_index name"
  note w = space_wfD [OF wf]
  note tw = table_wfD [OF w(6)] and rw = tree_wfD [OF w(9)]
  note tl = tree_lookup_correct [OF wf set, of name] and same = resplayed_refl [OF wf]
  show ?thesis
  proof (cases "?i < length ?t")
    case out: False
    then have "\<not> in_table sp name" by (simp add: in_table_def used_def)
    moreover have "tree_map sp name = None" if "is_tree_total sp = 0"
      using tree_total_pos [OF wf, of name] that by (cases "tree_map sp name") auto
    ultimately show ?thesis using out tl same w(1,2)
      by (auto simp: ipc_entry_lookup_def Let_def entry_ref_def)
  next
    case True
    let ?b = "ie_bits (?t ! ?i)"
    show ?thesis
    proof (cases "IE_BITS_GEN ?b = MACH_PORT_GEN name")
      case gen: False
      then have "\<not> in_table sp name" by (simp add: in_table_def)
      moreover have "?b AND IE_BITS_COLLISION \<noteq> 0" if "tree_map sp name \<noteq> None"
        using rw(5) [OF True] that by blast
      moreover have "0 < is_tree_total sp" if "?b AND IE_BITS_COLLISION \<noteq> 0"
        using rw(5) [OF True] that tree_total_pos [OF wf] by blast
      ultimately show ?thesis using gen True tl same w(1,2)
        by (auto simp: ipc_entry_lookup_def Let_def entry_ref_def)
    next
      case gen: True
      have i: "0 < ?i"
        using name name_0xff [of name] tw(7) gen by (metis gr0I)
      have "used ?t ?i \<longleftrightarrow> IE_BITS_TYPE ?b \<noteq> 0"
        using set tw(3) free_bits(1) i True by (auto simp: settled_def used_def)
      moreover have "tree_map sp name = None"
        using rw(4) [of name] i True gen by (cases "tree_map sp name") auto
      ultimately show ?thesis using gen True same w(1,2)
        by (auto simp: ipc_entry_lookup_def Let_def entry_ref_def in_table_def MACH_PORT_TYPE_values)
    qed
  qed
qed

text \<open>Port name 255, index 0 and generation 255, is never found.\<close>

lemma entry_lookup_0xff:
  assumes "space_wf sp" shows "ipc_entry_lookup sp 0xff = Some (None, sp)"
proof -
  note w = space_wfD [OF assms]
  have "port_index 0xff = 0" "MACH_PORT_GEN 0xff = IE_BITS_GEN_MASK" using name_0xff [of "0xff"] by simp_all
  then show ?thesis
    using w(1,2) table_wfD [OF w(6)] by (simp add: ipc_entry_lookup_def Let_def MACH_PORT_TYPE_values)
qed
subsection \<open>The reverse hash tables\<close>

definition hash_wf :: "ipc_hash_global \<Rightarrow> addr \<Rightarrow> ipc_space \<Rightarrow> bool" where
  "hash_wf g is sp \<longleftrightarrow>
     is \<noteq> 0 \<and> local_wf (is_table sp) \<and> (\<forall>i\<in>hashed (is_table sp). used (is_table sp) i) \<and>
     global_wf g \<and> global_in g is (tree_map sp) \<and> is_tree_hash sp = card (ghashed g is)"

lemma hash_wfD:
  assumes "hash_wf g is sp"
  shows "is \<noteq> 0" "local_wf (is_table sp)" "i \<in> hashed (is_table sp) \<Longrightarrow> used (is_table sp) i"
    "global_wf g" "global_in g is (tree_map sp)" "is_tree_hash sp = card (ghashed g is)"
  using assms unfolding hash_wf_def by blast+

text \<open>The hash tables hold the send rights, except that the names in \<open>X\<close> may be out of step.\<close>

definition hash_sync :: "mach_port set \<Rightarrow> ipc_hash_global \<Rightarrow> addr \<Rightarrow> ipc_space \<Rightarrow> bool" where
  "hash_sync X g is sp \<longleftrightarrow>
     (\<forall>name. in_table sp name \<longrightarrow> name \<notin> X \<longrightarrow>
        (port_index name \<in> hashed (is_table sp) \<longleftrightarrow>
           IE_BITS_TYPE (ie_bits (is_table sp ! port_index name)) = MACH_PORT_TYPE_SEND)) \<and>
     (\<forall>name e. tree_map sp name = Some e \<longrightarrow> name \<notin> X \<longrightarrow>
        (name \<in> ghashed g is \<longleftrightarrow> IE_BITS_TYPE (ie_bits e) = MACH_PORT_TYPE_SEND))"

subsection \<open>Taking an entry off the free list\<close>

text \<open>The table when entry \<open>k\<close> is taken off the free list and given the bits \<open>gen\<close>.\<close>

definition table_taken :: "ipc_entry list \<Rightarrow> nat \<Rightarrow> u32 \<Rightarrow> ipc_entry list \<Rightarrow> bool" where
  "table_taken t k gen t' \<longleftrightarrow>
     length t' = length t \<and> k \<in> set (free_list t) \<and> gen AND NOT IE_BITS_GEN_MASK = 0 \<and>
     linked t' 0 (filter (\<lambda>i. i \<noteq> k) (free_list t)) \<and>
     (\<forall>i<length t. ie_index (t' ! i) = ie_index (t ! i) \<and> ie_object (t' ! i) = ie_object (t ! i) \<and>
        (i \<noteq> k \<longrightarrow> ie_bits (t' ! i) = ie_bits (t ! i)) \<and>
        (used t i \<longrightarrow> ie_request (t' ! i) = ie_request (t ! i))) \<and>
     ie_bits (t' ! k) = gen \<and> ie_request (t' ! k) = 0"

lemma table_takenD:
  assumes wf: "table_wf t" and tk: "table_taken t k gen t'"
  shows "length t' = length t" "free_list t' = filter (\<lambda>i. i \<noteq> k) (free_list t)"
    "used t' i \<longleftrightarrow> used t i \<or> i = k" "\<not> used t k" "0 < k" "k < length t"
    "i < length t \<Longrightarrow> ie_object (t' ! i) = ie_object (t ! i)"
    "i < length t \<Longrightarrow> ie_index (t' ! i) = ie_index (t ! i)"
    "i < length t \<Longrightarrow> i \<noteq> k \<Longrightarrow> ie_bits (t' ! i) = ie_bits (t ! i)"
    "used t i \<Longrightarrow> ie_request (t' ! i) = ie_request (t ! i)"
    "ie_bits (t' ! k) = gen" "ie_request (t' ! k) = 0" "ie_object (t' ! k) = 0"
    "gen AND NOT IE_BITS_GEN_MASK = 0" "linked t' 0 (free_list t')"
proof -
  note tk' = tk [unfolded table_taken_def]
  show len: "length t' = length t" using tk' by blast
  have ne: "t' \<noteq> []" using table_wfD(1) [OF wf] len by auto
  have k: "k \<in> set (free_list t)" using tk' by blast
  show "0 < k" "k < length t" using linked_bounds [OF table_wfD(2) [OF wf] k] by simp_all
  show "\<not> used t k" using k by (simp add: used_def)
  show fl: "free_list t' = filter (\<lambda>i. i \<noteq> k) (free_list t)"
    using free_list_eq ne tk' by blast
  show "linked t' 0 (free_list t')" unfolding fl using tk' by blast
  show "used t' i \<longleftrightarrow> used t i \<or> i = k"
    using \<open>0 < k\<close> \<open>k < length t\<close> unfolding used_def fl len by auto
  show ob: "\<And>i. i < length t \<Longrightarrow> ie_object (t' ! i) = ie_object (t ! i)"
    "i < length t \<Longrightarrow> ie_index (t' ! i) = ie_index (t ! i)"
    "i < length t \<Longrightarrow> i \<noteq> k \<Longrightarrow> ie_bits (t' ! i) = ie_bits (t ! i)"
    "ie_bits (t' ! k) = gen" "ie_request (t' ! k) = 0" "gen AND NOT IE_BITS_GEN_MASK = 0"
    using tk' by blast+
  show "used t i \<Longrightarrow> ie_request (t' ! i) = ie_request (t ! i)"
    using tk' by (auto simp: used_def)
  show "ie_object (t' ! k) = 0" using ob(1) \<open>k < length t\<close> table_wfD(4) [OF wf k] by simp
qed

lemma space_table_bound:
  assumes "space_wf sp" shows "length (is_table sp) \<le> 979456"
  using space_wfD(3,4,5) [OF assms] unat_entries(2) [of "is_table_next sp - 1"] by simp

lemma unat_of_nat_index: "i < 2 ^ 24 \<Longrightarrow> unat (of_nat i :: u32) = i"
  by (simp add: unat_of_nat)

lemma port_index_MAKE: "i < 2 ^ 24 \<Longrightarrow> port_index (MACH_PORT_MAKE (of_nat i) gen) = i"
  by (simp add: MACH_PORT_INDEX_MAKE unat_of_nat_index)

lemma usedD: "used t i \<Longrightarrow> i < length t"
  by (simp add: used_def)

lemma free_not_in_tree:
  assumes "space_wf sp" "i \<in> set (free_list (is_table sp))"
  shows "i \<notin> port_index ` dom (tree_map sp)"
proof
  note w = space_wfD [OF assms(1)]
  assume "i \<in> port_index ` dom (tree_map sp)"
  then obtain name e where n: "tree_map sp name = Some e" "port_index name = i" by blast
  have "0 < i \<and> i < length (is_table sp)" using linked_bounds [OF table_wfD(2) [OF w(6)] assms(2)] .
  then show False using tree_wfD(3) [OF w(9) n(1)] n(2) assms(2) by (simp add: used_def)
qed

lemma taken_keeps:
  assumes wf: "space_wf sp" and tk: "table_taken (is_table sp) k gen t'"
  defines "sp' \<equiv> sp\<lparr>is_table := t'\<rparr>" and "name \<equiv> MACH_PORT_MAKE (of_nat k) gen"
  shows "space_wf sp'" "entry_map sp name = None" "entry_map sp' = (entry_map sp)(name \<mapsto> (0, 0, 0))"
    "entry_ref sp' name = Some (TableEntry k)" "port_index name = k"
    "hash_wf g is sp \<Longrightarrow> hash_wf g is sp'"
    "hash_wf g is sp \<Longrightarrow> hash_sync X g is sp \<Longrightarrow> hash_sync X g is sp'"
proof -
  let ?t = "is_table sp"
  note w = space_wfD [OF wf]
  note tw = table_wfD [OF w(6)] and rw = tree_wfD [OF w(9)] and d = table_takenD [OF w(6) tk]
  have kfree: "k \<in> set (free_list ?t)" using tk by (simp add: table_taken_def)
  have ktree: "k \<notin> port_index ` dom (tree_map sp)" using free_not_in_tree [OF wf kfree] .
  have sp': "is_table sp' = t'" "tree_map sp' = tree_map sp" by (simp_all add: sp'_def)
  have k: "k < 2 ^ 24" using d(6) space_table_bound [OF wf] by simp
  show idx: "port_index name = k" using port_index_MAKE [OF k] by (simp add: name_def)
  have gen: "MACH_PORT_GEN name = gen" "IE_BITS_GEN gen = gen"
    using free_bits(4) [OF d(14)] by (simp_all add: name_def MACH_PORT_GEN_MAKE)
  have tab: "table_wf t'"
    unfolding table_wf_def
  proof (intro conjI ballI d(15))
    show "t' \<noteq> []" using tw(1) d(1) by auto
    fix i assume "i \<in> set (free_list t')"
    then have i: "i \<in> set (free_list ?t)" "i \<noteq> k" by (simp_all add: d(2))
    moreover from i have "i < length ?t" using linked_bounds [OF tw(2)] by blast
    ultimately show "ie_bits (t' ! i) AND NOT IE_BITS_GEN_MASK = 0" "ie_object (t' ! i) = 0"
      using d(7,9) tw(3,4) by simp_all
  next
    show "ie_bits (t' ! 0) AND NOT IE_BITS_COLLISION = IE_BITS_GEN_MASK" "ie_object (t' ! 0) = 0"
      using tw(1,5,6) d(5,7,9) by simp_all
  qed
  have tree: "tree_wf t' (tree_map sp)"
    unfolding tree_wf_def
  proof (intro conjI allI impI)
    fix n e assume n: "tree_map sp n = Some e"
    show "MACH_PORT_VALID n" "ie_bits e AND NOT IE_BITS_RIGHT_MASK = 0" using rw(1,2) n by auto
    assume i: "0 < port_index n" "port_index n < length t'"
    have "used ?t (port_index n)" using rw(3) [OF n i(1)] i(2) d(1) by simp
    moreover from this have "port_index n \<noteq> k" using d(4) by blast
    ultimately show "used t' (port_index n)"
      "IE_BITS_GEN (ie_bits (t' ! port_index n)) \<noteq> MACH_PORT_GEN n"
      using rw(4) [OF n i(1)] i(2) d(1,3,9) by auto
  next
    fix i assume "i < length t'"
    then show "ie_bits (t' ! i) AND IE_BITS_COLLISION \<noteq> 0 \<longleftrightarrow> i \<in> port_index ` dom (tree_map sp)"
      using rw(5) [of i] d(1,9,11) ktree free_bits(2) [OF d(14)] by (cases "i = k") auto
  qed
  show "space_wf sp'"
    unfolding space_wf_def sp' using w tab tree d(1) by (simp add: sp'_def)
  have other: "in_table sp' n \<longleftrightarrow> in_table sp n"
    "in_table sp n \<Longrightarrow> right_of (t' ! port_index n) = right_of (?t ! port_index n)" if "n \<noteq> name" for n
  proof -
    have "in_table sp' n \<longleftrightarrow> in_table sp n" if "port_index n = k"
    proof -
      have "MACH_PORT_GEN n \<noteq> gen" using mach_port_eqI [of n name] \<open>n \<noteq> name\<close> gen idx that
        by (auto simp: word_unat_eq_iff)
      then show ?thesis using that d(4,11) gen by (auto simp: in_table_def sp')
    qed
    then show "in_table sp' n \<longleftrightarrow> in_table sp n"
      using d(3) [of "port_index n"] d(9) [OF usedD] by (cases "port_index n = k") (auto simp: in_table_def sp')
    show "right_of (t' ! port_index n) = right_of (?t ! port_index n)" if "in_table sp n"
    proof -
      have "used ?t (port_index n)" "port_index n \<noteq> k" using that d(4) by (auto simp: in_table_def)
      then show ?thesis using d(7,9) [OF usedD] d(10) by (simp add: right_of_def)
    qed
  qed
  have here: "in_table sp' name" "\<not> in_table sp name"
    using idx gen d(3) [of k] d(4,11) by (simp_all add: in_table_def sp')
  have notree: "tree_map sp name = None" using ktree idx by (metis domIff image_eqI)
  show "entry_map sp name = None" using here notree by (simp add: entry_map_def)
  show "entry_ref sp' name = Some (TableEntry k)" using here idx by (simp add: entry_ref_def)
  show "entry_map sp' = (entry_map sp)(name \<mapsto> (0, 0, 0))"
  proof
    fix n
    show "entry_map sp' n = ((entry_map sp)(name \<mapsto> (0, 0, 0))) n"
      using other [of n] here idx d(11,12,13) free_bits(3) [OF d(14)]
      by (cases "n = name") (auto simp: entry_map_def sp' right_of_def)
  qed
  have loc: "local_wf t'" "hashed t' = hashed ?t" if "hash_wf g is sp"
  proof -
    have "ie_object (t' ! i) = ie_object (?t ! i)" if "i \<in> hashed ?t" for i
      using d(7) hashed_bounds [OF hash_wfD(2) [OF \<open>hash_wf g is sp\<close>] that] by simp
    then show "local_wf t'" "hashed t' = hashed ?t"
      using local_wf_cong [OF hash_wfD(2) [OF that] d(1,8)] by blast+
  qed
  show "hash_wf g is sp'" if "hash_wf g is sp"
    using that loc [OF that] d(3) unfolding hash_wf_def sp' by (auto simp: sp'_def)
  show "hash_sync X g is sp'" if h: "hash_wf g is sp" and "hash_sync X g is sp"
    unfolding hash_sync_def sp'
  proof (intro conjI allI impI)
    fix n assume n: "in_table sp' n" "n \<notin> X"
    show "port_index n \<in> hashed t' \<longleftrightarrow> IE_BITS_TYPE (ie_bits (t' ! port_index n)) = MACH_PORT_TYPE_SEND"
    proof (cases "n = name")
      case True
      then show ?thesis
        using idx d(4,11) free_bits(1) [OF d(14)] hash_wfD(3) [OF h, of k] loc(2) [OF h]
        by (auto simp: MACH_PORT_TYPE_values)
    next
      case False
      then have "in_table sp n" using other(1) n(1) by blast
      moreover from this have "port_index n \<noteq> k" "port_index n < length ?t"
        using d(4) usedD by (auto simp: in_table_def)
      ultimately show ?thesis
        using that(2) n(2) loc(2) [OF h] d(9) by (simp add: hash_sync_def)
    qed
  next
    fix n e assume "tree_map sp n = Some e" "n \<notin> X"
    then show "n \<in> ghashed g is \<longleftrightarrow> IE_BITS_TYPE (ie_bits e) = MACH_PORT_TYPE_SEND"
      using that(2) unfolding hash_sync_def by blast
  qed
qed

lemma linked_move:
  assumes "linked t k xs" "length t' = length t" "ie_next (t' ! j) = ie_next (t ! k)"
    and "\<And>i. i \<in> set xs \<Longrightarrow> ie_next (t' ! i) = ie_next (t ! i)"
  shows "linked t' j xs"
proof (cases xs)
  case (Cons y ys)
  have y: "ie_next (t ! k) = y" "y \<noteq> 0" "y < length t" "linked t y ys"
    using assms(1) unfolding Cons by simp_all
  have "linked t' y ys"
    using y(4) assms(2) by (rule linked_cong) (use assms(4) Cons in simp)
  then show ?thesis using y(1-3) assms(2,3) Cons by simp
qed (use assms(1,3) in simp)

text \<open>Removing an entry from the middle of the list.\<close>

lemma rip_free_linked:
  assumes "linked t i (as @ k # bs)" "i < length t" "length as < fuel" "i \<notin> set (as @ k # bs)"
  shows "\<exists>p. rip_free fuel t i k = Some (table_write t p (ie_request_update (\<lambda>_. ie_next (t ! k)))) \<and>
    p \<in> insert i (set as) \<and> linked (table_write t p (ie_request_update (\<lambda>_. ie_next (t ! k)))) i (as @ bs)"
  using assms
proof (induction as arbitrary: i fuel)
  case Nil
  then obtain fuel' where fuel: "fuel = Suc fuel'" by (cases fuel) auto
  have k: "ie_next (t ! i) = k" "k < length t" "linked t k bs" using Nil.prems(1) by simp_all
  let ?t = "table_write t i (ie_request_update (\<lambda>_. ie_next (t ! k)))"
  have "linked ?t i bs"
    using Nil.prems(2,4) by (intro linked_move [OF k(3)]) (auto simp: nth_table_write)
  then show ?case using Nil.prems(2) k fuel by (auto simp: Let_def)
next
  case (Cons a as)
  then obtain fuel' where fuel: "fuel = Suc fuel'" by (cases fuel) auto
  have a: "ie_next (t ! i) = a" "a < length t" "linked t a (as @ k # bs)" "a \<noteq> 0" using Cons.prems(1) by simp_all
  have "a \<notin> set (as @ k # bs)" using linked_distinct [OF Cons.prems(1)] by simp
  then obtain p where p: "rip_free fuel' t a k = Some (table_write t p (ie_request_update (\<lambda>_. ie_next (t ! k))))"
      "p \<in> insert a (set as)"
      "linked (table_write t p (ie_request_update (\<lambda>_. ie_next (t ! k)))) a (as @ bs)"
    using Cons.IH [OF a(3,2), of fuel'] Cons.prems(3) fuel by auto
  have "p \<noteq> i" using p(2) Cons.prems(4) by auto
  moreover have "a \<noteq> k" using \<open>a \<notin> set (as @ k # bs)\<close> by simp
  ultimately show ?case
    using p a Cons.prems(2) fuel by (intro exI [of _ p]) (simp add: Let_def)
qed

lemma entry_get_correct:
  assumes wf: "space_wf sp"
  obtains (full) "free_list (is_table sp) = []" "ipc_entry_get sp = Some (Inl KERN_NO_SPACE, sp)"
  | (got) k gen t' where "table_taken (is_table sp) k gen t'" "k = hd (free_list (is_table sp))"
      "gen = ie_bits (is_table sp ! k) + IE_BITS_GEN_ONE"
      "MACH_PORT_VALID (MACH_PORT_MAKE (of_nat k) gen)"
      "ipc_entry_get sp =
         Some (Inr (MACH_PORT_MAKE (of_nat k) gen, TableEntry k), sp\<lparr>is_table := t'\<rparr>)"
proof -
  let ?t = "is_table sp"
  note w = space_wfD [OF wf]
  note tw = table_wfD [OF w(6)]
  show thesis
  proof (cases "free_list ?t")
    case Nil
    then show thesis using full w(1) tw(1,2) by (auto simp: ipc_entry_get_def)
  next
    case (Cons k xs)
    have l: "ie_next (?t ! 0) = k" "k \<noteq> 0" "k < length ?t" "linked ?t k xs"
      using tw(2) Cons by simp_all
    have dist: "distinct (k # xs)" using linked_distinct [OF tw(2)] Cons by simp
    have kf: "k \<in> set (free_list ?t)" using Cons by simp
    let ?gen = "ie_bits (?t ! k) + IE_BITS_GEN_ONE"
    let ?t1 = "table_write ?t 0 (ie_request_update (\<lambda>_. ie_next (?t ! k)))"
    let ?t' = "table_write ?t1 k (\<lambda>e. e\<lparr>ie_bits := ?gen, ie_request := 0\<rparr>)"
    have "0 \<notin> set xs" using linked_bounds [OF l(4), of 0] by blast
    then have "linked ?t' 0 xs"
      using l(2,3) tw(1) dist by (intro linked_move [OF l(4)]) (auto simp: nth_table_write)
    moreover have "filter (\<lambda>i. i \<noteq> k) (free_list ?t) = xs"
      using dist Cons by (auto intro: filter_True)
    moreover have gen: "?gen AND NOT IE_BITS_GEN_MASK = 0" using next_gen_only tw(3) [OF kf] by blast
    ultimately have tk: "table_taken ?t k ?gen ?t'"
      using kf l(2,3) tw(1) unfolding table_taken_def
      by (auto simp: nth_table_write used_def)
    have idx: "port_index (MACH_PORT_MAKE (of_nat k) ?gen) = k"
      using port_index_MAKE l(3) space_table_bound [OF wf] by simp
    have valid: "MACH_PORT_VALID (MACH_PORT_MAKE (of_nat k) ?gen)"
    proof -
      have "port_index 0 = 0" "port_index (- 1) = 0xffffff"
        using MACH_PORT_INDEX_DEAD by (simp_all add: MACH_PORT_INDEX_def MACH_PORT_DEAD_def)
      then show ?thesis using idx l(2,3) space_table_bound [OF wf] by auto
    qed
    show thesis
      using tk l tw(1) tw(3,4) [OF kf] valid w(1) Cons
      by (intro got [of k ?gen ?t']) (auto simp: ipc_entry_get_def Let_def)
  qed
qed

subsection \<open>Changing an entry in use\<close>

lemma port_eqI: "port_index n = port_index n' \<Longrightarrow> MACH_PORT_GEN n = MACH_PORT_GEN n' \<Longrightarrow> n = n'"
  by (rule mach_port_eqI) (simp_all add: word_unat_eq_iff)

text \<open>Changing the entry of a used slot keeps the free list.\<close>

lemma used_changed:
  assumes wf: "table_wf t" and k: "used t k" and len: "length t' = length t"
    and same: "\<And>i. i < length t \<Longrightarrow> i \<noteq> k \<Longrightarrow>
      ie_bits (t' ! i) = ie_bits (t ! i) \<and> ie_object (t' ! i) = ie_object (t ! i) \<and> ie_request (t' ! i) = ie_request (t ! i)"
  shows "free_list t' = free_list t" "table_wf t'" "used t' i \<longleftrightarrow> used t i"
proof -
  note tw = table_wfD [OF wf]
  have k': "0 < k" "k < length t" "k \<notin> set (free_list t)" using k by (simp_all add: used_def)
  have ne: "t' \<noteq> []" using tw(1) len by auto
  have s: "ie_bits (t' ! i) = ie_bits (t ! i)" "ie_object (t' ! i) = ie_object (t ! i)"
      "ie_request (t' ! i) = ie_request (t ! i)" if "i \<in> insert 0 (set (free_list t))" for i
  proof -
    have "i < length t" "i \<noteq> k" using that k' linked_bounds [OF tw(2)] by auto
    then show "ie_bits (t' ! i) = ie_bits (t ! i)" "ie_object (t' ! i) = ie_object (t ! i)"
      "ie_request (t' ! i) = ie_request (t ! i)" using same by blast+
  qed
  have lk: "linked t' 0 (free_list t)" using tw(2) len by (rule linked_cong) (rule s(3))
  show fl: "free_list t' = free_list t" using free_list_eq [OF lk ne] .
  show "used t' i \<longleftrightarrow> used t i" by (simp add: used_def fl len)
  show "table_wf t'"
    unfolding table_wf_def fl using ne lk tw(3-6) by (simp add: s)
qed

end
