(* ===== verification/Ipc_Entry_Dealloc.thy ===== *)
theory Ipc_Entry_Dealloc
  imports Ipc_Entry_Inv
begin

text \<open>
  Correctness of \<open>ipc_entry_dealloc\<close>: in each of its cases, an entry in the tree, an entry in
  the table, and an entry in the table with collisions, whose place an entry of the tree
  takes, exactly the name is removed from the map of the space, the invariant of the space
  holds again, and the reverse hash tables are in step with it.
\<close>

subsection \<open>Collisions\<close>

lemma tree_collision_correct:
  assumes "is_active sp" "splay_invar (is_tree sp)" "MACH_PORT_VALID name"
  shows "\<exists>sp'. ipc_entry_tree_collision sp name = Some (port_index name \<in> port_index ` dom (tree_map sp), sp') \<and>
    resplayed sp sp'"
proof -
  obtain lo up tree where b: "ipc_splay_tree_bounds (is_tree sp) name = (lo, up, tree)"
    by (cases "ipc_splay_tree_bounds (is_tree sp) name") auto
  have "lo \<noteq> NOT 0 \<and> port_index lo = port_index name \<or> up \<noteq> 0 \<and> port_index up = port_index name \<longleftrightarrow>
      (\<exists>x\<in>set (splay_entries (is_tree sp)). port_index (fst x) = port_index name)"
    using assms(3) by (intro splay.bounds_class [OF assms(2) b] port_index_mono) auto
  also have "\<dots> \<longleftrightarrow> port_index name \<in> port_index ` dom (tree_map sp)"
    unfolding dom_tree_map image_image image_iff by (simp add: eq_commute)
  finally have c: "lo \<noteq> NOT 0 \<and> port_index lo = port_index name \<or> up \<noteq> 0 \<and> port_index up = port_index name \<longleftrightarrow>
    port_index name \<in> port_index ` dom (tree_map sp)" .
  have "splay_invar tree" "splay_entries tree = splay_entries (is_tree sp)"
    using splay.bounds [OF assms(2) b] by blast+
  then have "resplayed sp (sp\<lparr>is_tree := tree\<rparr>)" by (rule resplayedI)
  then show ?thesis
    using b c assms(1) by (simp add: ipc_entry_tree_collision_def)
qed

text \<open>Tables that differ in collision bits of entries in use.\<close>

definition collision_changed :: "ipc_entry list \<Rightarrow> ipc_entry list \<Rightarrow> bool" where
  "collision_changed t t' \<longleftrightarrow>
     length t' = length t \<and>
     (\<forall>i<length t. t' ! i = t ! i \<or>
        i \<notin> set (free_list t) \<and>
        (t' ! i = (t ! i)\<lparr>ie_bits := ie_bits (t ! i) OR IE_BITS_COLLISION\<rparr> \<or>
         t' ! i = (t ! i)\<lparr>ie_bits := ie_bits (t ! i) AND NOT IE_BITS_COLLISION\<rparr>))"

lemma collision_changed_same:
  assumes "collision_changed t t'" "table_wf t"
  shows "length t' = length t" "free_list t' = free_list t" "used t' i = used t i" "table_wf t'"
    "i < length t \<Longrightarrow> IE_BITS_GEN (ie_bits (t' ! i)) = IE_BITS_GEN (ie_bits (t ! i))"
    "i < length t \<Longrightarrow> IE_BITS_TYPE (ie_bits (t' ! i)) = IE_BITS_TYPE (ie_bits (t ! i))"
    "i < length t \<Longrightarrow> right_of (t' ! i) = right_of (t ! i)"
    "local_wf t \<Longrightarrow> local_wf t'" "local_wf t \<Longrightarrow> hashed t' = hashed t"
proof -
  show len: "length t' = length t" using assms(1) by (simp add: collision_changed_def)
  have ch: "t' ! i = t ! i \<or> i \<notin> set (free_list t) \<and>
        (t' ! i = (t ! i)\<lparr>ie_bits := ie_bits (t ! i) OR IE_BITS_COLLISION\<rparr> \<or>
         t' ! i = (t ! i)\<lparr>ie_bits := ie_bits (t ! i) AND NOT IE_BITS_COLLISION\<rparr>)" if "i < length t" for i
    using assms(1) that unfolding collision_changed_def by blast
  have same: "ie_request (t' ! i) = ie_request (t ! i)" "ie_object (t' ! i) = ie_object (t ! i)"
      "ie_index (t' ! i) = ie_index (t ! i)"
      "ie_bits (t' ! i) AND NOT IE_BITS_COLLISION = ie_bits (t ! i) AND NOT IE_BITS_COLLISION"
    if "i < length t" for i
    using ch [OF that] by (auto simp: ie_bits_bit)
  show gen: "IE_BITS_GEN (ie_bits (t' ! i)) = IE_BITS_GEN (ie_bits (t ! i))"
    "IE_BITS_TYPE (ie_bits (t' ! i)) = IE_BITS_TYPE (ie_bits (t ! i))"
    "right_of (t' ! i) = right_of (t ! i)" if "i < length t" for i
    using ch [OF that] by (auto simp: right_of_def)
  note tw = table_wfD [OF assms(2)]
  have lk: "linked t' 0 (free_list t)"
    using tw(2) len
  proof (rule linked_cong)
    fix j assume "j \<in> insert 0 (set (free_list t))"
    then have "j < length t" using linked_bounds [OF tw(2)] tw(1) by auto
    then show "ie_next (t' ! j) = ie_next (t ! j)" by (rule same(1))
  qed
  have ne: "t' \<noteq> []" using tw(1) len by auto
  show fl: "free_list t' = free_list t" using free_list_eq [OF lk ne] .
  show "used t' i = used t i" by (simp add: used_def fl len)
  show "table_wf t'"
    unfolding table_wf_def fl
  proof (intro conjI ballI ne lk)
    fix i assume i: "i \<in> set (free_list t)"
    then have "t' ! i = t ! i" using ch [of i] linked_bounds [OF tw(2)] by blast
    then show "ie_bits (t' ! i) AND NOT IE_BITS_GEN_MASK = 0" "ie_object (t' ! i) = 0"
      using tw(3,4) [OF i] by simp_all
  next
    show "ie_bits (t' ! 0) AND NOT IE_BITS_COLLISION = IE_BITS_GEN_MASK" "ie_object (t' ! 0) = 0"
      using same(2,4) [of 0] tw(1,5,6) by simp_all
  qed
  show "local_wf t'" "hashed t' = hashed t" if "local_wf t"
    using local_wf_cong [OF that len same(3)] same(2) hashed_bounds [OF that] by auto
qed

lemma collision_changed_space:
  assumes "collision_changed (is_table sp) t'" "table_wf (is_table sp)"
  shows "in_table (sp\<lparr>is_table := t'\<rparr>) name = in_table sp name"
    "in_table sp name \<Longrightarrow> right_of (t' ! port_index name) = right_of (is_table sp ! port_index name)"
proof -
  note c = collision_changed_same [OF assms]
  show "in_table (sp\<lparr>is_table := t'\<rparr>) name = in_table sp name"
    using c(3,5) usedD by (auto simp: in_table_def)
  show "in_table sp name \<Longrightarrow> right_of (t' ! port_index name) = right_of (is_table sp ! port_index name)"
    using c(7) usedD by (auto simp: in_table_def)
qed

subsection \<open>Removing an entry of the tree\<close>

lemma tree_removed:
  assumes wf: "space_wf sp" and name: "tree_map sp name \<noteq> None"
    and t': "collision_changed (is_table sp) t'"
    and coll: "\<And>i. i < length t' \<Longrightarrow>
      ie_bits (t' ! i) AND IE_BITS_COLLISION \<noteq> 0 \<longleftrightarrow> i \<in> port_index ` dom ((tree_map sp)(name := None))"
    and tree: "splay_invar tree'" "splay_map tree' = (tree_map sp)(name := None)"
    and sp': "sp' = sp\<lparr>is_table := t', is_tree := tree', is_tree_total := length (splay_entries tree'),
      is_tree_small := card (small_indices (is_table_size sp)
        (unat (ipc_table_entries ! is_table_next sp)) ((tree_map sp)(name := None)))\<rparr>"
  shows "space_wf sp'" "entry_map sp' = (entry_map sp)(name := None)"
    "hash_wf g is sp \<Longrightarrow> name \<notin> ghashed g is \<Longrightarrow> hash_wf g is sp'"
    "hash_wf g is sp \<Longrightarrow> hash_sync X g is sp \<Longrightarrow> hash_sync (X - {name}) g is sp'"
proof -
  let ?t = "is_table sp" let ?m = "(tree_map sp)(name := None)"
  note w = space_wfD [OF wf]
  note rw = tree_wfD [OF w(9)] and c = collision_changed_same [OF t' w(6)]
  have f: "is_table sp' = t'" "tree_map sp' = ?m" by (simp_all add: sp' tree)
  have tw: "tree_wf t' ?m"
    unfolding tree_wf_def
  proof (intro conjI allI impI)
    fix n e assume "?m n = Some e"
    then have n: "tree_map sp n = Some e" by (simp split: if_splits)
    show "MACH_PORT_VALID n" "ie_bits e AND NOT IE_BITS_RIGHT_MASK = 0" using rw(1,2) n by auto
    assume "0 < port_index n" "port_index n < length t'"
    then show "used t' (port_index n)" "IE_BITS_GEN (ie_bits (t' ! port_index n)) \<noteq> MACH_PORT_GEN n"
      using rw(3,4) [OF n] c(1,3,5) by simp_all
  qed (rule coll)
  show "space_wf sp'"
    unfolding space_wf_def f using w c(1,4) tree(1) tw by (simp add: sp')
  have it: "in_table sp' n = in_table sp n" for n
    using collision_changed_space(1) [OF t' w(6), of n] by (simp add: in_table_def sp')
  have notin: "\<not> in_table sp name" using in_table_not_tree [OF wf, of name] name by auto
  show "entry_map sp' = (entry_map sp)(name := None)"
  proof
    fix n show "entry_map sp' n = ((entry_map sp)(name := None)) n"
      using collision_changed_space(2) [OF t' w(6), of n] notin by (simp add: entry_map_def it f)
  qed
  show "hash_wf g is sp'" if h: "hash_wf g is sp" "name \<notin> ghashed g is"
  proof -
    note hw = hash_wfD [OF h(1)]
    have "global_in g is ?m"
      using hw(5) h(2) unfolding global_in_def by auto
    then show ?thesis
      using hw c(3,8,9) unfolding hash_wf_def f by (simp add: sp')
  qed
  show "hash_sync (X - {name}) g is sp'" if h: "hash_wf g is sp" "hash_sync X g is sp"
    unfolding hash_sync_def it f
  proof (intro conjI allI impI)
    fix n assume n: "in_table sp n" "n \<notin> X - {name}"
    then have "n \<notin> X" "port_index n < length ?t" using notin usedD by (auto simp: in_table_def)
    then show "port_index n \<in> hashed t' \<longleftrightarrow> IE_BITS_TYPE (ie_bits (t' ! port_index n)) = MACH_PORT_TYPE_SEND"
      using h n c(6) c(9) [OF hash_wfD(2) [OF h(1)]] by (simp add: hash_sync_def)
  next
    fix n e assume n: "?m n = Some e" "n \<notin> X - {name}"
    then have "tree_map sp n = Some e" "n \<notin> X" by (auto split: if_splits)
    then show "n \<in> ghashed g is \<longleftrightarrow> IE_BITS_TYPE (ie_bits e) = MACH_PORT_TYPE_SEND"
      using h(2) by (simp add: hash_sync_def)
  qed
qed

lemma dealloc_tree_correct:
  assumes wf: "space_wf sp" and name: "tree_map sp name = Some e" "ie_object e = 0" "ie_request e = 0"
  shows "\<exists>sp'. ipc_entry_dealloc is name (TreeEntry name) (g, sp) = Some (g, sp') \<and>
    space_wf sp' \<and> entry_map sp' = (entry_map sp)(name := None) \<and>
    (hash_wf g is sp \<longrightarrow> name \<notin> ghashed g is \<longrightarrow> hash_wf g is sp') \<and>
    (hash_wf g is sp \<longrightarrow> hash_sync X g is sp \<longrightarrow> hash_sync (X - {name}) g is sp')"
proof -
  let ?t = "is_table sp" let ?i = "port_index name" let ?m = "(tree_map sp)(name := None)"
  let ?ns = "unat (ipc_table_entries ! is_table_next sp)"
  note w = space_wfD [OF wf]
  note rw = tree_wfD [OF w(9)]
  obtain tree where tree: "ipc_splay_tree_delete (is_tree sp) name = Some tree" "splay_invar tree"
      "splay_map tree = ?m" "Suc (length (splay_entries tree)) = length (splay_entries (is_tree sp))"
    using splay.delete_tmap [OF w(7), of name] name(1) by (auto simp: splay_map_def)
  let ?sp1 = "sp\<lparr>is_tree := tree, is_tree_total := is_tree_total sp - 1\<rparr>"
  have tot: "is_tree_total sp - 1 = length (splay_entries tree)" "0 < is_tree_total sp"
    using tree(4) w(8) by linarith+
  have valid: "MACH_PORT_VALID name" using rw(1) name(1) by simp
  define c where "c \<longleftrightarrow> ?i \<in> port_index ` dom ?m"
  obtain tree2 where tree2: "splay_invar tree2" "splay_map tree2 = ?m"
      "splay_entries tree2 = splay_entries tree"
    and coll2: "ipc_entry_tree_collision ?sp1 name =
      Some (c, sp\<lparr>is_tree := tree2, is_tree_total := length (splay_entries tree)\<rparr>)"
  proof -
    obtain sp2 where sp2: "ipc_entry_tree_collision ?sp1 name = Some (c, sp2)" "resplayed ?sp1 sp2"
      using tree_collision_correct [of ?sp1 name] w(1) tree(2,3) valid by (auto simp: c_def)
    have "sp2 = sp\<lparr>is_tree := is_tree sp2, is_tree_total := length (splay_entries tree)\<rparr>"
      using sp2(2) tot(1) unfolding resplayed_def by (cases sp2) simp
    then show thesis
      using that [of "is_tree sp2"] resplayed_same [OF sp2(2)] sp2(1) tree(3) by simp
  qed
  have range: "port_index ` dom (tree_map sp) = insert ?i (port_index ` dom ?m)"
    using name(1) by (auto simp: dom_def)
  have nte: "\<not> is_table_entry sp name (TreeEntry name)" by (simp add: is_table_entry_def)
  note unfold = ipc_entry_dealloc_def Let_def nte
  have its: "nth_opt ipc_table_entries (is_table_next sp) = Some (ipc_table_entries ! is_table_next sp)"
    using w(4) by simp
  have same: "collision_changed ?t ?t" by (simp add: collision_changed_def)
  have coll_big: "ie_bits (?t ! i) AND IE_BITS_COLLISION \<noteq> 0 \<longleftrightarrow> i \<in> port_index ` dom ?m"
    if "length ?t \<le> ?i" "i < length ?t" for i
    using rw(5) [OF that(2)] that range by auto
  consider (table) "?i < length ?t" | (small) "length ?t \<le> ?i" "?i < ?ns" | (big) "length ?t \<le> ?i" "?ns \<le> ?i"
    by linarith
  then show ?thesis
  proof cases
    case table
    define t' where "t' = (if c then ?t else table_write ?t ?i (ie_bits_update (\<lambda>b. b AND NOT IE_BITS_COLLISION)))"
    have "?i \<notin> set (free_list ?t)"
      using free_not_in_tree [OF wf, of ?i] name(1) by blast
    then have cc: "collision_changed ?t t'"
      using table by (auto simp: collision_changed_def t'_def nth_table_write)
    have coll: "ie_bits (t' ! i) AND IE_BITS_COLLISION \<noteq> 0 \<longleftrightarrow> i \<in> port_index ` dom ?m" if "i < length t'" for i
    proof (cases "i = ?i")
      case True
      then show ?thesis using rw(5) [OF table] table range by (cases c) (auto simp: t'_def c_def)
    next
      case False
      have "i < length ?t" using that collision_changed_same(1) [OF cc w(6)] by simp
      moreover have "t' ! i = ?t ! i" using False by (simp add: t'_def)
      ultimately show ?thesis using rw(5) [of i] False unfolding range by simp
    qed
    have sm: "is_tree_small sp = card (small_indices (is_table_size sp) ?ns ?m)"
      unfolding w(10) small_indices_def range using table w(2) by (intro arg_cong [of _ _ card]) auto
    have "?i \<in> port_index ` dom (tree_map sp)" using range by simp
    then have "ie_bits (?t ! ?i) AND IE_BITS_COLLISION \<noteq> 0" using rw(5) [OF table] by blast
    then have "ipc_entry_dealloc is name (TreeEntry name) (g, sp) =
        Some (g, sp\<lparr>is_table := t', is_tree := tree2, is_tree_total := length (splay_entries tree2),
          is_tree_small := card (small_indices (is_table_size sp) ?ns ?m)\<rparr>)"
      unfolding sm [symmetric] using table w(1,2) name tree(1) tot(2) coll2
      by (simp add: unfold t'_def tree2(3))
    then show ?thesis
      using tree_removed [OF wf _ cc coll tree2(1,2)] name(1) by auto
  next
    case small
    have ins: "small_indices (is_table_size sp) ?ns (tree_map sp) =
        insert ?i (small_indices (is_table_size sp) ?ns ?m)"
      unfolding small_indices_def range using small w(2) by auto
    have fin: "finite (small_indices (is_table_size sp) ?ns ?m)"
      by (simp add: small_indices_def)
    have sm: "card (small_indices (is_table_size sp) ?ns ?m) =
        (if c then is_tree_small sp else is_tree_small sp - 1)" "\<not> c \<Longrightarrow> 0 < is_tree_small sp"
      unfolding w(10) ins using fin small w(2) by (auto simp: small_indices_def insert_absorb c_def)
    have "ipc_entry_dealloc is name (TreeEntry name) (g, sp) =
        Some (g, sp\<lparr>is_table := ?t, is_tree := tree2, is_tree_total := length (splay_entries tree2),
          is_tree_small := card (small_indices (is_table_size sp) ?ns ?m)\<rparr>)"
      unfolding sm(1) using small w(1,2) name tree(1) tot(2) coll2 its sm(2)
      by (simp add: unfold tree2(3))
    then show ?thesis
      using tree_removed [OF wf _ same coll_big tree2(1,2)] name(1) small by auto
  next
    case big
    have sm: "is_tree_small sp = card (small_indices (is_table_size sp) ?ns ?m)"
      unfolding w(10) small_indices_def range using big by (intro arg_cong [of _ _ card]) auto
    have "ipc_entry_dealloc is name (TreeEntry name) (g, sp) = Some (g, ?sp1)"
      using big w(1,2) name tree(1) tot(2) its by (auto simp: unfold)
    moreover have "?sp1 = sp\<lparr>is_table := ?t, is_tree := tree,
          is_tree_total := length (splay_entries tree),
          is_tree_small := card (small_indices (is_table_size sp) ?ns ?m)\<rparr>"
      using tot(1) sm by simp
    ultimately show ?thesis
      using tree_removed [OF wf _ same coll_big tree(2,3)] name(1) big by auto
  qed
qed

subsection \<open>Putting an entry on the free list\<close>

lemma dealloc_free_correct:
  assumes wf: "space_wf sp" and name: "in_table sp name"
    and e: "ie_object (is_table sp ! port_index name) = 0" "ie_request (is_table sp ! port_index name) = 0"
    and nocoll: "ie_bits (is_table sp ! port_index name) AND IE_BITS_COLLISION = 0"
  shows "\<exists>sp'. ipc_entry_dealloc is name (TableEntry (port_index name)) (g, sp) = Some (g, sp') \<and>
    space_wf sp' \<and> entry_map sp' = (entry_map sp)(name := None) \<and>
    (hash_wf g is sp \<longrightarrow> port_index name \<notin> hashed (is_table sp) \<longrightarrow> hash_wf g is sp') \<and>
    (hash_wf g is sp \<longrightarrow> hash_sync X g is sp \<longrightarrow> hash_sync (X - {name}) g is sp')"
proof -
  let ?t = "is_table sp" let ?k = "port_index name"
  let ?t1 = "table_write ?t ?k (\<lambda>e. e\<lparr>ie_bits := ie_bits e AND IE_BITS_GEN_MASK, ie_request := ie_next (?t ! 0)\<rparr>)"
  define t' where "t' = table_write ?t1 0 (ie_request_update (\<lambda>_. ?k))"
  let ?sp = "sp\<lparr>is_table := t'\<rparr>"
  note w = space_wfD [OF wf]
  note tw = table_wfD [OF w(6)] and rw = tree_wfD [OF w(9)]
  have k: "used ?t ?k" "IE_BITS_GEN (ie_bits (?t ! ?k)) = MACH_PORT_GEN name"
    using name by (simp_all add: in_table_def)
  then have k': "0 < ?k" "?k < length ?t" "?k \<notin> set (free_list ?t)" by (simp_all add: used_def)
  have len: "length t' = length ?t" by (simp add: t'_def)
  have f0: "t' ! 0 = (?t ! 0)\<lparr>ie_request := ?k\<rparr>"
    and fk: "t' ! ?k = (?t ! ?k)\<lparr>ie_bits := ie_bits (?t ! ?k) AND IE_BITS_GEN_MASK, ie_request := ie_next (?t ! 0)\<rparr>"
    using k' tw(1) by (simp_all add: t'_def)
  have fi: "t' ! i = ?t ! i" if "i \<noteq> 0" "i \<noteq> ?k" for i
    using that by (simp add: t'_def)
  have ktree: "?k \<notin> port_index ` dom (tree_map sp)" using rw(5) [OF k'(2)] nocoll by blast
  have lk: "linked t' 0 (?k # free_list ?t)"
  proof -
    have "linked t' ?k (free_list ?t)"
      using tw(2) len
    proof (rule linked_move)
      show "ie_next (t' ! ?k) = ie_next (?t ! 0)" by (simp add: fk)
      fix i assume "i \<in> set (free_list ?t)"
      then have "i \<noteq> 0" "i \<noteq> ?k" using linked_bounds [OF tw(2)] k'(3) by auto
      then show "ie_next (t' ! i) = ie_next (?t ! i)" by (simp add: fi)
    qed
    then show ?thesis using k' len by (simp add: f0)
  qed
  have ne: "t' \<noteq> []" using tw(1) len by auto
  have fl: "free_list t' = ?k # free_list ?t" using free_list_eq [OF lk ne] .
  have us: "used t' i \<longleftrightarrow> used ?t i \<and> i \<noteq> ?k" for i by (auto simp: used_def fl len)
  have ui: "t' ! i = ?t ! i" if "used t' i" for i
    using that fi [of i] us [of i] by (auto simp: used_def)
  have tab: "table_wf t'"
    unfolding table_wf_def fl
  proof (intro conjI ballI ne lk)
    fix i assume i: "i \<in> set (?k # free_list ?t)"
    have "ie_bits (t' ! i) AND NOT IE_BITS_GEN_MASK = 0 \<and> ie_object (t' ! i) = 0"
    proof (cases "i = ?k")
      case True then show ?thesis using e gen_only(3) by (simp add: fk)
    next
      case False
      then have "i \<in> set (free_list ?t)" "i \<noteq> 0" using i linked_bounds [OF tw(2)] by auto
      then show ?thesis using tw(3,4) fi False by simp
    qed
    then show "ie_bits (t' ! i) AND NOT IE_BITS_GEN_MASK = 0" "ie_object (t' ! i) = 0" by blast+
  next
    show "ie_bits (t' ! 0) AND NOT IE_BITS_COLLISION = IE_BITS_GEN_MASK" "ie_object (t' ! 0) = 0"
      using tw(5,6) by (simp_all add: f0)
  qed
  have tree: "tree_wf t' (tree_map sp)"
    unfolding tree_wf_def
  proof (intro conjI allI impI)
    fix n e assume n: "tree_map sp n = Some e"
    show "MACH_PORT_VALID n" "ie_bits e AND NOT IE_BITS_RIGHT_MASK = 0" using rw(1,2) n by auto
    assume i: "0 < port_index n" "port_index n < length t'"
    have "port_index n \<noteq> ?k" using ktree n by (metis domI image_eqI)
    then show u: "used t' (port_index n)" using rw(3) [OF n] i len us by simp
    show "IE_BITS_GEN (ie_bits (t' ! port_index n)) \<noteq> MACH_PORT_GEN n"
      using rw(4) [OF n] i len ui [OF u] by simp
  next
    fix i assume i: "i < length t'"
    consider "i = 0" | "i = ?k" | "i \<noteq> 0" "i \<noteq> ?k" by blast
    then show "ie_bits (t' ! i) AND IE_BITS_COLLISION \<noteq> 0 \<longleftrightarrow> i \<in> port_index ` dom (tree_map sp)"
    proof cases
      case 1 then show ?thesis using rw(5) [of 0] i len by (simp add: f0)
    next
      case 2 then show ?thesis using ktree free_bits(2) [OF gen_only(3)] by (simp add: fk)
    next
      case 3 then show ?thesis using rw(5) [of i] i len by (simp add: fi)
    qed
  qed
  have wf': "space_wf ?sp"
    unfolding space_wf_def using w tab tree len by simp
  have it: "in_table ?sp n \<longleftrightarrow> in_table sp n \<and> n \<noteq> name" for n
  proof -
    have "port_index n = ?k \<Longrightarrow> MACH_PORT_GEN n = MACH_PORT_GEN name \<Longrightarrow> n = name"
      using mach_port_eqI [of n name] by (simp add: word_unat_eq_iff)
    then show ?thesis
      using us [of "port_index n"] ui [of "port_index n"] k(2) by (auto simp: in_table_def)
  qed
  have ri: "t' ! port_index n = ?t ! port_index n" if "in_table ?sp n" for n
    using that ui by (simp add: in_table_def)
  have "tree_map sp name = None" using in_table_not_tree [OF wf name] .
  then have map: "entry_map ?sp = (entry_map sp)(name := None)"
    using it ri by (auto simp: fun_eq_iff entry_map_def)
  have loc: "local_wf t'" "hashed t' = hashed ?t" if "hash_wf g is sp"
  proof -
    have "ie_index (t' ! i) = ie_index (?t ! i)" "ie_object (t' ! i) = ie_object (?t ! i)" for i
      using f0 fk fi by (metis ipc_entry.select_convs(2,4) ipc_entry.surjective ipc_entry.update_convs(1,3))+
    then show "local_wf t'" "hashed t' = hashed ?t"
      using local_wf_cong [OF hash_wfD(2) [OF that] len] by blast+
  qed
  have hash: "hash_wf g is ?sp" if "hash_wf g is sp" "?k \<notin> hashed ?t"
    using that loc [OF that(1)] us unfolding hash_wf_def by auto
  have sync: "hash_sync (X - {name}) g is ?sp" if h: "hash_wf g is sp" "hash_sync X g is sp"
    using h(2) ri loc(2) [OF h(1)] \<open>tree_map sp name = None\<close> unfolding hash_sync_def it by auto
  have "ipc_entry_dealloc is name (TableEntry ?k) (g, sp) = Some (g, ?sp)"
    using w(1,2) k k' e nocoll tw(1)
    by (simp add: ipc_entry_dealloc_def Let_def is_table_entry_def t'_def)
  then show ?thesis using wf' map hash sync by blast
qed

subsection \<open>Moving an entry from the tree to the table\<close>

text \<open>Splitting the tree at the first name of an index.\<close>

lemma MAKE_of_nat_le_iff:
  "i < 2 ^ 24 \<Longrightarrow> MACH_PORT_MAKE (of_nat i) 0 \<le> name \<longleftrightarrow> i \<le> port_index name"
  using MACH_PORT_MAKE_le_iff [of "of_nat i" name] by (simp add: unat_of_nat_index)

lemma split_at_index:
  assumes "splay_invar tree" "i < 2 ^ 24"
  shows "\<exists>tree' small. ipc_splay_tree_split tree (MACH_PORT_MAKE (of_nat i) 0) = Some (tree', small) \<and>
    splay_invar tree' \<and> splay_invar small \<and>
    splay_entries tree = splay_entries small @ splay_entries tree' \<and>
    (\<forall>x\<in>set (splay_entries small). port_index (fst x) < i) \<and>
    (\<forall>x\<in>set (splay_entries tree'). i \<le> port_index (fst x))"
proof -
  let ?n = "MACH_PORT_MAKE (of_nat i) 0"
  obtain tree' small where sp: "ipc_splay_tree_split tree ?n = Some (tree', small)"
    "splay_invar tree'" "splay_invar small"
    "splay_entries tree' = at_or_above ?n (splay_entries tree)"
    "splay_entries small = below ?n (splay_entries tree)"
    using splay.split [OF assms(1), of ?n] by blast
  moreover have "splay_entries tree = splay_entries small @ splay_entries tree'"
    using below_append_at_or_above [OF splay.sorted [OF assms(1)], of ?n] sp(4,5) by simp
  moreover have "\<forall>x\<in>set (splay_entries small). port_index (fst x) < i"
    unfolding sp(5) below_def using MAKE_of_nat_le_iff [OF assms(2)] by (simp add: not_le [symmetric])
  moreover have "\<forall>x\<in>set (splay_entries tree'). i \<le> port_index (fst x)"
    unfolding sp(4) at_or_above_def using MAKE_of_nat_le_iff [OF assms(2)] by simp
  ultimately show ?thesis by blast
qed

lemma filter_neq_append:
  assumes "distinct (map fst (xs @ ys @ zs))" "k \<in> fst ` set ys"
  shows "filter (\<lambda>x. fst x \<noteq> k) (xs @ ys @ zs) = xs @ filter (\<lambda>x. fst x \<noteq> k) ys @ zs"
proof -
  have "k \<notin> fst ` set xs" "k \<notin> fst ` set zs" using assms by auto
  then have "filter (\<lambda>x. fst x \<noteq> k) xs = xs" "filter (\<lambda>x. fst x \<noteq> k) zs = zs"
    by (auto intro!: filter_True simp: image_iff)
  then show ?thesis by simp
qed

text \<open>The tree part of the collision case of \<open>ipc_entry_dealloc\<close>: one entry with the index
  \<open>k\<close> is taken out, the rest is put together again.\<close>

lemma take_collision:
  assumes inv: "splay_invar tree" and k: "k + 1 < 2 ^ 24" and some: "k \<in> port_index ` dom (splay_map tree)"
  obtains tree1 coll1 coll2 small tname tentry coll3 where
    "ipc_splay_tree_split tree (MACH_PORT_MAKE (of_nat (k + 1)) 0) = Some (tree1, coll1)"
    "ipc_splay_tree_split coll1 (MACH_PORT_MAKE (of_nat k) 0) = Some (coll2, small)"
    "ipc_splay_tree_pick coll2 = Some (tname, tentry)"
    "port_index tname = k" "splay_map tree tname = Some tentry"
    "ipc_splay_tree_delete coll2 tname = Some coll3"
    "ipc_splay_tree_pick coll3 = None \<longleftrightarrow> k \<notin> port_index ` dom ((splay_map tree)(tname := None))"
    "\<exists>tree2 tree3.
       (if ipc_splay_tree_pick coll3 = None then tree2 = tree1
        else ipc_splay_tree_join tree1 coll3 = Some tree2) \<and>
       ipc_splay_tree_join tree2 small = Some tree3 \<and> splay_invar tree3 \<and>
       splay_map tree3 = (splay_map tree)(tname := None) \<and>
       Suc (length (splay_entries tree3)) = length (splay_entries tree)"
proof -
  obtain tree1 coll1 where s1: "ipc_splay_tree_split tree (MACH_PORT_MAKE (of_nat (k + 1)) 0) = Some (tree1, coll1)"
      "splay_invar tree1" "splay_invar coll1" "splay_entries tree = splay_entries coll1 @ splay_entries tree1"
      "\<forall>x\<in>set (splay_entries coll1). port_index (fst x) < k + 1"
      "\<forall>x\<in>set (splay_entries tree1). k + 1 \<le> port_index (fst x)"
    using split_at_index [OF inv k] by blast
  obtain coll2 small where s2: "ipc_splay_tree_split coll1 (MACH_PORT_MAKE (of_nat k) 0) = Some (coll2, small)"
      "splay_invar coll2" "splay_invar small" "splay_entries coll1 = splay_entries small @ splay_entries coll2"
      "\<forall>x\<in>set (splay_entries small). port_index (fst x) < k"
      "\<forall>x\<in>set (splay_entries coll2). k \<le> port_index (fst x)"
    using split_at_index [OF s1(3), of k] k by auto
  let ?S = "splay_entries small" and ?C = "splay_entries coll2" and ?B = "splay_entries tree1"
  have ents: "splay_entries tree = ?S @ ?C @ ?B" using s1(4) s2(4) by simp
  have sorted: "sorted_keys (?S @ ?C @ ?B)" using splay.sorted [OF inv] ents by simp
  have dist: "distinct (map fst (?S @ ?C @ ?B))" using sorted_keys_distinct [OF sorted] .
  have C: "port_index (fst x) = k" if "x \<in> set ?C" for x
  proof -
    have "x \<in> set (splay_entries coll1)" using that s2(4) by simp
    then show ?thesis using that s1(5) s2(6) by (metis Suc_eq_plus1 le_antisym less_Suc_eq_le)
  qed
  have dom: "dom (splay_map tree) = fst ` set (?S @ ?C @ ?B)"
    unfolding splay_map_def ents by (rule dom_map_of_conv_image_fst)
  obtain n where n: "n \<in> dom (splay_map tree)" "port_index n = k" using some by blast
  have "n \<in> fst ` set ?C" using n s1(6) s2(5) unfolding dom by fastforce
  then have "?C \<noteq> []" by auto
  then obtain x where "ipc_splay_tree_pick coll2 = Some x" using splay.pick_None [of coll2] by blast
  moreover obtain tname tentry where x: "x = (tname, tentry)" by (cases x)
  ultimately have pick: "ipc_splay_tree_pick coll2 = Some (tname, tentry)" by simp
  then have inC: "(tname, tentry) \<in> set ?C" by (rule splay.pick_Some)
  have idx: "port_index tname = k" using C [OF inC] by simp
  have tm: "splay_map tree tname = Some tentry"
    unfolding splay_map_def using inC ents dist by (intro map_of_is_SomeI) simp_all
  have tC: "tname \<in> fst ` set ?C" using inC by force
  obtain coll3 where d: "ipc_splay_tree_delete coll2 tname = Some coll3" "splay_invar coll3"
      "splay_entries coll3 = filter (\<lambda>x. fst x \<noteq> tname) ?C"
    using splay.delete [OF s2(2) tC] by blast
  have dom': "dom ((splay_map tree)(tname := None)) = fst ` set (?S @ splay_entries coll3 @ ?B)"
    using filter_neq_append [OF dist tC] unfolding d(3)
    by (metis dom_map_of_conv_image_fst ents map_of_filter_neq splay_map_def)
  have pick3: "ipc_splay_tree_pick coll3 = None \<longleftrightarrow> k \<notin> port_index ` dom ((splay_map tree)(tname := None))"
  proof -
    have "k \<in> port_index ` dom ((splay_map tree)(tname := None)) \<longleftrightarrow> splay_entries coll3 \<noteq> []"
    proof
      assume "k \<in> port_index ` dom ((splay_map tree)(tname := None))"
      then obtain x where "x \<in> set (?S @ splay_entries coll3 @ ?B)" "port_index (fst x) = k"
        unfolding dom' by auto
      then have "x \<in> set (splay_entries coll3)" using s1(6) s2(5) by fastforce
      then show "splay_entries coll3 \<noteq> []" by auto
    next
      assume "splay_entries coll3 \<noteq> []"
      then have h: "hd (splay_entries coll3) \<in> set (splay_entries coll3)" by simp
      then have "port_index (fst (hd (splay_entries coll3))) = k" using C unfolding d(3) by simp
      then show "k \<in> port_index ` dom ((splay_map tree)(tname := None))"
        unfolding dom' using h by (metis Un_iff image_eqI set_append)
    qed
    then show ?thesis using splay.pick_None [of coll3] by blast
  qed
  have lt: "\<forall>x\<in>set (splay_entries coll3). \<forall>y\<in>set ?B. fst x < fst y"
    using sorted unfolding d(3) by auto
  obtain tree2 where t2: "if ipc_splay_tree_pick coll3 = None then tree2 = tree1
      else ipc_splay_tree_join tree1 coll3 = Some tree2" "splay_invar tree2"
      "splay_entries tree2 = splay_entries coll3 @ ?B"
  proof (cases "ipc_splay_tree_pick coll3 = None")
    case True
    then show thesis using that [of tree1] splay.pick_None [of coll3] s1(2) by simp
  next
    case False
    then show thesis using that splay.join [OF s1(2) d(2) lt] by auto
  qed
  have "\<forall>x\<in>set ?S. \<forall>y\<in>set (splay_entries tree2). fst x < fst y"
    using sorted unfolding t2(3) d(3) by auto
  then obtain tree3 where t3: "ipc_splay_tree_join tree2 small = Some tree3" "splay_invar tree3"
      "splay_entries tree3 = ?S @ splay_entries coll3 @ ?B"
    using splay.join [OF t2(2) s2(3)] t2(3) by auto
  have e3: "splay_entries tree3 = filter (\<lambda>x. fst x \<noteq> tname) (splay_entries tree)"
    unfolding t3(3) d(3) ents using filter_neq_append [OF dist tC] by simp
  have "splay_map tree3 = (splay_map tree)(tname := None)"
    unfolding splay_map_def e3 by (rule map_of_filter_neq)
  moreover have "Suc (length (splay_entries tree3)) = length (splay_entries tree)"
    unfolding e3 using dist tC ents by (intro length_filter_neq) auto
  ultimately show thesis
    using that [OF s1(1) s2(1) pick idx tm d(1) pick3] t2(1) t3(1,2) by blast
qed

text \<open>Moving the reverse hash entry of a tree entry to the table.\<close>

lemma move_hash:
  assumes loc: "local_wf t" "0 < k" "k < length t" "k \<notin> hashed t" "is_table_size sp = length t"
    and t1: "is_table sp = table_write t k (\<lambda>e. e\<lparr>ie_bits := b, ie_object := obj, ie_request := r\<rparr>)"
    and glo: "global_wf g" "is \<noteq> 0" "global_in g is m" "m tname = Some tentry" "ie_object tentry = obj"
      "is_tree_hash sp = card (ghashed g is)"
    and sync: "IE_BITS_TYPE bits = MACH_PORT_TYPE_SEND \<longleftrightarrow> tname \<in> ghashed g is"
  shows "\<exists>g' t2.
    (if IE_BITS_TYPE bits = MACH_PORT_TYPE_SEND then
       do {
         (g, sp) \<leftarrow> ipc_hash_global_delete g is sp obj tname tentry;
         sp \<leftarrow> ipc_hash_local_insert sp obj k;
         Some (g, sp)
       }
     else Some (g, sp)) = Some (g', sp\<lparr>is_table := t2, is_tree_hash := card (ghashed g' is)\<rparr>) \<and>
    strip t2 = strip (is_table sp) \<and> local_wf t2 \<and>
    hashed t2 = (if tname \<in> ghashed g is then insert k (hashed t) else hashed t) \<and>
    global_wf g' \<and> ghashed g' is = ghashed g is - {tname} \<and> global_in g' is (m(tname := None)) \<and>
    others_kept is g g'"
proof -
  let ?t1 = "is_table sp"
  have o: "ie_index (?t1 ! i) = ie_index (t ! i)" for i
    unfolding t1 by (rule table_write_field) simp
  have ob: "ie_object (?t1 ! i) = ie_object (t ! i)" if "i \<in> hashed t" for i
    using that loc(4) t1 by (cases "i = k") auto
  have "length ?t1 = length t" by (simp add: t1)
  note l1 = local_wf_cong [OF loc(1) this o ob]
  show ?thesis
  proof (cases "tname \<in> ghashed g is")
    case False
    have "global_in g is (m(tname := None))"
      using glo(3) False unfolding global_in_def by (metis fun_upd_other)
    then show ?thesis using False sync l1 glo(1,6) by (intro exI [of _ g] exI [of _ ?t1]) simp
  next
    case True
    then have in_b: "obj \<noteq> 0" "(is, tname) \<in> set (ipc_hash_global_table g ! IH_GLOBAL_HASH g is obj)"
      using glo(3-5) unfolding global_in_def by auto
    have pos: "0 < is_tree_hash sp" using True glo(6) by (metis card_gt_0_iff empty_iff finite_ghashed)
    obtain g' where g': "ipc_hash_global_delete g is sp obj tname tentry = Some (g', sp\<lparr>is_tree_hash := is_tree_hash sp - 1\<rparr>)"
        "global_wf g'" "ghashed g' is = ghashed g is - {tname}" 
        "\<forall>m m'. global_in g is m \<longrightarrow> (\<forall>n\<in>ghashed g is - {tname}. m' n = m n) \<longrightarrow> global_in g' is m'"
        "others_kept is g g'"
      using global_delete_correct [OF glo(1,2) in_b(1) glo(5) in_b(2) pos] by blast
    have gin: "global_in g' is (m(tname := None))" using g'(4) glo(3) by simp
    let ?sp = "sp\<lparr>is_tree_hash := is_tree_hash sp - 1\<rparr>"
    have "\<exists>t'. ipc_hash_local_insert ?sp obj k = Some (?sp\<lparr>is_table := t'\<rparr>) \<and>
        strip t' = strip (is_table ?sp) \<and> local_wf t' \<and> hashed t' = insert k (hashed (is_table ?sp))"
      using l1 loc in_b(1) t1 by (intro local_insert_correct) simp_all
    then obtain t' where t': "ipc_hash_local_insert ?sp obj k = Some (?sp\<lparr>is_table := t'\<rparr>)"
        "strip t' = strip ?t1" "local_wf t'" "hashed t' = insert k (hashed ?t1)" by auto
    show ?thesis
      using True sync g' gin t' l1(2) glo(6) by (intro exI [of _ g'] exI [of _ t']) simp
  qed
qed

lemma moved_keeps:
  assumes wf: "space_wf sp" and name: "in_table sp name"
    and tn: "tree_map sp tname = Some tentry" "port_index tname = port_index name"
    and len: "length t' = length (is_table sp)"
    and oth: "\<And>i. i < length t' \<Longrightarrow> i \<noteq> port_index name \<Longrightarrow>
      ie_bits (t' ! i) = ie_bits (is_table sp ! i) \<and> ie_object (t' ! i) = ie_object (is_table sp ! i) \<and>
      ie_request (t' ! i) = ie_request (is_table sp ! i)"
    and bits: "ie_bits (t' ! port_index name) =
      (ie_bits tentry OR MACH_PORT_GEN tname) OR
      (if port_index name \<in> port_index ` dom ((tree_map sp)(tname := None)) then IE_BITS_COLLISION else 0)"
    and ob: "ie_object (t' ! port_index name) = ie_object tentry" "ie_request (t' ! port_index name) = ie_request tentry"
    and tree: "splay_invar tree'" "splay_map tree' = (tree_map sp)(tname := None)"
    and sp': "sp' = sp\<lparr>is_table := t', is_tree := tree', is_tree_total := length (splay_entries tree'), is_tree_hash := h\<rparr>"
  shows "space_wf sp'" "entry_map sp' = (entry_map sp)(name := None)"
    "in_table sp' n \<longleftrightarrow> n = tname \<or> n \<noteq> name \<and> in_table sp n" "used t' i \<longleftrightarrow> used (is_table sp) i"
    "IE_BITS_TYPE (ie_bits (t' ! port_index name)) = IE_BITS_TYPE (ie_bits tentry)"
proof -
  let ?t = "is_table sp" let ?k = "port_index name" let ?m = "(tree_map sp)(tname := None)"
  note w = space_wfD [OF wf]
  note rw = tree_wfD [OF w(9)]
  have k: "used ?t ?k" "IE_BITS_GEN (ie_bits (?t ! ?k)) = MACH_PORT_GEN name"
    using name by (simp_all add: in_table_def)
  then have k': "0 < ?k" "?k < length ?t" by (simp_all add: used_def)
  have uc: "free_list t' = free_list ?t" "table_wf t'" "used t' i \<longleftrightarrow> used ?t i" for i
    using used_changed [OF w(6) k(1) len] oth len by simp_all
  show "used t' i \<longleftrightarrow> used ?t i" by (rule uc(3))
  note g = gen_bits [OF rw(2) [OF tn(1)], of tname]
  have b: "IE_BITS_TYPE (ie_bits (t' ! ?k)) = IE_BITS_TYPE (ie_bits tentry)"
    "IE_BITS_GEN (ie_bits (t' ! ?k)) = MACH_PORT_GEN tname" "ie_bits (t' ! ?k) AND IE_BITS_RIGHT_MASK = ie_bits tentry"
    "ie_bits (t' ! ?k) AND IE_BITS_COLLISION \<noteq> 0 \<longleftrightarrow> ?k \<in> port_index ` dom ?m"
    unfolding bits using g collision_bit(4) [of 0] by simp_all
  show "IE_BITS_TYPE (ie_bits (t' ! ?k)) = IE_BITS_TYPE (ie_bits tentry)" by (rule b(1))
  have f: "is_table sp' = t'" "tree_map sp' = ?m" by (simp_all add: sp' tree)
  have ran: "port_index ` dom (tree_map sp) = insert ?k (port_index ` dom ?m)"
  proof -
    have "dom (tree_map sp) = insert tname (dom ?m)" using tn(1) by auto
    then show ?thesis using tn(2) by (metis image_insert)
  qed
  have tw: "tree_wf t' ?m"
    unfolding tree_wf_def
  proof (intro conjI allI impI)
    fix n e assume "?m n = Some e"
    then have n: "tree_map sp n = Some e" "n \<noteq> tname" by (simp_all split: if_splits)
    show "MACH_PORT_VALID n" "ie_bits e AND NOT IE_BITS_RIGHT_MASK = 0" using rw(1,2) n by auto
    assume i: "0 < port_index n" "port_index n < length t'"
    then show "used t' (port_index n)" using rw(3) [OF n(1)] len uc(3) by simp
    show "IE_BITS_GEN (ie_bits (t' ! port_index n)) \<noteq> MACH_PORT_GEN n"
    proof (cases "port_index n = ?k")
      case True
      then have "MACH_PORT_GEN n \<noteq> MACH_PORT_GEN tname"
        using mach_port_eqI [of n tname] n(2) tn(2) by (auto simp: word_unat_eq_iff)
      then show ?thesis using b(2) True by simp
    next
      case False
      then show ?thesis using rw(4) [OF n(1)] i oth len by simp
    qed
  next
    fix i assume i: "i < length t'"
    show "ie_bits (t' ! i) AND IE_BITS_COLLISION \<noteq> 0 \<longleftrightarrow> i \<in> port_index ` dom ?m"
    proof (cases "i = ?k")
      case False
      then show ?thesis using rw(5) [of i] i oth len unfolding ran by simp
    qed (simp add: b(4))
  qed
  have "small_indices (length ?t) nsize (tree_map sp) = small_indices (length ?t) nsize ?m" for nsize
    unfolding small_indices_def ran using k'(2) by auto
  then show "space_wf sp'"
    unfolding space_wf_def f using w len uc(2) tree(1) tw by (simp add: sp')
  have nn: "name \<noteq> tname" using in_table_not_tree [OF wf name] tn(1) by auto
  have ntn: "\<not> in_table sp tname" using in_table_not_tree [OF wf, of tname] tn(1) by auto
  show it: "in_table sp' n \<longleftrightarrow> n = tname \<or> n \<noteq> name \<and> in_table sp n" for n
  proof (cases "port_index n = ?k")
    case True
    have "MACH_PORT_GEN n = MACH_PORT_GEN n' \<longleftrightarrow> n = n'" if "port_index n' = ?k" for n'
      using port_eqI [of n n'] that True by metis
    then have "MACH_PORT_GEN tname = MACH_PORT_GEN n \<longleftrightarrow> n = tname" "MACH_PORT_GEN name = MACH_PORT_GEN n \<longleftrightarrow> n = name"
      using tn(2) by metis+
    then show ?thesis using True k b(2) uc(3) by (auto simp: in_table_def f)
  next
    case False
    then show ?thesis using oth [of "port_index n"] len usedD uc(3) tn(2) by (auto simp: in_table_def f)
  qed
  have ri: "right_of (t' ! port_index n) = right_of (?t ! port_index n)" if "in_table sp n" "n \<noteq> name" for n
  proof -
    have "port_index n \<noteq> ?k"
      using that k(2) port_eqI [of n name] by (auto simp: in_table_def)
    moreover have "port_index n < length t'" using that usedD len by (simp add: in_table_def)
    ultimately show ?thesis using oth by (simp add: right_of_def)
  qed
  have rt: "right_of (t' ! ?k) = right_of tentry"
  proof -
    have "ie_bits tentry AND IE_BITS_RIGHT_MASK = ie_bits tentry"
      using b(3) by (metis and.right_idem)
    then show ?thesis using b(3) ob by (simp add: right_of_def)
  qed
  have nt: "tree_map sp name = None" using in_table_not_tree [OF wf name] .
  show "entry_map sp' = (entry_map sp)(name := None)"
  proof
    fix n
    show "entry_map sp' n = ((entry_map sp)(name := None)) n"
      using ri [of n] rt nt nn ntn tn by (auto simp: entry_map_def it f)
  qed
qed

lemma dealloc_collision_correct:
  assumes wf: "space_wf sp" and name: "in_table sp name"
    and hw: "hash_wf g is sp" and hs: "hash_sync {name} g is sp"
    and e: "ie_object (is_table sp ! port_index name) = 0" "ie_request (is_table sp ! port_index name) = 0"
    and coll: "ie_bits (is_table sp ! port_index name) AND IE_BITS_COLLISION \<noteq> 0"
  shows "\<exists>g' sp'. ipc_entry_dealloc is name (TableEntry (port_index name)) (g, sp) = Some (g', sp') \<and>
    space_wf sp' \<and> entry_map sp' = (entry_map sp)(name := None) \<and>
    hash_wf g' is sp' \<and> hash_sync {} g' is sp' \<and> others_kept is g g'"
proof -
  let ?t = "is_table sp" let ?k = "port_index name"
  note w = space_wfD [OF wf] and h = hash_wfD [OF hw]
  note rw = tree_wfD [OF w(9)]
  have k: "used ?t ?k" "IE_BITS_GEN (ie_bits (?t ! ?k)) = MACH_PORT_GEN name"
    using name by (simp_all add: in_table_def)
  then have k': "0 < ?k" "?k < length ?t" by (simp_all add: used_def)
  have khash: "?k \<notin> hashed ?t" using hashed_bounds [OF h(2)] e(1) by auto
  have k24: "?k + 1 < 2 ^ 24" using k'(2) space_table_bound [OF wf] by simp
  have ktree: "?k \<in> port_index ` dom (tree_map sp)" using rw(5) [OF k'(2)] coll by blast
  obtain tree1 coll1 coll2 small tname tentry coll3 tree2 tree3 where
    s: "ipc_splay_tree_split (is_tree sp) (MACH_PORT_MAKE (of_nat (?k + 1)) 0) = Some (tree1, coll1)"
      "ipc_splay_tree_split coll1 (MACH_PORT_MAKE (of_nat ?k) 0) = Some (coll2, small)"
      "ipc_splay_tree_pick coll2 = Some (tname, tentry)" and idx: "port_index tname = ?k"
    and tm: "tree_map sp tname = Some tentry"
    and d: "ipc_splay_tree_delete coll2 tname = Some coll3"
      "ipc_splay_tree_pick coll3 = None \<longleftrightarrow> ?k \<notin> port_index ` dom ((tree_map sp)(tname := None))"
    and j: "if ipc_splay_tree_pick coll3 = None then tree2 = tree1 else ipc_splay_tree_join tree1 coll3 = Some tree2"
      "ipc_splay_tree_join tree2 small = Some tree3" "splay_invar tree3"
      "splay_map tree3 = (tree_map sp)(tname := None)"
      "Suc (length (splay_entries tree3)) = length (splay_entries (is_tree sp))"
    by (rule take_collision [OF w(7) k24 ktree]) metis
  have nn: "tname \<noteq> name" using in_table_not_tree [OF wf name] tm by auto
  define f where "f = (\<lambda>e :: ipc_entry. e\<lparr>ie_bits := ie_bits tentry OR MACH_PORT_GEN tname,
    ie_object := ie_object tentry, ie_request := ie_request tentry\<rparr>)"
  let ?sp1 = "sp\<lparr>is_tree := tree1, is_table := table_write ?t ?k f\<rparr>"
  have sync: "IE_BITS_TYPE (ie_bits tentry) = MACH_PORT_TYPE_SEND \<longleftrightarrow> tname \<in> ghashed g is"
    using hs tm nn unfolding hash_sync_def by blast
  have f1: "is_table_size ?sp1 = length ?t"
    "is_table ?sp1 = table_write ?t ?k (\<lambda>e. e\<lparr>ie_bits := ie_bits tentry OR MACH_PORT_GEN tname,
      ie_object := ie_object tentry, ie_request := ie_request tentry\<rparr>)"
    "is_tree_hash ?sp1 = card (ghashed g is)"
    using w(2) h(6) by (simp_all add: f_def)
  obtain g' t2 where mv:
    "(if IE_BITS_TYPE (ie_bits tentry) = MACH_PORT_TYPE_SEND then
        do {
          (g, sp) \<leftarrow> ipc_hash_global_delete g is ?sp1 (ie_object tentry) tname tentry;
          sp \<leftarrow> ipc_hash_local_insert sp (ie_object tentry) ?k;
          Some (g, sp)
        }
      else Some (g, ?sp1)) = Some (g', ?sp1\<lparr>is_table := t2, is_tree_hash := card (ghashed g' is)\<rparr>)"
    "strip t2 = strip (is_table ?sp1)" "local_wf t2"
    "hashed t2 = (if tname \<in> ghashed g is then insert ?k (hashed ?t) else hashed ?t)"
    "global_wf g'" "ghashed g' is = ghashed g is - {tname}" "global_in g' is ((tree_map sp)(tname := None))"
    "others_kept is g g'"
    using move_hash [OF h(2) k' khash f1(1,2) h(4,1,5) tm refl f1(3) sync] by blast
  define t3 where "t3 = (if ipc_splay_tree_pick coll3 = None then t2
    else table_write t2 ?k (ie_bits_update (\<lambda>b. b OR IE_BITS_COLLISION)))"
  define sp' where "sp' = sp\<lparr>is_table := t3, is_tree := tree3, is_tree_total := length (splay_entries tree3),
    is_tree_hash := card (ghashed g' is)\<rparr>"
  have len: "length t2 = length ?t" "length t3 = length ?t"
    using strip_eqD(1) [OF mv(2)] by (simp_all add: t3_def)
  have pos: "0 < is_tree_total sp" "is_tree_total sp - 1 = length (splay_entries tree3)"
    using j(5) w(8) by linarith+
  have run: "ipc_entry_dealloc is name (TableEntry ?k) (g, sp) = Some (g', sp')"
    unfolding ipc_entry_dealloc_def Let_def
    using w(1,2) k k' e coll s d(1) j(1,2) pos idx
    by (cases "ipc_splay_tree_pick coll3")
      (simp_all add: is_table_entry_def t3_def sp'_def mv(1) [unfolded f_def] split del: if_split)
  have t2: "ie_bits (t2 ! i) = ie_bits (table_write ?t ?k f ! i)"
      "ie_object (t2 ! i) = ie_object (table_write ?t ?k f ! i)"
      "ie_request (t2 ! i) = ie_request (table_write ?t ?k f ! i)" if "i < length ?t" for i
    using strip_eqD [OF mv(2)] that by simp_all
  have oth: "ie_bits (t3 ! i) = ie_bits (?t ! i) \<and> ie_object (t3 ! i) = ie_object (?t ! i) \<and>
      ie_request (t3 ! i) = ie_request (?t ! i)" if "i < length t3" "i \<noteq> ?k" for i
    using that t2 [of i] len by (simp add: t3_def)
  have bits: "ie_bits (t3 ! ?k) = (ie_bits tentry OR MACH_PORT_GEN tname) OR
      (if ?k \<in> port_index ` dom ((tree_map sp)(tname := None)) then IE_BITS_COLLISION else 0)"
    using t2(1) [OF k'(2)] k'(2) len(1) unfolding t3_def d(2) by (simp add: f_def)
  have ob: "ie_object (t3 ! ?k) = ie_object tentry" "ie_request (t3 ! ?k) = ie_request tentry"
    using t2(2,3) [OF k'(2)] k'(2) len(1) by (simp_all add: t3_def f_def)
  note mk = moved_keeps [OF wf name tm idx len(2) oth bits ob j(3,4) sp'_def]
  have "ie_index (t3 ! i) = ie_index (t2 ! i)" "ie_object (t3 ! i) = ie_object (t2 ! i)" for i
    by (simp_all add: t3_def table_write_field)
  moreover have "length t3 = length t2" using len by simp
  ultimately have l3: "local_wf t3" "hashed t3 = hashed t2"
    using local_wf_cong [OF mv(3)] by blast+
  have f: "is_table sp' = t3" "tree_map sp' = (tree_map sp)(tname := None)" by (simp_all add: sp'_def j(4))
  have hw': "hash_wf g' is sp'"
    unfolding hash_wf_def f using h(1,3) l3 mv(4,5,7) mk(4) k(1) by (auto simp: sp'_def split: if_splits)
  have hs': "hash_sync {} g' is sp'"
    unfolding hash_sync_def f
  proof (intro conjI allI impI)
    fix n assume n: "in_table sp' n"
    show "port_index n \<in> hashed t3 \<longleftrightarrow> IE_BITS_TYPE (ie_bits (t3 ! port_index n)) = MACH_PORT_TYPE_SEND"
    proof (cases "n = tname")
      case True
      then show ?thesis using idx mk(5) sync khash by (simp add: l3(2) mv(4))
    next
      case False
      then have n': "in_table sp n" "n \<noteq> name" using n mk(3) by blast+
      then have "port_index n \<noteq> ?k" using k(2) port_eqI [of n name] by (auto simp: in_table_def)
      moreover have "port_index n < length t3" using n'(1) usedD len by (simp add: in_table_def)
      ultimately show ?thesis
        using hs n' oth [of "port_index n"] by (simp add: hash_sync_def l3(2) mv(4))
    qed
  next
    fix n e assume n: "((tree_map sp)(tname := None)) n = Some e"
    then have n': "tree_map sp n = Some e" "n \<noteq> tname" by (simp_all split: if_splits)
    then have "n \<noteq> name" using in_table_not_tree [OF wf name] by auto
    then show "n \<in> ghashed g' is \<longleftrightarrow> IE_BITS_TYPE (ie_bits e) = MACH_PORT_TYPE_SEND"
      using hs n' by (simp add: hash_sync_def mv(6))
  qed
  show ?thesis using run mk(1,2) hw' hs' mv(8) by blast
qed

text \<open>Deallocation of any entry.\<close>

lemma entry_dealloc_correct:
  assumes wf: "space_wf sp" and hw: "hash_wf g is sp" and hs: "hash_sync {name} g is sp"
    and r: "entry_ref sp name = Some r" "get_entry sp r = Some e" and e: "ie_object e = 0" "ie_request e = 0"
  shows "\<exists>g' sp'. ipc_entry_dealloc is name r (g, sp) = Some (g', sp') \<and>
    space_wf sp' \<and> entry_map sp' = (entry_map sp)(name := None) \<and>
    hash_wf g' is sp' \<and> hash_sync {} g' is sp' \<and> others_kept is g g'"
proof (cases "in_table sp name")
  case True
  let ?k = "port_index name"
  have rk: "r = TableEntry ?k" using True r(1) by (simp add: entry_ref_def)
  have k: "?k < length (is_table sp)" using True usedD by (simp add: in_table_def)
  then have e': "ie_object (is_table sp ! ?k) = 0" "ie_request (is_table sp ! ?k) = 0" using r(2) e rk by simp_all
  show ?thesis
  proof (cases "ie_bits (is_table sp ! ?k) AND IE_BITS_COLLISION = 0")
    case c: True
    have "?k \<notin> hashed (is_table sp)" using hashed_bounds [OF hash_wfD(2) [OF hw]] e'(1) by auto
    then show ?thesis
      using dealloc_free_correct [OF wf True e' c, of "is" g "{name}"] hw hs rk by auto
  next
    case False
    then show ?thesis using dealloc_collision_correct [OF wf True hw hs e'] rk by simp
  qed
next
  case False
  then have r': "r = TreeEntry name" "tree_map sp name = Some e"
    using r by (auto simp: entry_ref_def split: if_splits)
  have "name \<notin> ghashed g is" using hash_wfD(5) [OF hw] r'(2) e(1) by (auto simp: global_in_def)
  then show ?thesis
    using dealloc_tree_correct [OF wf r'(2) e, of "is" g "{name}"] hw hs r' by auto
qed

end
