(* ===== verification/Ipc_Entry_Alloc.thy ===== *)
theory Ipc_Entry_Alloc
  imports Ipc_Entry_Dealloc
begin

text \<open>
  Correctness of the allocation of entries by name, \<open>ipc_entry_alloc_name\<close>: the parts of one
  round of its loop, under the table cutoff, the search of the tree and the insertion of a
  tree entry.
\<close>

subsection \<open>Under the table cutoff\<close>

lemma MAKE_of_nat_index: "MACH_PORT_MAKE (of_nat (port_index name)) (MACH_PORT_GEN name) = name"
  using MACH_PORT_MAKE_INDEX_GEN [of name] by simp

lemma alloc_name_table_correct:
  assumes wf: "space_wf sp" and st: "settled sp"
  obtains (found) "in_table sp name" "alloc_name_table sp name = Some (Some (TableEntry (port_index name)), sp)"
  | (taken) t' where "table_taken (is_table sp) (port_index name) (MACH_PORT_GEN name) t'"
      "alloc_name_table sp name = Some (Some (TableEntry (port_index name)), sp\<lparr>is_table := t'\<rparr>)"
  | (none) "alloc_name_table sp name = Some (None, sp)" "\<not> in_table sp name"
      "0 < port_index name \<Longrightarrow> port_index name < length (is_table sp) \<Longrightarrow> used (is_table sp) (port_index name)"
proof -
  let ?t = "is_table sp" let ?k = "port_index name" let ?gen = "MACH_PORT_GEN name"
  note w = space_wfD [OF wf]
  note tw = table_wfD [OF w(6)]
  consider (out) "\<not> (0 < ?k \<and> ?k < length ?t)" | (used) "used ?t ?k" | (free) "?k \<in> set (free_list ?t)"
    unfolding used_def by blast
  then show thesis
  proof cases
    case out
    then show thesis using w(2) by (intro none) (auto simp: alloc_name_table_def Let_def in_table_def used_def)
  next
    case used
    then have "0 < ?k" "?k < length ?t" "IE_BITS_TYPE (ie_bits (?t ! ?k)) \<noteq> 0"
      using st by (auto simp: used_def settled_def)
    then have r: "alloc_name_table sp name =
        Some (if IE_BITS_GEN (ie_bits (?t ! ?k)) = ?gen then Some (TableEntry ?k) else None, sp)"
      using w(2) by (simp add: alloc_name_table_def Let_def)
    show thesis
    proof (cases "IE_BITS_GEN (ie_bits (?t ! ?k)) = ?gen")
      case True
      then show thesis using r used by (intro found) (simp_all add: in_table_def)
    next
      case False
      then show thesis using r used by (intro none) (simp_all add: in_table_def)
    qed
  next
    case free
    then have b: "0 < ?k" "?k < length ?t" using linked_bounds [OF tw(2)] by blast+
    obtain as bs where fl: "free_list ?t = as @ ?k # bs" using free by (meson split_list)
    have dist: "distinct (as @ ?k # bs)" using linked_distinct [OF tw(2)] fl by simp
    have l: "linked ?t 0 (as @ ?k # bs)" using tw(2) fl by simp
    have "length as < length ?t" using linked_length [OF l tw(1)] by simp
    moreover have z: "0 \<notin> set (as @ ?k # bs)" using linked_bounds [OF l, of 0] by blast
    ultimately obtain p where p: "rip_free (length ?t) ?t 0 ?k =
          Some (table_write ?t p (ie_request_update (\<lambda>_. ie_next (?t ! ?k))))"
        "p \<in> insert 0 (set as)"
        "linked (table_write ?t p (ie_request_update (\<lambda>_. ie_next (?t ! ?k)))) 0 (as @ bs)"
      using rip_free_linked [OF l, of "length ?t"] tw(1) by blast
    let ?t1 = "table_write ?t p (ie_request_update (\<lambda>_. ie_next (?t ! ?k)))"
    let ?t' = "table_write ?t1 ?k (\<lambda>e. e\<lparr>ie_bits := ?gen, ie_request := 0\<rparr>)"
    have pk: "p \<noteq> ?k" using p(2) dist b(1) by (cases "p = 0") auto
    have pl: "p < length ?t" "\<not> used ?t p"
      using p(2) tw(1) linked_bounds [OF l] by (auto simp: used_def fl)
    have "linked ?t' 0 (as @ bs)"
      using p(3) by (rule linked_cong) (use dist z b in \<open>auto simp: nth_table_write\<close>)
    moreover have "filter (\<lambda>i. i \<noteq> ?k) (free_list ?t) = as @ bs"
    proof -
      have "filter (\<lambda>i. i \<noteq> ?k) xs = xs" if "?k \<notin> set xs" for xs
        by (rule filter_True) (use that in auto)
      then show ?thesis unfolding fl using dist by simp
    qed
    ultimately have "table_taken ?t ?k ?gen ?t'"
      using free b pl pk unfolding table_taken_def by (auto simp: nth_table_write used_def gen_only)
    moreover have "IE_BITS_TYPE (ie_bits (?t ! ?k)) = 0" using free_bits(1) tw(3) [OF free] by blast
    then have "alloc_name_table sp name = Some (Some (TableEntry ?k), sp\<lparr>is_table := ?t'\<rparr>)"
      using b w(2) p(1) tw(4) [OF free] by (simp add: alloc_name_table_def Let_def)
    ultimately show thesis by (rule taken)
  qed
qed

lemma alloc_name_tree_correct:
  assumes "space_wf sp" "settled sp"
  shows "\<exists>sp'. alloc_name_tree sp name =
      Some (if tree_map sp name = None then None else Some (TreeEntry name), sp') \<and> resplayed sp sp'"
proof (cases "is_tree_total sp > 0")
  case True
  then show ?thesis using tree_lookup_correct [OF assms, of name] by (simp add: alloc_name_tree_def)
next
  case False
  then have "tree_map sp name = None" using tree_total_pos [OF assms(1), of name] by metis
  then show ?thesis using False resplayed_refl [OF assms(1)] by (simp add: alloc_name_tree_def)
qed

subsection \<open>Inserting an entry into the tree\<close>

lemma tree_added:
  assumes wf: "space_wf sp" and new: "\<not> in_table sp name" "tree_map sp name = None" "MACH_PORT_VALID name"
    and us: "0 < port_index name \<Longrightarrow> port_index name < length (is_table sp) \<Longrightarrow> used (is_table sp) (port_index name)"
    and t': "collision_changed (is_table sp) t'"
    and coll: "\<And>i. i < length t' \<Longrightarrow>
      ie_bits (t' ! i) AND IE_BITS_COLLISION \<noteq> 0 \<longleftrightarrow> i \<in> port_index ` dom ((tree_map sp)(name \<mapsto> entry_zero))"
    and tree: "splay_invar tree'" "splay_map tree' = (tree_map sp)(name \<mapsto> entry_zero)"
    and sp': "sp' = sp\<lparr>is_table := t', is_tree := tree', is_tree_total := length (splay_entries tree'),
      is_tree_small := card (small_indices (is_table_size sp)
        (unat (ipc_table_entries ! is_table_next sp)) ((tree_map sp)(name \<mapsto> entry_zero)))\<rparr>"
  shows "space_wf sp'" "entry_map sp' = (entry_map sp)(name \<mapsto> (0, 0, 0))"
    "entry_ref sp' name = Some (TreeEntry name)"
    "hash_wf g is sp \<Longrightarrow> hash_wf g is sp'"
    "hash_wf g is sp \<Longrightarrow> hash_sync X g is sp \<Longrightarrow> hash_sync X g is sp'"
proof -
  let ?t = "is_table sp" let ?m = "(tree_map sp)(name \<mapsto> entry_zero)"
  note w = space_wfD [OF wf]
  note rw = tree_wfD [OF w(9)] and c = collision_changed_same [OF t' w(6)]
  have f: "is_table sp' = t'" "tree_map sp' = ?m" by (simp_all add: sp' tree)
  have z: "right_of entry_zero = (0, 0, 0)" "ie_bits entry_zero = 0" by (simp_all add: right_of_def entry_zero_def)
  have tw: "tree_wf t' ?m"
    unfolding tree_wf_def
  proof (intro conjI allI impI)
    fix n e assume n: "?m n = Some e"
    show "MACH_PORT_VALID n" "ie_bits e AND NOT IE_BITS_RIGHT_MASK = 0"
      using n rw(1,2) new(3) z by (auto split: if_splits)
    assume i: "0 < port_index n" "port_index n < length t'"
    show u: "used t' (port_index n)"
      using n rw(3) us i by (auto simp: c(1,3) split: if_splits)
    show "IE_BITS_GEN (ie_bits (t' ! port_index n)) \<noteq> MACH_PORT_GEN n"
      using n rw(4) i new(1) u by (auto simp: c(1,3,5) in_table_def split: if_splits)
  qed (rule coll)
  show "space_wf sp'"
    unfolding space_wf_def f using w c(1,4) tree(1) tw by (simp add: sp')
  have it: "in_table sp' n = in_table sp n" for n
    using collision_changed_space(1) [OF t' w(6), of n] by (simp add: in_table_def sp')
  show "entry_ref sp' name = Some (TreeEntry name)" using new(1) by (simp add: entry_ref_def it f)
  show "entry_map sp' = (entry_map sp)(name \<mapsto> (0, 0, 0))"
  proof
    fix n show "entry_map sp' n = ((entry_map sp)(name \<mapsto> (0, 0, 0))) n"
      using collision_changed_space(2) [OF t' w(6), of n] new(1) z by (simp add: entry_map_def it f)
  qed
  have ng: "name \<notin> ghashed g is" if "hash_wf g is sp"
    using hash_wfD(5) [OF that] new(2) by (auto simp: global_in_def)
  show "hash_wf g is sp'" if h: "hash_wf g is sp"
  proof -
    have "global_in g is ?m"
      using hash_wfD(5) [OF h] ng [OF h] unfolding global_in_def by auto
    then show ?thesis
      using hash_wfD [OF h] c(3,8,9) unfolding hash_wf_def f by (simp add: sp')
  qed
  show "hash_sync X g is sp'" if h: "hash_wf g is sp" "hash_sync X g is sp"
    unfolding hash_sync_def it f
  proof (intro conjI allI impI)
    fix n assume n: "in_table sp n" "n \<notin> X"
    then have "port_index n < length ?t" using usedD by (auto simp: in_table_def)
    then show "port_index n \<in> hashed t' \<longleftrightarrow> IE_BITS_TYPE (ie_bits (t' ! port_index n)) = MACH_PORT_TYPE_SEND"
      using h n c(6) c(9) [OF hash_wfD(2) [OF h(1)]] by (simp add: hash_sync_def)
  next
    fix n e assume n: "?m n = Some e" "n \<notin> X"
    then show "n \<in> ghashed g is \<longleftrightarrow> IE_BITS_TYPE (ie_bits e) = MACH_PORT_TYPE_SEND"
      using h(2) ng [OF h(1)] z(2) free_bits(1) [of 0]
      by (auto simp: hash_sync_def MACH_PORT_TYPE_values split: if_splits)
  qed
qed

lemma alloc_name_insert_correct:
  assumes wf: "space_wf sp" and new: "\<not> in_table sp name" "tree_map sp name = None" "MACH_PORT_VALID name"
    and us: "0 < port_index name \<Longrightarrow> port_index name < length (is_table sp) \<Longrightarrow> used (is_table sp) (port_index name)"
  shows "\<exists>sp'. alloc_name_insert sp name (ipc_table_entries ! is_table_next sp) = Some sp' \<and>
    space_wf sp' \<and> entry_map sp' = (entry_map sp)(name \<mapsto> (0, 0, 0)) \<and>
    entry_ref sp' name = Some (TreeEntry name) \<and>
    (hash_wf g is sp \<longrightarrow> hash_wf g is sp') \<and>
    (hash_wf g is sp \<longrightarrow> hash_sync X g is sp \<longrightarrow> hash_sync X g is sp')"
proof -
  let ?t = "is_table sp" let ?i = "port_index name" let ?m = "(tree_map sp)(name \<mapsto> entry_zero)"
  let ?ns = "unat (ipc_table_entries ! is_table_next sp)"
  note w = space_wfD [OF wf]
  note rw = tree_wfD [OF w(9)]
  have insert: "\<exists>tree'. ipc_splay_tree_insert tree name entry_zero = Some tree' \<and> splay_invar tree' \<and>
      splay_map tree' = ?m \<and> length (splay_entries tree') = Suc (is_tree_total sp)"
    if "splay_invar tree" "splay_entries tree = splay_entries (is_tree sp)" for tree
    using splay.insert_tmap [OF that(1), of name entry_zero] new(2) that(2) w(8) by (auto simp: splay_map_def)
  have ran: "port_index ` dom ?m = insert ?i (port_index ` dom (tree_map sp))" by auto
  have same: "collision_changed ?t ?t" by (simp add: collision_changed_def)
  have coll_big: "ie_bits (?t ! i) AND IE_BITS_COLLISION \<noteq> 0 \<longleftrightarrow> i \<in> port_index ` dom ?m"
    if "length ?t \<le> ?i" "i < length ?t" for i
    using rw(5) [OF that(2)] that unfolding ran by auto
  consider (table) "?i < length ?t" | (small) "length ?t \<le> ?i" "?i < ?ns" | (big) "length ?t \<le> ?i" "?ns \<le> ?i"
    by linarith
  then show ?thesis
  proof cases
    case table
    define t' where "t' = table_write ?t ?i (ie_bits_update (\<lambda>b. b OR IE_BITS_COLLISION))"
    have "?i \<notin> set (free_list ?t)"
      using us table linked_bounds [OF table_wfD(2) [OF w(6)], of ?i] by (auto simp: used_def)
    then have cc: "collision_changed ?t t'"
      using table by (auto simp: collision_changed_def t'_def nth_table_write)
    have coll: "ie_bits (t' ! i) AND IE_BITS_COLLISION \<noteq> 0 \<longleftrightarrow> i \<in> port_index ` dom ?m" if "i < length t'" for i
      using that rw(5) [of i] table unfolding ran by (cases "i = ?i") (simp_all add: t'_def)
    have sm: "is_tree_small sp = card (small_indices (is_table_size sp) ?ns ?m)"
      unfolding w(10) small_indices_def ran using table w(2) by (intro arg_cong [of _ _ card]) auto
    obtain tree' where tree': "ipc_splay_tree_insert (is_tree sp) name entry_zero = Some tree'" "splay_invar tree'"
        "splay_map tree' = ?m" "length (splay_entries tree') = Suc (is_tree_total sp)"
      using insert [OF w(7) refl] by blast
    have "alloc_name_insert sp name (ipc_table_entries ! is_table_next sp) =
        Some (sp\<lparr>is_table := t', is_tree := tree', is_tree_total := length (splay_entries tree'),
          is_tree_small := card (small_indices (is_table_size sp) ?ns ?m)\<rparr>)"
      unfolding sm [symmetric] using table w(2) tree'(1,4) by (simp add: alloc_name_insert_def Let_def t'_def)
    then show ?thesis using tree_added [OF wf new us cc coll tree'(2,3) refl] by blast
  next
    case small
    let ?sp1 = "sp\<lparr>is_tree_total := is_tree_total sp + 1\<rparr>"
    define c where "c \<longleftrightarrow> ?i \<in> port_index ` dom (tree_map sp)"
    obtain sp2 where sp2: "ipc_entry_tree_collision ?sp1 name = Some (c, sp2)" "resplayed ?sp1 sp2"
      using tree_collision_correct [of ?sp1 name] w(1,7) new(3) by (auto simp: c_def)
    then have e2: "sp2 = sp\<lparr>is_tree := is_tree sp2, is_tree_total := is_tree_total sp + 1\<rparr>"
      unfolding resplayed_def by (cases sp2) simp
    obtain tree' where tree': "ipc_splay_tree_insert (is_tree sp2) name entry_zero = Some tree'" "splay_invar tree'"
        "splay_map tree' = ?m" "length (splay_entries tree') = Suc (is_tree_total sp)"
      using insert [of "is_tree sp2"] resplayed_same(9,10) [OF sp2(2)] by auto
    have ins: "small_indices (is_table_size sp) ?ns ?m =
        insert ?i (small_indices (is_table_size sp) ?ns (tree_map sp))"
      unfolding small_indices_def ran using small w(2) by auto
    have "finite (small_indices (is_table_size sp) ?ns (tree_map sp))"
      by (simp add: small_indices_def)
    moreover have "?i \<in> small_indices (is_table_size sp) ?ns (tree_map sp) \<longleftrightarrow> c"
      using small w(2) by (simp add: small_indices_def c_def)
    ultimately have sm: "card (small_indices (is_table_size sp) ?ns ?m) =
        (if c then is_tree_small sp else is_tree_small sp + 1)"
      unfolding w(10) ins by (simp add: card_insert_if)
    obtain tree2 where tree2: "is_tree sp2 = tree2" "sp2 = sp\<lparr>is_tree := tree2, is_tree_total := is_tree_total sp + 1\<rparr>"
      using e2 by blast
    have "alloc_name_insert sp name (ipc_table_entries ! is_table_next sp) =
        Some (sp\<lparr>is_table := ?t, is_tree := tree', is_tree_total := length (splay_entries tree'),
          is_tree_small := card (small_indices (is_table_size sp) ?ns ?m)\<rparr>)"
      unfolding sm using small w(2) sp2(1) tree'(1,4)
      by (cases c) (simp_all add: alloc_name_insert_def Let_def tree2)
    then show ?thesis using tree_added [OF wf new us same coll_big tree'(2,3) refl] small by blast
  next
    case big
    have sm: "is_tree_small sp = card (small_indices (is_table_size sp) ?ns ?m)"
      unfolding w(10) small_indices_def ran using big by (intro arg_cong [of _ _ card]) auto
    obtain tree' where tree': "ipc_splay_tree_insert (is_tree sp) name entry_zero = Some tree'" "splay_invar tree'"
        "splay_map tree' = ?m" "length (splay_entries tree') = Suc (is_tree_total sp)"
      using insert [OF w(7) refl] by blast
    have "alloc_name_insert sp name (ipc_table_entries ! is_table_next sp) =
        Some (sp\<lparr>is_table := ?t, is_tree := tree', is_tree_total := length (splay_entries tree'),
          is_tree_small := card (small_indices (is_table_size sp) ?ns ?m)\<rparr>)"
      unfolding sm [symmetric] using big w(2) tree'(1,4) by (simp add: alloc_name_insert_def Let_def)
    then show ?thesis using tree_added [OF wf new us same coll_big tree'(2,3) refl] big by blast
  qed
qed
end
