(* ===== verification/Ipc_Entry_Grow.thy ===== *)
theory Ipc_Entry_Grow
  imports Ipc_Entry_Alloc
begin

text \<open>
  Correctness of \<open>ipc_entry_grow_table\<close>: a round keeps the map of the space and its
  invariants, with every name of the new part of the table moved from the tree.
\<close>

subsection \<open>Copying the old table\<close>

definition same_entry :: "ipc_entry \<Rightarrow> ipc_entry \<Rightarrow> bool" where
  "same_entry e e' \<longleftrightarrow> ie_bits e = ie_bits e' \<and> ie_object e = ie_object e' \<and> ie_request e = ie_request e'"

definition copied :: "ipc_entry list \<Rightarrow> nat \<Rightarrow> nat \<Rightarrow> ipc_entry list \<Rightarrow> bool" where
  "copied ot n i t \<longleftrightarrow>
     length t = n \<and> local_wf t \<and>
     (\<forall>j<n. same_entry (t ! j) (if j < i then ot ! j else entry_zero)) \<and>
     hashed t = {j. j < i \<and> IE_BITS_TYPE (ie_bits (ot ! j)) = MACH_PORT_TYPE_SEND}"

lemma hashed_replicate: "hashed (replicate n entry_zero) = {}"
  by (auto simp: hashed_def stored_def slots_def entry_zero_def)

lemma local_wf_replicate: "0 < n \<Longrightarrow> local_wf (replicate n entry_zero)"
  unfolding local_wf_def hashed_replicate
  by (auto simp: probe_wf_def slots_def entry_zero_def)

lemma grow_copy_correct:
  assumes c: "copied ot n i (is_table sp)" and i: "i < length ot" "length ot \<le> n" and sz: "is_table_size sp = n"
    and send: "IE_BITS_TYPE (ie_bits (ot ! i)) = MACH_PORT_TYPE_SEND \<Longrightarrow> 0 < i \<and> ie_object (ot ! i) \<noteq> 0"
  shows "\<exists>t'. grow_copy ot i sp = Some (sp\<lparr>is_table := t'\<rparr>) \<and> copied ot n (Suc i) t'"
proof -
  let ?t = "is_table sp"
  let ?t1 = "table_write ?t i (\<lambda>e. e\<lparr>ie_bits := ie_bits (ot ! i), ie_object := ie_object (ot ! i), ie_request := ie_request (ot ! i)\<rparr>)"
  have c': "length ?t = n" "local_wf ?t" "hashed ?t = {j. j < i \<and> IE_BITS_TYPE (ie_bits (ot ! j)) = MACH_PORT_TYPE_SEND}"
    "\<And>j. j < n \<Longrightarrow> same_entry (?t ! j) (if j < i then ot ! j else entry_zero)"
    using c by (simp_all add: copied_def)
  have ix: "ie_index (?t1 ! j) = ie_index (?t ! j)" for j by (rule table_write_field) simp
  have "ie_object (?t1 ! j) = ie_object (?t ! j)" if "j \<in> hashed ?t" for j
    using that c'(3) by (cases "j = i") auto
  note l1 = local_wf_cong [OF c'(2) _ ix this, simplified]
  have f1: "same_entry (?t1 ! j) (if j < Suc i then ot ! j else entry_zero)" if "j < n" for j
  proof (cases "j = i")
    case True then show ?thesis using that c'(1) by (simp add: same_entry_def)
  next
    case False then show ?thesis using c'(4) [OF that] that by (simp add: less_Suc_eq)
  qed
  show ?thesis
  proof (cases "IE_BITS_TYPE (ie_bits (ot ! i)) = MACH_PORT_TYPE_SEND")
    case False
    then have "grow_copy ot i sp = Some (sp\<lparr>is_table := ?t1\<rparr>)" using i by (simp add: grow_copy_def Let_def)
    moreover have "copied ot n (Suc i) ?t1"
      unfolding copied_def using l1 f1 c'(1,3) False by (auto simp: less_Suc_eq)
    ultimately show ?thesis by blast
  next
    case True
    let ?sp = "sp\<lparr>is_table := ?t1\<rparr>"
    have "\<exists>t'. ipc_hash_local_insert ?sp (ie_object (ot ! i)) i = Some (?sp\<lparr>is_table := t'\<rparr>) \<and>
        strip t' = strip (is_table ?sp) \<and> local_wf t' \<and> hashed t' = insert i (hashed (is_table ?sp))"
      using l1 c'(1,3) i sz send [OF True] by (intro local_insert_correct) simp_all
    then obtain t' where t': "ipc_hash_local_insert ?sp (ie_object (ot ! i)) i = Some (?sp\<lparr>is_table := t'\<rparr>)"
        "strip t' = strip ?t1" "local_wf t'" "hashed t' = insert i (hashed ?t1)" by auto
    have "grow_copy ot i sp = Some (sp\<lparr>is_table := t'\<rparr>)"
      using i True t'(1) by (simp add: grow_copy_def Let_def)
    moreover have "copied ot n (Suc i) t'"
      unfolding copied_def
    proof (intro conjI allI impI t'(3))
      show "length t' = n" using strip_eqD(1) [OF t'(2)] c'(1) by simp
      show "hashed t' = {j. j < Suc i \<and> IE_BITS_TYPE (ie_bits (ot ! j)) = MACH_PORT_TYPE_SEND}"
        using t'(4) l1(2) c'(3) True by (auto simp: less_Suc_eq)
      fix j assume "j < n"
      then show "same_entry (t' ! j) (if j < Suc i then ot ! j else entry_zero)"
        using f1 [of j] strip_eqD(2-4) [OF t'(2), of j] c'(1) by (simp add: same_entry_def)
    qed
    ultimately show ?thesis by blast
  qed
qed

lemma grow_copies_correct:
  assumes n: "0 < n" "length ot \<le> n" and sp: "is_table_size sp = n" "is_table sp = replicate n entry_zero"
    and send: "\<And>i. i < length ot \<Longrightarrow> IE_BITS_TYPE (ie_bits (ot ! i)) = MACH_PORT_TYPE_SEND \<Longrightarrow>
      0 < i \<and> ie_object (ot ! i) \<noteq> 0"
  shows "\<exists>t'. ofold (grow_copy ot) [0..<length ot] sp = Some (sp\<lparr>is_table := t'\<rparr>) \<and> copied ot n (length ot) t'"
proof -
  have "\<exists>s'. ofold (grow_copy ot) [0..<length ot] sp = Some s' \<and>
      (\<exists>t. s' = sp\<lparr>is_table := t\<rparr> \<and> copied ot n (length ([] @ [0..<length ot])) t)"
  proof (rule ofold_invariant [where ys = "[]"])
    show "\<exists>t. sp = sp\<lparr>is_table := t\<rparr> \<and> copied ot n (length []) t"
      using sp(2) local_wf_replicate [OF n(1)] hashed_replicate
      by (intro exI [of _ "is_table sp"]) (simp add: copied_def same_entry_def)
  next
    fix ys x zs s assume ys: "[] @ [0..<length ot] = ys @ x # zs"
      and "\<exists>t. s = sp\<lparr>is_table := t\<rparr> \<and> copied ot n (length ys) t"
    then obtain t where t: "s = sp\<lparr>is_table := t\<rparr>" "copied ot n (length ys) t" by blast
    have l: "length ys < length ot" using arg_cong [OF ys, of length] by simp
    then have "x = length ys" using arg_cong [OF ys, of "\<lambda>l. l ! length ys"] by (simp add: nth_append)
    then show "\<exists>s'. grow_copy ot x s = Some s' \<and>
        (\<exists>t. s' = sp\<lparr>is_table := t\<rparr> \<and> copied ot n (length (ys @ [x])) t)"
      using grow_copy_correct [of ot n "length ys" s] t l n(2) sp(1) send by auto
  qed simp
  then show ?thesis by auto
qed

subsection \<open>Moving entries of the tree into the new part\<close>

text \<open>While entries are moved: \<open>ot\<close> is the old table, \<open>m\<close> the entries still in the tree, \<open>Q\<close>
  the names that are still to be looked at.  An entry of the new part is in use when its bits
  are not zero.\<close>

definition occupied :: "ipc_entry list \<Rightarrow> ipc_entry list \<Rightarrow> nat \<Rightarrow> bool" where
  "occupied ot t j \<longleftrightarrow> used ot j \<or> length ot \<le> j \<and> j < length t \<and> ie_bits (t ! j) \<noteq> 0"

definition mid_table :: "ipc_entry list \<Rightarrow> ipc_entry list \<Rightarrow> mach_port \<Rightarrow> bool" where
  "mid_table ot t n \<longleftrightarrow> occupied ot t (port_index n) \<and> IE_BITS_GEN (ie_bits (t ! port_index n)) = MACH_PORT_GEN n"

definition mid_map ::
  "ipc_entry list \<Rightarrow> ipc_entry list \<Rightarrow> (mach_port \<rightharpoonup> ipc_entry) \<Rightarrow> mach_port \<rightharpoonup> u32 \<times> addr \<times> nat" where
  "mid_map ot t m n = (if mid_table ot t n then Some (right_of (t ! port_index n)) else map_option right_of (m n))"

definition new_entry :: "(mach_port \<rightharpoonup> ipc_entry) \<Rightarrow> mach_port set \<Rightarrow> ipc_entry list \<Rightarrow> nat \<Rightarrow> bool" where
  "new_entry m Q t j \<longleftrightarrow>
     (if ie_bits (t ! j) = 0 then ie_object (t ! j) = 0 \<and> (\<forall>n\<in>dom m. port_index n = j \<longrightarrow> n \<in> Q)
      else IE_BITS_TYPE (ie_bits (t ! j)) \<noteq> 0 \<and>
        (\<forall>n\<in>dom m. port_index n = j \<longrightarrow> IE_BITS_GEN (ie_bits (t ! j)) \<noteq> MACH_PORT_GEN n) \<and>
        (ie_bits (t ! j) AND IE_BITS_COLLISION \<noteq> 0 \<longleftrightarrow> (\<exists>n\<in>dom m - Q. port_index n = j)))"

definition grow_mid :: "ipc_entry list \<Rightarrow> ipc_entry list \<Rightarrow> (mach_port \<rightharpoonup> ipc_entry) \<Rightarrow> mach_port set \<Rightarrow> bool" where
  "grow_mid ot t m Q \<longleftrightarrow>
     length ot \<le> length t \<and> 0 < length ot \<and>
     (\<forall>j<length ot. same_entry (t ! j) (ot ! j)) \<and>
     (\<forall>j. length ot \<le> j \<longrightarrow> j < length t \<longrightarrow> new_entry m Q t j) \<and>
     (\<forall>n e. m n = Some e \<longrightarrow> ie_bits e AND NOT IE_BITS_RIGHT_MASK = 0 \<and> IE_BITS_TYPE (ie_bits e) \<noteq> 0) \<and>
     (\<forall>n\<in>Q. m n \<noteq> None \<and> length ot \<le> port_index n \<and> port_index n < length t)"

definition mid_hash ::
  "ipc_entry list \<Rightarrow> ipc_entry list \<Rightarrow> (mach_port \<rightharpoonup> ipc_entry) \<Rightarrow> ipc_hash_global \<Rightarrow> addr \<Rightarrow> bool" where
  "mid_hash ot t m g is \<longleftrightarrow>
     is \<noteq> 0 \<and> local_wf t \<and> (\<forall>j\<in>hashed t. occupied ot t j) \<and> global_wf g \<and> global_in g is m \<and>
     (\<forall>n. mid_table ot t n \<longrightarrow>
        (port_index n \<in> hashed t \<longleftrightarrow> IE_BITS_TYPE (ie_bits (t ! port_index n)) = MACH_PORT_TYPE_SEND)) \<and>
     (\<forall>n e. m n = Some e \<longrightarrow> (n \<in> ghashed g is \<longleftrightarrow> IE_BITS_TYPE (ie_bits e) = MACH_PORT_TYPE_SEND))"

lemma grow_midD:
  assumes "grow_mid ot t m Q"
  shows "length ot \<le> length t" "0 < length ot" "j < length ot \<Longrightarrow> same_entry (t ! j) (ot ! j)"
    "length ot \<le> j \<Longrightarrow> j < length t \<Longrightarrow> new_entry m Q t j"
    "m n = Some e \<Longrightarrow> ie_bits e AND NOT IE_BITS_RIGHT_MASK = 0"
    "m n = Some e \<Longrightarrow> IE_BITS_TYPE (ie_bits e) \<noteq> 0"
    "n \<in> Q \<Longrightarrow> m n \<noteq> None" "n \<in> Q \<Longrightarrow> length ot \<le> port_index n" "n \<in> Q \<Longrightarrow> port_index n < length t"
  using assms unfolding grow_mid_def by blast+

lemma mid_hashD:
  assumes "mid_hash ot t m g is"
  shows "is \<noteq> 0" "local_wf t" "j \<in> hashed t \<Longrightarrow> occupied ot t j" "global_wf g" "global_in g is m"
    "mid_table ot t n \<Longrightarrow>
        port_index n \<in> hashed t \<longleftrightarrow> IE_BITS_TYPE (ie_bits (t ! port_index n)) = MACH_PORT_TYPE_SEND"
    "m n = Some e \<Longrightarrow> n \<in> ghashed g is \<longleftrightarrow> IE_BITS_TYPE (ie_bits e) = MACH_PORT_TYPE_SEND"
  using assms unfolding mid_hash_def by blast+

lemma mid_table_unique: "mid_table ot t n \<Longrightarrow> mid_table ot t n' \<Longrightarrow> port_index n = port_index n' \<Longrightarrow> n = n'"
  using port_eqI by (simp add: mid_table_def)

text \<open>The index is taken: the collision bit is set.\<close>

lemma mid_collide:
  assumes mid: "grow_mid ot t m Q" and n: "name \<in> Q" "ie_bits (t ! port_index name) \<noteq> 0"
  defines "t' \<equiv> table_write t (port_index name) (ie_bits_update (\<lambda>b. b OR IE_BITS_COLLISION))"
  shows "grow_mid ot t' m (Q - {name})" "mid_map ot t' m = mid_map ot t m"
    "mid_hash ot t m g is \<Longrightarrow> mid_hash ot t' m g is"
proof -
  let ?k = "port_index name"
  note d = grow_midD [OF mid]
  have k: "length ot \<le> ?k" "?k < length t" "m name \<noteq> None" using d(7,8,9) n(1) by blast+
  have l: "length t' = length t" by (simp add: t'_def)
  have tk: "t' ! ?k = (t ! ?k)\<lparr>ie_bits := ie_bits (t ! ?k) OR IE_BITS_COLLISION\<rparr>" using k(2) by (simp add: t'_def)
  have to: "t' ! j = t ! j" if "j \<noteq> ?k" for j using that by (simp add: t'_def)
  have nz: "ie_bits (t' ! j) = 0 \<longleftrightarrow> ie_bits (t ! j) = 0" for j
    using n(2) tk to [of j] by (cases "j = ?k") (simp_all add: or_eq_0_iff)
  have ne: "new_entry m (Q - {name}) t' j" if "length ot \<le> j" "j < length t'" for j
  proof (cases "j = ?k")
    case True
    then show ?thesis
      using d(4) [OF k(1,2)] n k(3) tk nz [of ?k] unfolding new_entry_def by auto
  next
    case False
    then show ?thesis using d(4) [of j] that l to [OF False] by (auto simp: new_entry_def)
  qed
  show "grow_mid ot t' m (Q - {name})"
    unfolding grow_mid_def l using d k ne to l by (auto simp: same_entry_def)
  have oc: "occupied ot t' j = occupied ot t j" for j by (simp add: occupied_def nz l)
  have gen: "IE_BITS_GEN (ie_bits (t' ! j)) = IE_BITS_GEN (ie_bits (t ! j))"
     "IE_BITS_TYPE (ie_bits (t' ! j)) = IE_BITS_TYPE (ie_bits (t ! j))"
     "right_of (t' ! j) = right_of (t ! j)" for j
    using tk to [of j] by (cases "j = ?k"; simp add: right_of_def)+
  have mt: "mid_table ot t' n' = mid_table ot t n'" for n' by (simp add: mid_table_def oc gen)
  show "mid_map ot t' m = mid_map ot t m" by (simp add: fun_eq_iff mid_map_def mt gen)
  show "mid_hash ot t' m g is" if h: "mid_hash ot t m g is"
  proof -
    have "ie_index (t' ! j) = ie_index (t ! j)" "ie_object (t' ! j) = ie_object (t ! j)" for j
      by (simp_all add: t'_def table_write_field)
    then have lw: "local_wf t'" "hashed t' = hashed t" using local_wf_cong [OF mid_hashD(2) [OF h] l] by blast+
    show ?thesis using h unfolding mid_hash_def oc mt gen lw(2) using lw(1) by blast
  qed
qed

text \<open>The index is free: the entry is moved.\<close>

lemma mid_move:
  assumes mid: "grow_mid ot t m Q" and n: "name \<in> Q" "ie_bits (t ! port_index name) = 0" "m name = Some e"
    and l: "length t' = length t"
    and to: "\<And>j. j < length t \<Longrightarrow> j \<noteq> port_index name \<Longrightarrow> same_entry (t' ! j) (t ! j)"
    and tk: "ie_bits (t' ! port_index name) = ie_bits e OR MACH_PORT_GEN name"
      "ie_object (t' ! port_index name) = ie_object e" "ie_request (t' ! port_index name) = ie_request e"
  shows "grow_mid ot t' (m(name := None)) (Q - {name})"
    "mid_map ot t' (m(name := None)) = mid_map ot t m"
    "occupied ot t' j \<longleftrightarrow> occupied ot t j \<or> j = port_index name"
    "mid_table ot t' n' \<longleftrightarrow> mid_table ot t n' \<or> n' = name" "\<not> mid_table ot t name"
    "IE_BITS_TYPE (ie_bits (t' ! port_index name)) = IE_BITS_TYPE (ie_bits e)"
proof -
  let ?k = "port_index name" let ?m = "m(name := None)"
  note d = grow_midD [OF mid]
  have k: "length ot \<le> ?k" "?k < length t" using d(8,9) n(1) by blast+
  note g = gen_bits [OF d(5) [OF n(3)], of name]
  have b: "IE_BITS_TYPE (ie_bits (t' ! ?k)) = IE_BITS_TYPE (ie_bits e)" "IE_BITS_GEN (ie_bits (t' ! ?k)) = MACH_PORT_GEN name"
    "ie_bits (t' ! ?k) AND IE_BITS_RIGHT_MASK = ie_bits e" "ie_bits (t' ! ?k) AND IE_BITS_COLLISION = 0"
    unfolding tk(1) by (rule g)+
  show "IE_BITS_TYPE (ie_bits (t' ! ?k)) = IE_BITS_TYPE (ie_bits e)" by (rule b(1))
  have nz: "ie_bits (t' ! ?k) \<noteq> 0" using d(6) [OF n(3)] b(1) free_bits(1) [of 0] by auto
  have only: "n' \<in> Q" if "n' \<in> dom m" "port_index n' = ?k" for n'
    using d(4) [OF k] n(2) that by (simp add: new_entry_def)
  have ne: "new_entry ?m (Q - {name}) t' j" if "length ot \<le> j" "j < length t'" for j
  proof (cases "j = ?k")
    case True
    have "MACH_PORT_GEN name \<noteq> MACH_PORT_GEN n'" if "n' \<in> dom ?m" "port_index n' = ?k" for n'
      using that port_eqI [of name n'] by auto
    then show ?thesis
      unfolding new_entry_def True using nz b d(6) [OF n(3)] only by auto
  next
    case False
    then show ?thesis using d(4) [of j] to [of j] that l by (auto simp: new_entry_def same_entry_def)
  qed
  have old: "same_entry (t' ! j) (ot ! j)" if "j < length ot" for j
    using d(3) [OF that] to [of j] that d(1) k(1) by (auto simp: same_entry_def)
  show "grow_mid ot t' ?m (Q - {name})"
    unfolding grow_mid_def l using d(1,2,5-9) ne old l by (auto split: if_splits)
  have nu: "\<not> used ot ?k" using k(1) by (simp add: used_def)
  show oc: "occupied ot t' j \<longleftrightarrow> occupied ot t j \<or> j = ?k" for j
    using to [of j] nz k l by (cases "j = ?k") (auto simp: occupied_def same_entry_def)
  have nocc: "\<not> occupied ot t ?k" using n(2) nu by (simp add: occupied_def)
  then show nmt: "\<not> mid_table ot t name" by (simp add: mid_table_def)
  have jl: "port_index n' < length t" if "occupied ot t (port_index n')" for n'
    using that d(1) by (auto simp: occupied_def used_def)
  show mt: "mid_table ot t' n' \<longleftrightarrow> mid_table ot t n' \<or> n' = name" for n'
  proof (cases "port_index n' = ?k")
    case True
    then have "MACH_PORT_GEN name = MACH_PORT_GEN n' \<longleftrightarrow> n' = name" using port_eqI [of name n'] by auto
    then show ?thesis using True oc nocc b(2) by (auto simp: mid_table_def)
  next
    case False
    then show ?thesis using oc [of "port_index n'"] to [of "port_index n'"] jl [of n']
      by (auto simp: mid_table_def same_entry_def)
  qed
  have rk: "right_of (t' ! ?k) = right_of e"
  proof -
    have "ie_bits e AND IE_BITS_RIGHT_MASK = ie_bits e" using b(3) by (metis and.right_idem)
    then show ?thesis using b(3) tk by (simp add: right_of_def)
  qed
  have ro: "right_of (t' ! port_index n') = right_of (t ! port_index n')" if "mid_table ot t n'" for n'
  proof -
    have "port_index n' \<noteq> ?k" using that nocc by (auto simp: mid_table_def)
    then show ?thesis using to [of "port_index n'"] that jl [of n'] by (simp add: mid_table_def right_of_def same_entry_def)
  qed
  show "mid_map ot t' ?m = mid_map ot t m"
  proof
    fix n' show "mid_map ot t' ?m n' = mid_map ot t m n'"
      using mt [of n'] ro [of n'] rk n(3) nmt by (cases "n' = name") (simp_all add: mid_map_def)
  qed
qed

lemma grow_move_correct:
  assumes mid: "grow_mid ot (is_table sp) m Q" and h: "mid_hash ot (is_table sp) m g is"
    and sp: "is_table_size sp = length (is_table sp)" "is_tree_hash sp = card (ghashed g is)"
    and n: "name \<in> Q" "m name = Some e"
  shows "\<exists>del g' t'. grow_move is (length ot) (length (is_table sp)) (name, e) (g, sp) =
      Some (del, g', sp\<lparr>is_table := t', is_tree_hash := card (ghashed g' is),
        is_tree_total := is_tree_total sp - (if del then 1 else 0)\<rparr>) \<and>
    length t' = length (is_table sp) \<and>
    grow_mid ot t' (if del then m(name := None) else m) (Q - {name}) \<and>
    mid_map ot t' (if del then m(name := None) else m) = mid_map ot (is_table sp) m \<and>
    mid_hash ot t' (if del then m(name := None) else m) g' is \<and> others_kept is g g'"
proof -
  let ?t = "is_table sp" let ?k = "port_index name"
  note d = grow_midD [OF mid] and hd = mid_hashD [OF h]
  have k: "length ot \<le> ?k" "?k < length ?t" using d(8,9) n(1) by blast+
  show ?thesis
  proof (cases "ie_bits (?t ! ?k) = 0")
    case False
    let ?t' = "table_write ?t ?k (ie_bits_update (\<lambda>b. b OR IE_BITS_COLLISION))"
    have "IE_BITS_TYPE (ie_bits (?t ! ?k)) \<noteq> 0" "IE_BITS_GEN (ie_bits (?t ! ?k)) \<noteq> MACH_PORT_GEN name"
      using d(4) [OF k] False n(2) by (auto simp: new_entry_def)
    then have "grow_move is (length ot) (length ?t) (name, e) (g, sp) = Some (False, g, sp\<lparr>is_table := ?t'\<rparr>)"
      using k False by (simp add: grow_move_def Let_def)
    then show ?thesis
      using mid_collide [OF mid n(1) False] h sp(2)
      by (intro exI [of _ False] exI [of _ g] exI [of _ ?t']) simp
  next
    case True
    let ?m = "m(name := None)"
    let ?f = "\<lambda>x :: ipc_entry. x\<lparr>ie_bits := ie_bits e OR MACH_PORT_GEN name, ie_object := ie_object e, ie_request := ie_request e\<rparr>"
    let ?sp1 = "sp\<lparr>is_table := table_write ?t ?k ?f\<rparr>"
    have kh: "?k \<notin> hashed ?t" using hd(3) [of ?k] True k by (auto simp: occupied_def used_def)
    have pk: "0 < ?k" using d(2) k(1) by linarith
    have f1: "is_table_size ?sp1 = length ?t" "is_table ?sp1 = table_write ?t ?k ?f" "is_tree_hash ?sp1 = card (ghashed g is)"
      using sp by simp_all
    have sync: "IE_BITS_TYPE (ie_bits e) = MACH_PORT_TYPE_SEND \<longleftrightarrow> name \<in> ghashed g is" using hd(7) [OF n(2)] by blast
    obtain g' t' where mv:
      "(if IE_BITS_TYPE (ie_bits e) = MACH_PORT_TYPE_SEND then
          do {
            (g, sp) \<leftarrow> ipc_hash_global_delete g is ?sp1 (ie_object e) name e;
            sp \<leftarrow> ipc_hash_local_insert sp (ie_object e) ?k;
            Some (g, sp)
          }
        else Some (g, ?sp1)) = Some (g', ?sp1\<lparr>is_table := t', is_tree_hash := card (ghashed g' is)\<rparr>)"
      "strip t' = strip (is_table ?sp1)" "local_wf t'"
      "hashed t' = (if name \<in> ghashed g is then insert ?k (hashed ?t) else hashed ?t)"
      "global_wf g'" "ghashed g' is = ghashed g is - {name}" "global_in g' is ?m" "others_kept is g g'"
      using move_hash [OF hd(2) pk k(2) kh f1(1,2) hd(4,1,5) n(2) refl f1(3) sync] by blast
    have l: "length t' = length ?t" using strip_eqD(1) [OF mv(2)] by simp
    have to: "same_entry (t' ! j) (?t ! j)" if "j < length ?t" "j \<noteq> ?k" for j
      using strip_eqD(2-4) [OF mv(2), of j] that by (simp add: same_entry_def)
    have tk: "ie_bits (t' ! ?k) = ie_bits e OR MACH_PORT_GEN name" "ie_object (t' ! ?k) = ie_object e"
      "ie_request (t' ! ?k) = ie_request e"
      using strip_eqD(2-4) [OF mv(2), of ?k] k(2) by simp_all
    note mm = mid_move [OF mid n(1) True n(2) l to tk]
    have run: "grow_move is (length ot) (length ?t) (name, e) (g, sp) =
        Some (True, g', sp\<lparr>is_table := t', is_tree_hash := card (ghashed g' is), is_tree_total := is_tree_total sp - 1\<rparr>)"
      using k True d(6) [OF n(2)]
      by (simp add: grow_move_def Let_def mv(1) MACH_PORT_TYPE_values(1) split del: if_split)
    have "mid_hash ot t' ?m g' is"
      unfolding mid_hash_def
    proof (intro conjI ballI allI impI hd(1) mv(3,5,7))
      fix j assume "j \<in> hashed t'"
      then show "occupied ot t' j" using mm(3) hd(3) mv(4) by (auto split: if_splits)
    next
      fix n' assume n': "mid_table ot t' n'"
      show "port_index n' \<in> hashed t' \<longleftrightarrow> IE_BITS_TYPE (ie_bits (t' ! port_index n')) = MACH_PORT_TYPE_SEND"
      proof (cases "n' = name")
        case True
        then show ?thesis using mm(6) sync mv(4) kh by simp
      next
        case False
        then have o: "mid_table ot ?t n'" using n' mm(4) by blast
        then have "occupied ot ?t (port_index n')" by (simp add: mid_table_def)
        moreover have "\<not> occupied ot ?t ?k" using True k(1) by (simp add: occupied_def used_def)
        ultimately have "port_index n' \<noteq> ?k" "port_index n' < length ?t"
          using d(1) by (auto simp: occupied_def used_def)
        then show ?thesis using hd(6) [OF o] to [of "port_index n'"] mv(4) by (simp add: same_entry_def)
      qed
    next
      fix n' e' assume "?m n' = Some e'"
      then show "n' \<in> ghashed g' is \<longleftrightarrow> IE_BITS_TYPE (ie_bits e') = MACH_PORT_TYPE_SEND"
        using hd(7) [of n' e'] mv(6) by (auto split: if_splits)
    qed
    then show ?thesis
      using run l mm(1,2) mv(8) by (intro exI [of _ True] exI [of _ g'] exI [of _ t']) simp
  qed
qed

text \<open>The whole loop.\<close>

lemma grow_moves_correct:
  assumes "grow_mid ot (is_table sp) m (fst ` set xs)" "mid_hash ot (is_table sp) m g is"
    "is_table_size sp = length (is_table sp)" "is_tree_hash sp = card (ghashed g is)"
    "distinct (map fst xs)" "\<forall>x\<in>set xs. m (fst x) = Some (snd x)"
  shows "\<exists>ys g' t'. traverse_list (grow_move is (length ot) (length (is_table sp))) xs (g, sp) =
      Some (ys, g', sp\<lparr>is_table := t', is_tree_hash := card (ghashed g' is),
        is_tree_total := is_tree_total sp - (length xs - length ys)\<rparr>) \<and>
    length ys \<le> length xs \<and> length t' = length (is_table sp) \<and>
    (let m' = (\<lambda>n. if n \<in> fst ` set xs \<and> n \<notin> fst ` set ys then None else m n) in
     grow_mid ot t' m' {} \<and> mid_map ot t' m' = mid_map ot (is_table sp) m \<and> mid_hash ot t' m' g' is) \<and>
    others_kept is g g'"
  using assms
proof (induction xs arbitrary: g sp m)
  case Nil
  then show ?case by (intro exI [of _ "[]"] exI [of _ g] exI [of _ "is_table sp"]) (simp add: Let_def)
next
  case (Cons x xs)
  let ?n = "fst x"
  have x: "?n \<in> fst ` set (x # xs)" "m ?n = Some (snd x)" using Cons.prems(6) by simp_all
  obtain del g1 t1 where s1: "grow_move is (length ot) (length (is_table sp)) x (g, sp) =
      Some (del, g1, sp\<lparr>is_table := t1, is_tree_hash := card (ghashed g1 is),
        is_tree_total := is_tree_total sp - (if del then 1 else 0)\<rparr>)"
    "length t1 = length (is_table sp)"
    "grow_mid ot t1 (if del then m(?n := None) else m) (fst ` set (x # xs) - {?n})"
    "mid_map ot t1 (if del then m(?n := None) else m) = mid_map ot (is_table sp) m"
    "mid_hash ot t1 (if del then m(?n := None) else m) g1 is" "others_kept is g g1"
    using grow_move_correct [OF Cons.prems(1-4) x] by auto
  define m1 where "m1 = (if del then m(?n := None) else m)"
  define sp1 where "sp1 = sp\<lparr>is_table := t1, is_tree_hash := card (ghashed g1 is),
        is_tree_total := is_tree_total sp - (if del then 1 else 0)\<rparr>"
  have nx: "?n \<notin> fst ` set xs" using Cons.prems(5) by simp
  then have Q: "fst ` set (x # xs) - {?n} = fst ` set xs" by simp
  have "grow_mid ot (is_table sp1) m1 (fst ` set xs)" "mid_hash ot (is_table sp1) m1 g1 is"
    "is_table_size sp1 = length (is_table sp1)" "is_tree_hash sp1 = card (ghashed g1 is)"
    "distinct (map fst xs)" "\<forall>x\<in>set xs. m1 (fst x) = Some (snd x)"
    using s1(2,3,5) Cons.prems(3,5,6) nx unfolding Q by (auto simp: sp1_def m1_def intro: rev_image_eqI)
  from Cons.IH [OF this] obtain ys g' t' where ih:
    "traverse_list (grow_move is (length ot) (length (is_table sp))) xs (g1, sp1) =
      Some (ys, g', sp1\<lparr>is_table := t', is_tree_hash := card (ghashed g' is),
        is_tree_total := is_tree_total sp1 - (length xs - length ys)\<rparr>)"
    "length ys \<le> length xs" "length t' = length (is_table sp)" "others_kept is g1 g'"
    "let m' = (\<lambda>n. if n \<in> fst ` set xs \<and> n \<notin> fst ` set ys then None else m1 n) in
     grow_mid ot t' m' {} \<and> mid_map ot t' m' = mid_map ot t1 m1 \<and> mid_hash ot t' m' g' is"
    using s1(2) by (auto simp: sp1_def)
  let ?ys = "if del then ys else x # ys"
  have sub: "fst ` set ys \<subseteq> fst ` set xs" using traverse_list_subset [OF ih(1)] by blast
  have m': "(\<lambda>n. if n \<in> fst ` set xs \<and> n \<notin> fst ` set ys then None else m1 n) =
      (\<lambda>n. if n \<in> fst ` set (x # xs) \<and> n \<notin> fst ` set ?ys then None else m n)"
    using nx sub by (auto simp: m1_def fun_eq_iff)
  have "traverse_list (grow_move is (length ot) (length (is_table sp))) (x # xs) (g, sp) =
      Some (?ys, g', sp\<lparr>is_table := t', is_tree_hash := card (ghashed g' is),
        is_tree_total := is_tree_total sp - (length (x # xs) - length ?ys)\<rparr>)"
    using s1(1) ih(1,2) by (simp add: sp1_def [symmetric]) (simp add: sp1_def)
  then show ?case
    using ih(2-4) ih(5) [unfolded m'] s1(4) others_kept_trans [OF s1(6) ih(4)]
    by (intro exI [of _ ?ys] exI [of _ g'] exI [of _ t']) (simp add: Let_def m1_def)
qed

lemma grow_counts_correct:
  assumes "sorted (map (\<lambda>x. port_index (fst x)) xs)" "\<forall>x\<in>set xs. i \<le> port_index (fst x)"
  shows "\<exists>i'. traverse_list grow_count xs (c, i) = Some (xs, c + card ((\<lambda>x. port_index (fst x)) ` set xs - {i}), i')"
  using assms
proof (induction xs arbitrary: c i)
  case (Cons x xs)
  let ?j = "port_index (fst x)" let ?I = "(\<lambda>x. port_index (fst x)) ` set xs"
  have s: "sorted (map (\<lambda>x. port_index (fst x)) xs)" "\<forall>y\<in>set xs. ?j \<le> port_index (fst y)" using Cons.prems by simp_all
  show ?case
  proof (cases "?j = i")
    case True
    then have "(\<lambda>x. port_index (fst x)) ` set (x # xs) - {i} = ?I - {i}" by auto
    then show ?thesis using Cons.IH [OF s, of c] True by (auto simp: grow_count_def)
  next
    case False
    have "(\<lambda>x. port_index (fst x)) ` set (x # xs) - {i} = insert ?j (?I - {?j})"
      using False Cons.prems(2) s(2) by fastforce
    then have "card ((\<lambda>x. port_index (fst x)) ` set (x # xs) - {i}) = Suc (card (?I - {?j}))"
      using card.insert_remove [of ?I ?j] by simp
    then show ?thesis using Cons.IH [OF s, of "c + 1"] False by (auto simp: grow_count_def)
  qed
qed simp

subsection \<open>The transfer from the tree\<close>

lemma split_at_word:
  assumes "splay_invar tree" "unat w < 2 ^ 24"
  shows "\<exists>tree' small. ipc_splay_tree_split tree (MACH_PORT_MAKE w 0) = Some (tree', small) \<and>
    splay_invar tree' \<and> splay_invar small \<and>
    splay_entries tree = splay_entries small @ splay_entries tree' \<and>
    (\<forall>x\<in>set (splay_entries small). port_index (fst x) < unat w) \<and>
    (\<forall>x\<in>set (splay_entries tree'). unat w \<le> port_index (fst x))"
  using split_at_index [OF assms] by simp

text \<open>Leaving out some entries of a part of the tree.\<close>

lemma map_of_part:
  assumes srt: "sorted_keys (is @ ms @ rs)" and sub: "set ys \<subseteq> set ms" "sorted_keys ys"
  shows "sorted_keys (is @ ys @ rs)"
    "map_of (is @ ys @ rs) =
      (\<lambda>n. if n \<in> fst ` set ms \<and> n \<notin> fst ` set ys then None else map_of (is @ ms @ rs) n)"
proof -
  show s': "sorted_keys (is @ ys @ rs)"
    using srt sub unfolding sorted_keys_simps set_append by blast
  have "map_of (is @ ys @ rs) n = Some e \<longleftrightarrow>
      \<not> (n \<in> fst ` set ms \<and> n \<notin> fst ` set ys) \<and> map_of (is @ ms @ rs) n = Some e" for n e
    unfolding map_of_sorted_keys_iff [OF srt] map_of_sorted_keys_iff [OF s']
  proof
    assume h: "(n, e) \<in> set (is @ ys @ rs)"
    then have m: "(n, e) \<in> set (is @ ms @ rs)" using sub(1) by auto
    moreover have "n \<in> fst ` set ys" if nm: "n \<in> fst ` set ms"
    proof -
      obtain e' where e': "(n, e') \<in> set ms" using nm by auto
      then have "(n, e) = (n, e')" using sorted_keys_key_inj [OF srt m, of "(n, e')"] by simp
      moreover have "(n, e') \<notin> set is" "(n, e') \<notin> set rs"
        using srt e' by (auto dest: order.strict_implies_not_eq)
      ultimately have "(n, e) \<in> set ys" using h by auto
      then show ?thesis by force
    qed
    ultimately show "\<not> (n \<in> fst ` set ms \<and> n \<notin> fst ` set ys) \<and> (n, e) \<in> set (is @ ms @ rs)" by blast
  next
    assume h: "\<not> (n \<in> fst ` set ms \<and> n \<notin> fst ` set ys) \<and> (n, e) \<in> set (is @ ms @ rs)"
    moreover have "(n, e) \<in> set ys" if m: "(n, e) \<in> set ms"
    proof -
      have "n \<in> fst ` set ys" using m h by force
      then obtain e' where e': "(n, e') \<in> set ys" by auto
      then have "(n, e') \<in> set (is @ ms @ rs)" using sub(1) by auto
      then have "(n, e) = (n, e')" using sorted_keys_key_inj [OF srt, of "(n, e)" "(n, e')"] h by simp
      then show ?thesis using e' by simp
    qed
    ultimately show "(n, e) \<in> set (is @ ys @ rs)" by auto
  qed
  then show "map_of (is @ ys @ rs) =
      (\<lambda>n. if n \<in> fst ` set ms \<and> n \<notin> fst ` set ys then None else map_of (is @ ms @ rs) n)"
    by (intro map_eqI) simp
qed

lemma sorted_index: "sorted_keys xs \<Longrightarrow> sorted (map (\<lambda>x. port_index (fst x)) xs)"
proof (induction xs)
  case (Cons x xs)
  have "port_index (fst x) \<le> port_index (fst y)" if "y \<in> set xs" for y
    using Cons.prems that port_index_mono [of "fst x" "fst y"] by (auto simp: less_imp_le)
  then show ?case using Cons by simp
qed simp

lemma splay_mapD: "splay_invar tree \<Longrightarrow> x \<in> set (splay_entries tree) \<Longrightarrow> splay_map tree (fst x) = Some (snd x)"
  using map_of_sorted_keys_iff [OF splay.sorted, of tree "fst x" "snd x"] by (simp add: splay_map_def)

lemma dom_splay_map: "dom (splay_map tree) = fst ` set (splay_entries tree)"
  by (simp add: splay_map_def dom_map_of_conv_image_fst)

lemma grow_tree_correct:
  assumes inv: "splay_invar (is_tree sp)" and tot: "is_tree_total sp = length (splay_entries (is_tree sp))"
    and sz: "unat osize = length ot" "unat sz = length (is_table sp)" "unat sz \<le> unat nsize" "unat nsize < 2 ^ 24"
    and sp: "is_table_size sp = length (is_table sp)" "is_tree_hash sp = card (ghashed g is)"
    and mid: "grow_mid ot (is_table sp) (tree_map sp)
      {n \<in> dom (tree_map sp). length ot \<le> port_index n \<and> port_index n < length (is_table sp)}"
    and h: "mid_hash ot (is_table sp) (tree_map sp) g is"
  shows "\<exists>g' t' tree'. grow_tree is osize sz nsize (g, sp) =
      Some (g', sp\<lparr>is_table := t', is_tree := tree', is_tree_total := length (splay_entries tree'),
        is_tree_small := card (small_indices (unat sz) (unat nsize) (splay_map tree')),
        is_tree_hash := card (ghashed g' is)\<rparr>) \<and>
    length t' = length (is_table sp) \<and> splay_invar tree' \<and>
    grow_mid ot t' (splay_map tree') {} \<and>
    mid_map ot t' (splay_map tree') = mid_map ot (is_table sp) (tree_map sp) \<and>
    mid_hash ot t' (splay_map tree') g' is \<and> others_kept is g g' \<and>
    splay_map tree' \<subseteq>\<^sub>m tree_map sp \<and>
    (\<forall>n. port_index n < length ot \<longrightarrow> splay_map tree' n = tree_map sp n)"
proof -
  note d = grow_midD [OF mid]
  have o: "unat osize \<le> unat sz" "unat osize < 2 ^ 24" "unat sz < 2 ^ 24" "0 < unat sz" using d(1,2) sz by linarith+
  obtain big sm0 where s1: "ipc_splay_tree_split (is_tree sp) (MACH_PORT_MAKE nsize 0) = Some (big, sm0)"
      "splay_invar big" "splay_invar sm0" "splay_entries (is_tree sp) = splay_entries sm0 @ splay_entries big"
      "\<forall>x\<in>set (splay_entries sm0). port_index (fst x) < unat nsize"
      "\<forall>x\<in>set (splay_entries big). unat nsize \<le> port_index (fst x)"
    using split_at_word [OF inv sz(4)] by blast
  obtain small mv0 where s2: "ipc_splay_tree_split sm0 (MACH_PORT_MAKE sz 0) = Some (small, mv0)"
      "splay_invar small" "splay_invar mv0" "splay_entries sm0 = splay_entries mv0 @ splay_entries small"
      "\<forall>x\<in>set (splay_entries mv0). port_index (fst x) < unat sz"
      "\<forall>x\<in>set (splay_entries small). unat sz \<le> port_index (fst x)"
    using split_at_word [OF s1(3) o(3)] by blast
  obtain mv ig where s3: "ipc_splay_tree_split mv0 (MACH_PORT_MAKE osize 0) = Some (mv, ig)"
      "splay_invar mv" "splay_invar ig" "splay_entries mv0 = splay_entries ig @ splay_entries mv"
      "\<forall>x\<in>set (splay_entries ig). port_index (fst x) < unat osize"
      "\<forall>x\<in>set (splay_entries mv). unat osize \<le> port_index (fst x)"
    using split_at_word [OF s2(3) o(2)] by blast
  let ?I = "splay_entries ig" and ?M = "splay_entries mv" and ?S = "splay_entries small" and ?B = "splay_entries big"
  have ents: "splay_entries (is_tree sp) = ?I @ ?M @ ?S @ ?B" using s1(4) s2(4) s3(4) by simp
  have srt: "sorted_keys (?I @ ?M @ ?S @ ?B)" using splay.sorted [OF inv] ents by simp
  have Q: "{n \<in> dom (tree_map sp). length ot \<le> port_index n \<and> port_index n < length (is_table sp)} = fst ` set ?M"
  proof -
    have "unat osize \<le> port_index (fst x) \<and> port_index (fst x) < unat sz" if "x \<in> set ?M" for x
      using that s3(4,6) s2(5) by simp
    moreover have "\<not> (unat osize \<le> port_index (fst x) \<and> port_index (fst x) < unat sz)" if "x \<in> set ?I \<union> set ?S \<union> set ?B" for x
      using that s3(5) s2(6) s1(6) sz(3) by fastforce
    ultimately show ?thesis
      unfolding dom_splay_map ents sz(1,2) by (force simp: sz(1,2) [symmetric])
  qed
  let ?sp1 = "sp\<lparr>is_tree := big\<rparr>"
  have "\<forall>x\<in>set ?M. tree_map sp (fst x) = Some (snd x)" using splay_mapD [OF inv] ents by simp
  moreover have "distinct (map fst ?M)" using sorted_keys_distinct [OF splay.sorted [OF s3(2)]] .
  ultimately obtain ys g' t' where mv: "traverse_list (grow_move is (length ot) (length (is_table sp))) ?M (g, ?sp1) =
      Some (ys, g', ?sp1\<lparr>is_table := t', is_tree_hash := card (ghashed g' is),
        is_tree_total := is_tree_total sp - (length ?M - length ys)\<rparr>)"
      "length ys \<le> length ?M" "length t' = length (is_table sp)" "others_kept is g g'"
    and m': "let m' = (\<lambda>n. if n \<in> fst ` set ?M \<and> n \<notin> fst ` set ys then None else tree_map sp n) in
     grow_mid ot t' m' {} \<and> mid_map ot t' m' = mid_map ot (is_table sp) (tree_map sp) \<and> mid_hash ot t' m' g' is"
    using grow_moves_correct [of ot ?sp1 "tree_map sp" ?M g "is"] mid [unfolded Q] h sp by auto
  have ys: "set ys \<subseteq> set ?M" "sorted_keys ys"
    using traverse_list_subset [OF mv(1)] sorted_keys_traverse_list [OF mv(1)] srt by simp_all
  obtain mv' where mv': "splay_traverse (grow_move is (unat osize) (unat sz)) mv (g, ?sp1) =
      Some (mv', g', ?sp1\<lparr>is_table := t', is_tree_hash := card (ghashed g' is),
        is_tree_total := is_tree_total sp - (length ?M - length ys)\<rparr>)" "splay_invar mv'" "splay_entries mv' = ys"
    using splay_traverse_correct [OF s3(2), of "grow_move is (unat osize) (unat sz)" "(g, ?sp1)"] mv(1) sz(1,2) by auto
  have "\<forall>x\<in>set ?S. 0 \<le> port_index (fst x)" by simp
  then obtain i' where "traverse_list grow_count ?S (0, 0) = Some (?S, card ((\<lambda>x. port_index (fst x)) ` set ?S - {0}), i')"
    using grow_counts_correct [OF sorted_index [OF splay.sorted [OF s2(2)]], of 0 0] by auto
  moreover have "(\<lambda>x. port_index (fst x)) ` set ?S - {0} = (\<lambda>x. port_index (fst x)) ` set ?S" using s2(6) o(4) by fastforce
  moreover define ns where "ns = card ((\<lambda>x. port_index (fst x)) ` set ?S)"
  ultimately obtain small' where sm': "splay_traverse grow_count small (0, 0) = Some (small', ns, i')"
      "splay_invar small'" "splay_entries small' = ?S"
    using splay_traverse_correct [OF s2(2), of grow_count "(0, 0)"] by auto
  note part = map_of_part [of ?I ?M "?S @ ?B" ys, OF srt ys]
  have j1: "\<exists>tree1. ipc_splay_tree_join big small' = Some tree1 \<and> splay_invar tree1 \<and> splay_entries tree1 = ?S @ ?B"
    using splay.join [OF s1(2) sm'(2)] sm'(3) srt by simp
  then obtain tree1 where t1: "ipc_splay_tree_join big small' = Some tree1" "splay_invar tree1" "splay_entries tree1 = ?S @ ?B" by blast
  have "\<exists>tree2. ipc_splay_tree_join tree1 mv' = Some tree2 \<and> splay_invar tree2 \<and> splay_entries tree2 = ys @ ?S @ ?B"
    using splay.join [OF t1(2) mv'(2)] part(1) unfolding t1(3) mv'(3) by auto
  then obtain tree2 where t2: "ipc_splay_tree_join tree1 mv' = Some tree2" "splay_invar tree2" "splay_entries tree2 = ys @ ?S @ ?B" by blast
  have "\<exists>tree3. ipc_splay_tree_join tree2 ig = Some tree3 \<and> splay_invar tree3 \<and> splay_entries tree3 = ?I @ ys @ ?S @ ?B"
    using splay.join [OF t2(2) s3(3)] part(1) unfolding t2(3) by auto
  then obtain tree3 where t3: "ipc_splay_tree_join tree2 ig = Some tree3" "splay_invar tree3" "splay_entries tree3 = ?I @ ys @ ?S @ ?B" by blast
  have m3: "splay_map tree3 = (\<lambda>n. if n \<in> fst ` set ?M \<and> n \<notin> fst ` set ys then None else tree_map sp n)"
    unfolding splay_map_def t3(3) ents part(2) ..
  have len: "is_tree_total sp - (length ?M - length ys) = length (splay_entries tree3)"
    unfolding tot t3(3) ents using mv(2) by simp
  have si: "small_indices (unat sz) (unat nsize) (splay_map tree3) = (\<lambda>x. port_index (fst x)) ` set ?S"
  proof -
    have "unat sz \<le> port_index (fst x) \<and> port_index (fst x) < unat nsize" if "x \<in> set ?S" for x
      using that s2(4,6) s1(5) by simp
    moreover have "\<not> (unat sz \<le> port_index (fst x) \<and> port_index (fst x) < unat nsize)" if "x \<in> set ?I \<union> set ys \<union> set ?B" for x
    proof (cases "x \<in> set ?B")
      case True then show ?thesis using s1(6) by (simp add: not_less)
    next
      case False
      then have "x \<in> set (splay_entries mv0)" using that s3(4) ys(1) by auto
      then show ?thesis using s2(5) by (simp add: not_le)
    qed
    ultimately show ?thesis unfolding small_indices_def dom_splay_map t3(3) by force
  qed
  have a1: "ns \<le> unat nsize - unat sz"
  proof -
    have "(\<lambda>x. port_index (fst x)) ` set ?S \<subseteq> {unat sz..<unat nsize}" unfolding si [symmetric] small_indices_def by auto
    then have "ns \<le> card {unat sz..<unat nsize}" unfolding ns_def by (intro card_mono) auto
    then show ?thesis by simp
  qed
  have a2: "ns \<le> is_tree_total sp - (length ?M - length ys)"
    unfolding len t3(3) ns_def using card_image_le [of "set ?S" "\<lambda>x. port_index (fst x)"] card_length [of ?S] by simp
  have "grow_tree is osize sz nsize (g, sp) =
      Some (g', sp\<lparr>is_table := t', is_tree := tree3, is_tree_total := length (splay_entries tree3),
        is_tree_small := card (small_indices (unat sz) (unat nsize) (splay_map tree3)),
        is_tree_hash := card (ghashed g' is)\<rparr>)"
    unfolding grow_tree_def Let_def si
    using s1(1) s2(1) s3(1) mv'(1) sm'(1) a1 a2 t1(1) t2(1) t3(1) len by (simp add: ns_def)
  moreover have "splay_map tree3 \<subseteq>\<^sub>m tree_map sp"
    unfolding m3 map_le_def by (simp add: dom_def)
  moreover have "splay_map tree3 n = tree_map sp n" if "port_index n < length ot" for n
  proof -
    have "n \<notin> fst ` set ?M" unfolding Q [symmetric] using that by simp
    then show ?thesis by (simp add: m3)
  qed
  ultimately show ?thesis
    using mv(3,4) t3(2) m' unfolding m3 [symmetric] Let_def by blast
qed

subsection \<open>The free list of the new table\<close>

definition free_filled :: "nat \<Rightarrow> ipc_entry list \<Rightarrow> ipc_entry list \<Rightarrow> bool" where
  "free_filled k t t' \<longleftrightarrow>
     length t' = length t \<and>
     (\<forall>j<length t. ie_index (t' ! j) = ie_index (t ! j) \<and> ie_object (t' ! j) = ie_object (t ! j) \<and>
        (if k \<le> j \<and> ie_bits (t ! j) = 0 then ie_bits (t' ! j) = IE_BITS_GEN_MASK
         else ie_bits (t' ! j) = ie_bits (t ! j) \<and> (0 < j \<longrightarrow> ie_request (t' ! j) = ie_request (t ! j))))"

lemma grow_free_fold:
  assumes old: "linked t 0 old" "set old \<subseteq> {..<k0}" and k: "0 < k0" "k0 \<le> k" "k \<le> length t"
  shows "\<exists>t' f. fold grow_free (rev [k..<length t]) (t, ie_next (t ! 0)) = (t', f) \<and> free_filled k t t' \<and>
    linked (table_write t' 0 (ie_request_update (\<lambda>_. f))) 0 (filter (\<lambda>j. ie_bits (t ! j) = 0) [k..<length t] @ old)"
  using k(3,2)
proof (induction k rule: inc_induct)
  case base
  have "linked (table_write t 0 (ie_request_update (\<lambda>_. ie_next (t ! 0)))) 0 old"
    using old(1) by (rule linked_cong) (simp_all add: table_write_def nth_list_update)
  then show ?case by (simp add: free_filled_def)
next
  case (step k)
  let ?xs = "filter (\<lambda>j. ie_bits (t ! j) = 0) [Suc k..<length t] @ old"
  obtain t1 f where ih: "fold grow_free (rev [Suc k..<length t]) (t, ie_next (t ! 0)) = (t1, f)" "free_filled (Suc k) t t1"
      "linked (table_write t1 0 (ie_request_update (\<lambda>_. f))) 0 ?xs"
    using step.IH step.prems by auto
  have l: "length t1 = length t" using ih(2) by (simp add: free_filled_def)
  have r: "rev [k..<length t] = rev [Suc k..<length t] @ [k]" using step.hyps by (simp add: upt_conv_Cons)
  have bk: "ie_bits (t1 ! k) = ie_bits (t ! k)" using ih(2) step.hyps by (simp add: free_filled_def)
  have k0: "0 < k" using step.prems k(1) by simp
  show ?case
  proof (cases "ie_bits (t ! k) = 0")
    case False
    then have "fold grow_free (rev [k..<length t]) (t, ie_next (t ! 0)) = (t1, f)"
      unfolding r fold_append using ih(1) bk by (simp add: grow_free_def)
    moreover have "filter (\<lambda>j. ie_bits (t ! j) = 0) [k..<length t] @ old = ?xs"
      using False step.hyps by (simp add: upt_conv_Cons)
    moreover have "free_filled k t t1"
      unfolding free_filled_def
    proof (intro conjI allI impI l)
      fix j assume j: "j < length t"
      have "k \<le> j \<and> ie_bits (t ! j) = 0 \<longleftrightarrow> Suc k \<le> j \<and> ie_bits (t ! j) = 0" using False by (cases "j = k") auto
      then show "ie_index (t1 ! j) = ie_index (t ! j)" "ie_object (t1 ! j) = ie_object (t ! j)"
        "if k \<le> j \<and> ie_bits (t ! j) = 0 then ie_bits (t1 ! j) = IE_BITS_GEN_MASK
         else ie_bits (t1 ! j) = ie_bits (t ! j) \<and> (0 < j \<longrightarrow> ie_request (t1 ! j) = ie_request (t ! j))"
        using ih(2) j unfolding free_filled_def by simp_all
    qed
    ultimately show ?thesis using ih(3) by simp
  next
    case True
    let ?t' = "table_write t1 k (\<lambda>e. e\<lparr>ie_bits := IE_BITS_GEN_MASK, ie_request := f\<rparr>)"
    have kl: "k < length t1" "k < length t" using l step.hyps by simp_all
    have "fold grow_free (rev [k..<length t]) (t, ie_next (t ! 0)) = (?t', k)"
      unfolding r fold_append using ih(1) bk True by (simp add: grow_free_def)
    moreover have ff: "free_filled k t ?t'"
      unfolding free_filled_def
    proof (intro conjI allI impI)
      show "length ?t' = length t" using l by simp
      fix j assume j: "j < length t"
      show "ie_index (?t' ! j) = ie_index (t ! j)" "ie_object (?t' ! j) = ie_object (t ! j)"
        "if k \<le> j \<and> ie_bits (t ! j) = 0 then ie_bits (?t' ! j) = IE_BITS_GEN_MASK
         else ie_bits (?t' ! j) = ie_bits (t ! j) \<and> (0 < j \<longrightarrow> ie_request (?t' ! j) = ie_request (t ! j))"
        using ih(2) j kl True unfolding free_filled_def by (cases "j = k"; auto)+
    qed
    moreover have "linked (table_write ?t' 0 (ie_request_update (\<lambda>_. k))) 0 (k # ?xs)"
    proof -
      let ?u = "table_write t1 0 (ie_request_update (\<lambda>_. f))" and ?v = "table_write ?t' 0 (ie_request_update (\<lambda>_. k))"
      have l0: "0 < length t1" using kl by linarith
      have "linked ?v k ?xs"
        using ih(3)
      proof (rule linked_move)
        show "length ?v = length ?u" by simp
        show "ie_next (?v ! k) = ie_next (?u ! 0)" using kl k0 l0 by simp
        fix i assume i: "i \<in> set ?xs"
        then have "i \<noteq> k" using step.prems old(2) by auto
        moreover have "i \<noteq> 0" using linked_bounds [OF ih(3) i] by simp
        ultimately show "ie_next (?v ! i) = ie_next (?u ! i)" by simp
      qed
      then show ?thesis using kl k0 l0 by simp
    qed
    moreover have "filter (\<lambda>j. ie_bits (t ! j) = 0) [k..<length t] @ old = k # ?xs"
      using True kl by (simp add: upt_conv_Cons)
    ultimately show ?thesis by auto
  qed
qed

lemma grow_free_list_correct:
  assumes old: "linked t 0 old" "set old \<subseteq> {..<k}" and k: "0 < k" "k \<le> length t"
  shows "free_filled k t (grow_free_list k t)"
    "linked (grow_free_list k t) 0 (filter (\<lambda>j. ie_bits (t ! j) = 0) [k..<length t] @ old)"
proof -
  obtain t' f where r: "fold grow_free (rev [k..<length t]) (t, ie_next (t ! 0)) = (t', f)" "free_filled k t t'"
     "linked (table_write t' 0 (ie_request_update (\<lambda>_. f))) 0 (filter (\<lambda>j. ie_bits (t ! j) = 0) [k..<length t] @ old)"
    using grow_free_fold [OF old k(1) order_refl k(2)] by blast
  have e: "grow_free_list k t = table_write t' 0 (ie_request_update (\<lambda>_. f))" by (simp add: grow_free_list_def r(1))
  show "linked (grow_free_list k t) 0 (filter (\<lambda>j. ie_bits (t ! j) = 0) [k..<length t] @ old)" unfolding e by (rule r(3))
  have "ie_index (grow_free_list k t ! j) = ie_index (t' ! j)" "ie_object (grow_free_list k t ! j) = ie_object (t' ! j)"
    "ie_bits (grow_free_list k t ! j) = ie_bits (t' ! j)" "0 < j \<Longrightarrow> ie_request (grow_free_list k t ! j) = ie_request (t' ! j)" for j
    unfolding e by (simp_all add: table_write_field)
  then show "free_filled k t (grow_free_list k t)"
    using r(2) unfolding free_filled_def by (simp add: e)
qed
subsection \<open>A round\<close>

lemma linked_grow:
  assumes "linked t i xs" "length t \<le> length t'"
    and "\<And>j. j \<in> insert i (set xs) \<Longrightarrow> ie_next (t' ! j) = ie_next (t ! j)"
  shows "linked t' i xs"
  using assms
proof (induction xs arbitrary: i)
  case (Cons x xs)
  have "linked t' x xs" using Cons.prems by (intro Cons.IH) auto
  then show ?case using Cons.prems by auto
qed simp

text \<open>The space with the new table, once the free list is made.\<close>

lemma grow_finish:
  assumes wf: "space_wf sp" and st: "settled sp" and ot: "ot = is_table sp"
    and mid: "grow_mid ot t m {}" and sub: "m \<subseteq>\<^sub>m tree_map sp" "\<And>n. port_index n < length ot \<Longrightarrow> m n = tree_map sp n"
    and tree: "splay_invar tree" "splay_map tree = m"
    and nx: "is_table_next sp < 127" "length t = unat (ipc_table_entries ! is_table_next sp)"
    and sp': "sp' = sp\<lparr>is_table := grow_free_list (length ot) t, is_table_size := length t,
      is_table_next := is_table_next sp + 1, is_tree := tree, is_tree_total := length (splay_entries tree),
      is_tree_small := card (small_indices (length t) (unat (ipc_table_entries ! (is_table_next sp + 1))) m),
      is_tree_hash := card (ghashed g is)\<rparr>"
  shows "space_wf sp'" "settled sp'" "entry_map sp' = mid_map ot t m"
    "mid_hash ot t m g is \<Longrightarrow> hash_wf g is sp'" "mid_hash ot t m g is \<Longrightarrow> hash_sync {} g is sp'"
proof -
  let ?t = "grow_free_list (length ot) t"
  note w = space_wfD [OF wf] and d = grow_midD [OF mid]
  note tw = table_wfD [OF w(6), folded ot] and rw = tree_wfD [OF w(9), folded ot]
  have old: "linked t 0 (free_list ot)"
    using tw(2) d(1)
  proof (rule linked_grow)
    fix j assume "j \<in> insert 0 (set (free_list ot))"
    then have "j < length ot" using linked_bounds [OF tw(2)] d(2) by auto
    then show "ie_next (t ! j) = ie_next (ot ! j)" using d(3) by (simp add: same_entry_def)
  qed
  have lt: "set (free_list ot) \<subseteq> {..<length ot}" using linked_bounds [OF tw(2)] by auto
  note gf = grow_free_list_correct [OF old lt d(2,1)]
  have f: "length ?t = length t" "\<And>j. j < length t \<Longrightarrow> ie_index (?t ! j) = ie_index (t ! j)"
    "\<And>j. j < length t \<Longrightarrow> ie_object (?t ! j) = ie_object (t ! j)"
    "\<And>j. j < length t \<Longrightarrow> length ot \<le> j \<Longrightarrow> ie_bits (t ! j) = 0 \<Longrightarrow> ie_bits (?t ! j) = IE_BITS_GEN_MASK"
    "\<And>j. j < length t \<Longrightarrow> \<not> (length ot \<le> j \<and> ie_bits (t ! j) = 0) \<Longrightarrow> ie_bits (?t ! j) = ie_bits (t ! j)"
    "\<And>j. j < length t \<Longrightarrow> \<not> (length ot \<le> j \<and> ie_bits (t ! j) = 0) \<Longrightarrow> 0 < j \<Longrightarrow> ie_request (?t ! j) = ie_request (t ! j)"
    using gf(1) unfolding free_filled_def by auto
  have l0: "0 < length t" using d(1,2) by linarith
  have pos: "0 < j" if "length ot \<le> j" for j using d(2) that by linarith
  have ne: "?t \<noteq> []" using f(1) l0 by force
  have fl: "free_list ?t = filter (\<lambda>j. ie_bits (t ! j) = 0) [length ot..<length t] @ free_list ot"
    using free_list_eq [OF gf(2) ne] .
  have us: "used ?t j \<longleftrightarrow> occupied ot t j" for j
    using d(1) pos [of j] lt unfolding used_def fl f(1) occupied_def by (auto simp: not_less)
  have b0: "ie_bits (?t ! 0) = ie_bits (ot ! 0)" "ie_object (?t ! 0) = ie_object (ot ! 0)"
    using f(3) [OF l0] f(5) [OF l0] d(2) d(3) [OF d(2)] by (simp_all add: same_entry_def)
  have tab: "table_wf ?t"
    unfolding table_wf_def
  proof (intro conjI ballI ne)
    show "linked ?t 0 (free_list ?t)" using gf(2) fl by simp
    show "ie_bits (?t ! 0) AND NOT IE_BITS_COLLISION = IE_BITS_GEN_MASK" "ie_object (?t ! 0) = 0"
      using tw(5,6) b0 by simp_all
    fix i assume i: "i \<in> set (free_list ?t)"
    have "ie_bits (?t ! i) AND NOT IE_BITS_GEN_MASK = 0 \<and> ie_object (?t ! i) = 0"
    proof (cases "i < length ot")
      case True
      then have "i \<in> set (free_list ot)" using i fl by auto
      then show ?thesis using tw(3,4) f(3,5) [of i] d(3) [OF True] True d(1) by (auto simp: same_entry_def)
    next
      case False
      then have i': "length ot \<le> i" "i < length t" "ie_bits (t ! i) = 0" using i lt fl by auto
      then show ?thesis using f(3,4) [OF i'(2)] d(4) [OF i'(1,2)] gen_only(2) by (simp add: new_entry_def)
    qed
    then show "ie_bits (?t ! i) AND NOT IE_BITS_GEN_MASK = 0" "ie_object (?t ! i) = 0" by blast+
  qed
  have mle: "tree_map sp n = Some e" if "m n = Some e" for n e
    using that sub(1) by (metis domI map_le_def)
  have none: "ie_bits (t ! port_index n) \<noteq> 0" if "m n \<noteq> None" "length ot \<le> port_index n" "port_index n < length t" for n
    using d(4) [OF that(2,3)] that(1) unfolding new_entry_def by (metis domIff empty_iff)
  have treewf: "tree_wf ?t m"
    unfolding tree_wf_def
  proof (intro conjI allI impI)
    fix n e assume n: "m n = Some e"
    show "MACH_PORT_VALID n" "ie_bits e AND NOT IE_BITS_RIGHT_MASK = 0" using rw(1,2) mle [OF n] by auto
    assume i: "0 < port_index n" "port_index n < length ?t"
    then have i': "port_index n < length t" using f(1) by simp
    show "used ?t (port_index n)"
      unfolding us occupied_def using rw(3) [OF mle [OF n] i(1)] none [of n] n i' by (cases "port_index n < length ot") auto
    show "IE_BITS_GEN (ie_bits (?t ! port_index n)) \<noteq> MACH_PORT_GEN n"
    proof (cases "port_index n < length ot")
      case True
      then show ?thesis using rw(4) [OF mle [OF n] i(1)] f(5) [OF i'] d(3) [OF True] by (simp add: same_entry_def)
    next
      case False
      then show ?thesis using none [of n] n i' f(5) [OF i'] d(4) [OF _ i'] by (auto simp: new_entry_def)
    qed
  next
    fix j assume j: "j < length ?t"
    then have j': "j < length t" using f(1) by simp
    show "ie_bits (?t ! j) AND IE_BITS_COLLISION \<noteq> 0 \<longleftrightarrow> j \<in> port_index ` dom m"
    proof (cases "j < length ot")
      case True
      then have "j \<in> port_index ` dom (tree_map sp) \<longleftrightarrow> j \<in> port_index ` dom m"
        using sub(2) by (force simp: image_iff dom_def)
      then show ?thesis using rw(5) [OF True] f(5) [OF j'] d(3) [OF True] True by (simp add: same_entry_def)
    next
      case False
      then have j2: "length ot \<le> j" by simp
      show ?thesis
      proof (cases "ie_bits (t ! j) = 0")
        case True
        then show ?thesis using f(4) [OF j' j2] d(4) [OF j2 j'] free_bits(2) [OF gen_only(2)]
          by (auto simp: new_entry_def)
      next
        case nz: False
        then show ?thesis using f(5) [OF j'] d(4) [OF j2 j'] by (auto simp: new_entry_def image_iff)
      qed
    qed
  qed
  have fld: "is_table sp' = ?t" "tree_map sp' = m" by (simp_all add: sp' tree)
  show "space_wf sp'"
    unfolding space_wf_def fld using w(1) nx f(1) tab tree(1) treewf by (simp add: sp')
  have ob: "j < length t \<and> \<not> (length ot \<le> j \<and> ie_bits (t ! j) = 0) \<and> 0 < j" if "occupied ot t j" for j
    using that d(1) pos [of j] by (auto simp: occupied_def used_def)
  have bits: "ie_bits (?t ! j) = ie_bits (t ! j)" "right_of (?t ! j) = right_of (t ! j)" if "occupied ot t j" for j
    using f(3,5,6) [of j] ob [OF that] by (simp_all add: right_of_def)
  have it: "in_table sp' n \<longleftrightarrow> mid_table ot t n" for n
    using us [of "port_index n"] bits [of "port_index n"] by (auto simp: in_table_def mid_table_def fld)
  show "entry_map sp' = mid_map ot t m"
    using bits it by (auto simp: fun_eq_iff entry_map_def mid_map_def fld mid_table_def)
  have "IE_BITS_TYPE (ie_bits (t ! j)) \<noteq> 0" if "occupied ot t j" for j
  proof (cases "j < length ot")
    case True
    then have "used (is_table sp) j" using that by (simp add: occupied_def ot)
    then show ?thesis using st d(3) [OF True] by (simp add: settled_def same_entry_def ot)
  next
    case False
    then show ?thesis using that d(4) [of j] by (auto simp: occupied_def new_entry_def used_def)
  qed
  then show "settled sp'"
    unfolding settled_def fld using us bits(1) d(6) by auto
  have loc: "local_wf ?t" "hashed ?t = hashed t" if "local_wf t"
    using local_wf_cong [OF that f(1,2)] f(3) hashed_bounds [OF that] by blast+
  show "hash_wf g is sp'" if h: "mid_hash ot t m g is"
    unfolding hash_wf_def fld using mid_hashD [OF h] loc us by (simp add: sp')
  show "hash_sync {} g is sp'" if h: "mid_hash ot t m g is"
    unfolding hash_sync_def fld it using mid_hashD(6,7) [OF h] loc(2) [OF mid_hashD(2) [OF h]] bits(1)
    by (auto simp: mid_table_def)
qed

definition space_ok :: "addr \<Rightarrow> space_state \<Rightarrow> bool" where
  "space_ok is st \<longleftrightarrow>
     space_wf (snd st) \<and> settled (snd st) \<and> hash_wf (fst st) is (snd st) \<and> hash_sync {} (fst st) is (snd st)"

lemma space_okD:
  assumes "space_ok is (g, sp)"
  shows "space_wf sp" "settled sp" "hash_wf g is sp" "hash_sync {} g is sp"
  using assms by (simp_all add: space_ok_def)

lemma hash_syncD:
  assumes "hash_sync X g is sp"
  shows "in_table sp n \<Longrightarrow> n \<notin> X \<Longrightarrow>
      port_index n \<in> hashed (is_table sp) \<longleftrightarrow> IE_BITS_TYPE (ie_bits (is_table sp ! port_index n)) = MACH_PORT_TYPE_SEND"
    "tree_map sp n = Some e \<Longrightarrow> n \<notin> X \<Longrightarrow>
      n \<in> ghashed g is \<longleftrightarrow> IE_BITS_TYPE (ie_bits e) = MACH_PORT_TYPE_SEND"
  using assms unfolding hash_sync_def by blast+

lemma used_name:
  assumes "space_wf sp" "used (is_table sp) i"
  shows "\<exists>n. in_table sp n \<and> port_index n = i"
proof -
  let ?n = "MACH_PORT_MAKE (of_nat i) (IE_BITS_GEN (ie_bits (is_table sp ! i)))"
  have "i < 2 ^ 24" using usedD [OF assms(2)] space_table_bound [OF assms(1)] by simp
  then have "port_index ?n = i" by (rule port_index_MAKE)
  moreover have "MACH_PORT_GEN ?n = IE_BITS_GEN (ie_bits (is_table sp ! i))"
    by (simp add: MACH_PORT_GEN_MAKE IE_BITS_GEN_def and.assoc)
  ultimately have "in_table sp ?n" using assms(2) by (simp add: in_table_def)
  then show ?thesis using \<open>port_index ?n = i\<close> by blast
qed

lemma settled_send:
  assumes ok: "space_ok is (g, sp)" and i: "i < length (is_table sp)"
    and send: "IE_BITS_TYPE (ie_bits (is_table sp ! i)) = MACH_PORT_TYPE_SEND"
  shows "i \<in> hashed (is_table sp)"
proof -
  let ?t = "is_table sp"
  note o = space_okD [OF ok]
  note tw = table_wfD [OF space_wfD(6) [OF o(1)]]
  have "i \<noteq> 0" using send tw(8) by (cases "i = 0") (auto simp: MACH_PORT_TYPE_values)
  moreover have "i \<notin> set (free_list ?t)"
    using send tw(3) [of i] free_bits(1) [of "ie_bits (?t ! i)"] by (auto simp: MACH_PORT_TYPE_values)
  ultimately have u: "used ?t i" using i by (simp add: used_def)
  obtain n where "in_table sp n" "port_index n = i" using used_name [OF o(1) u] by blast
  then show ?thesis using hash_syncD(1) [OF o(4)] send by auto
qed

lemma grow_start:
  assumes ok: "space_ok is (g, sp)" and c: "copied (is_table sp) n (length (is_table sp)) t" "length (is_table sp) \<le> n"
  shows "grow_mid (is_table sp) t (tree_map sp)
      {k \<in> dom (tree_map sp). length (is_table sp) \<le> port_index k \<and> port_index k < length t}"
    "mid_map (is_table sp) t (tree_map sp) = entry_map sp" "mid_hash (is_table sp) t (tree_map sp) g is"
proof -
  let ?ot = "is_table sp"
  note o = space_okD [OF ok]
  note w = space_wfD [OF o(1)] and h = hash_wfD [OF o(3)]
  note tw = table_wfD [OF w(6)] and rw = tree_wfD [OF w(9)]
  have c': "length t = n" "local_wf t" "hashed t = {j. j < length ?ot \<and> IE_BITS_TYPE (ie_bits (?ot ! j)) = MACH_PORT_TYPE_SEND}"
    "\<And>j. j < length ?ot \<Longrightarrow> same_entry (t ! j) (?ot ! j)"
    "\<And>j. length ?ot \<le> j \<Longrightarrow> j < n \<Longrightarrow> ie_bits (t ! j) = 0 \<and> ie_object (t ! j) = 0"
    using c unfolding copied_def by (auto simp: same_entry_def entry_zero_def not_less)
  show "grow_mid ?ot t (tree_map sp)
      {k \<in> dom (tree_map sp). length ?ot \<le> port_index k \<and> port_index k < length t}"
    unfolding grow_mid_def using c(2) c'(1,4,5) tw(1) rw(2) o(2) by (auto simp: new_entry_def settled_def)
  have oc: "occupied ?ot t j \<longleftrightarrow> used ?ot j" for j using c'(1,5) by (auto simp: occupied_def)
  have same: "ie_bits (t ! j) = ie_bits (?ot ! j)" "right_of (t ! j) = right_of (?ot ! j)" if "used ?ot j" for j
    using c'(4) [of j] usedD [OF that] by (simp_all add: right_of_def same_entry_def)
  have mt: "mid_table ?ot t k \<longleftrightarrow> in_table sp k" for k
    using same by (auto simp: mid_table_def in_table_def oc)
  show "mid_map ?ot t (tree_map sp) = entry_map sp"
    using same by (auto simp: fun_eq_iff mid_map_def entry_map_def mt in_table_def)
  have hh: "hashed t = hashed ?ot"
  proof
    show "hashed t \<subseteq> hashed ?ot" using c'(3) settled_send [OF ok] by auto
    show "hashed ?ot \<subseteq> hashed t"
    proof
      fix j assume j: "j \<in> hashed ?ot"
      then have u: "used ?ot j" by (rule h(3))
      obtain k where "in_table sp k" "port_index k = j" using used_name [OF o(1) u] by blast
      then show "j \<in> hashed t" using hash_syncD(1) [OF o(4), of k] j usedD [OF u] by (simp add: c'(3))
    qed
  qed
  show "mid_hash ?ot t (tree_map sp) g is"
    unfolding mid_hash_def mt oc hh
    using h c'(2) o(4) same(1) by (auto simp: hash_sync_def in_table_def)
qed

lemma grow_round_correct:
  assumes ok: "space_ok is (g, sp)" and nx: "is_table_next sp < 127"
    and sz: "osize = ipc_table_entries ! (is_table_next sp - 1)" "sz = ipc_table_entries ! is_table_next sp"
      "nsize = ipc_table_entries ! (is_table_next sp + 1)" "osize < sz" "sz \<le> nsize"
  shows "\<exists>g' sp'. grow_round is osize sz nsize (g, sp) = Some (g', sp') \<and> space_ok is (g', sp') \<and>
    entry_map sp' = entry_map sp \<and> others_kept is g g' \<and> is_table_next sp' = is_table_next sp + 1"
proof -
  let ?ot = "is_table sp"
  note o = space_okD [OF ok]
  note w = space_wfD [OF o(1)] and h = hash_wfD [OF o(3)]
  have n: "unat osize = length ?ot" "length ?ot < unat sz" "unat sz \<le> unat nsize" "unat nsize < 2 ^ 24"
    using w(5) sz unat_entries(2) [of "is_table_next sp + 1"] nx by (simp_all add: word_less_nat_alt word_le_nat_alt)
  let ?sp0 = "sp\<lparr>is_table := replicate (unat sz) entry_zero, is_table_size := unat sz, is_table_next := is_table_next sp + 1\<rparr>"
  have "\<exists>t'. ofold (grow_copy ?ot) [0..<length ?ot] ?sp0 = Some (?sp0\<lparr>is_table := t'\<rparr>) \<and> copied ?ot (unat sz) (length ?ot) t'"
    using n(2) hashed_bounds [OF h(2) settled_send [OF ok]] by (intro grow_copies_correct) auto
  then obtain t where t: "ofold (grow_copy ?ot) [0..<length ?ot] ?sp0 = Some (?sp0\<lparr>is_table := t\<rparr>)"
      "copied ?ot (unat sz) (length ?ot) t" by blast
  have lt: "length t = unat sz" using t(2) by (simp add: copied_def)
  note gs = grow_start [OF ok t(2) less_imp_le [OF n(2)]]
  define sp1 where "sp1 = ?sp0\<lparr>is_table := t\<rparr>"
  obtain g' t' tree' where g: "(if is_tree_total sp1 > 0 then grow_tree is osize sz nsize (g, sp1) else Some (g, sp1)) =
      Some (g', sp1\<lparr>is_table := t', is_tree := tree', is_tree_total := length (splay_entries tree'),
        is_tree_small := card (small_indices (unat sz) (unat nsize) (splay_map tree')),
        is_tree_hash := card (ghashed g' is)\<rparr>)"
    "length t' = length t" "splay_invar tree'" "grow_mid ?ot t' (splay_map tree') {}"
    "mid_map ?ot t' (splay_map tree') = entry_map sp" "mid_hash ?ot t' (splay_map tree') g' is" "others_kept is g g'"
    "splay_map tree' \<subseteq>\<^sub>m tree_map sp" "\<forall>k. port_index k < length ?ot \<longrightarrow> splay_map tree' k = tree_map sp k"
  proof (cases "is_tree_total sp > 0")
    case True
    have "\<exists>g' t' tree'. grow_tree is osize sz nsize (g, sp1) =
      Some (g', sp1\<lparr>is_table := t', is_tree := tree', is_tree_total := length (splay_entries tree'),
        is_tree_small := card (small_indices (unat sz) (unat nsize) (splay_map tree')),
        is_tree_hash := card (ghashed g' is)\<rparr>) \<and>
      length t' = length (is_table sp1) \<and> splay_invar tree' \<and>
      grow_mid ?ot t' (splay_map tree') {} \<and>
      mid_map ?ot t' (splay_map tree') = mid_map ?ot (is_table sp1) (tree_map sp1) \<and>
      mid_hash ?ot t' (splay_map tree') g' is \<and> others_kept is g g' \<and>
      splay_map tree' \<subseteq>\<^sub>m tree_map sp1 \<and>
      (\<forall>k. port_index k < length ?ot \<longrightarrow> splay_map tree' k = tree_map sp1 k)"
      using w(7,8) n lt h(6) gs by (intro grow_tree_correct) (simp_all add: sp1_def)
    then show thesis using that True gs(2) by (auto simp: sp1_def)
  next
    case False
    then have e: "splay_entries (is_tree sp) = []" using w(8) by simp
    then have "tree_map sp = Map.empty" by (simp add: splay_map_def)
    then have "small_indices a b (tree_map sp) = {}" for a b by (simp add: small_indices_def)
    then have "is_tree_small sp = card (small_indices (unat sz) (unat nsize) (tree_map sp))" using w(10) by simp
    moreover have "is_tree_total sp = length (splay_entries (is_tree sp))" using w(8) .
    ultimately have "sp1 = sp1\<lparr>is_table := t, is_tree := is_tree sp, is_tree_total := length (splay_entries (is_tree sp)),
        is_tree_small := card (small_indices (unat sz) (unat nsize) (tree_map sp)),
        is_tree_hash := card (ghashed g is)\<rparr>" using h(6) by (simp add: sp1_def)
    then show thesis
      using that [where g' = g and t' = t and tree' = "is_tree sp"] gs False w(7) \<open>tree_map sp = Map.empty\<close> by (simp add: sp1_def)
  qed
  define sp' where "sp' = sp\<lparr>is_table := grow_free_list (length ?ot) t', is_table_size := length t',
      is_table_next := is_table_next sp + 1, is_tree := tree', is_tree_total := length (splay_entries tree'),
      is_tree_small := card (small_indices (length t') (unat (ipc_table_entries ! (is_table_next sp + 1))) (splay_map tree')),
      is_tree_hash := card (ghashed g' is)\<rparr>"
  have lt': "length t' = unat (ipc_table_entries ! is_table_next sp)" using g(2) lt sz(2) by simp
  note gf = grow_finish [OF o(1,2) refl g(4,8) g(9) [rule_format] g(3) refl nx lt' sp'_def]
  have "grow_round is osize sz nsize (g, sp) = Some (g', sp')"
  proof -
    have k: "kassert (unat osize = is_table_size sp) = Some ()" using w(2) n(1) by simp
    have r0: "ofold (grow_copy ?ot) [0..<unat osize] ?sp0 = Some sp1" using t(1) n(1) by (simp add: sp1_def)
    show ?thesis
      unfolding grow_round_def Let_def prod.case k Option.bind.bind_lunit r0 g(1)
      using n(1) lt g(2) sz(3) by (simp add: sp1_def sp'_def)
  qed
  then show ?thesis
    using gf g(5,6,7) by (auto simp: space_ok_def sp'_def [symmetric]) (auto simp: sp'_def)
qed

end
