(* ===== verification/Ipc_Entry_Ops.thy ===== *)
theory Ipc_Entry_Ops
  imports Ipc_Entry_Grow
begin

text \<open>
  Correctness of the operations on entries that unlock the space to allocate memory,
  \<open>ipc_entry_grow_table\<close>, \<open>ipc_entry_alloc\<close> and \<open>ipc_entry_alloc_name\<close>, under every
  interference by other threads that keeps the space well-formed, and the properties of
  ipc/ipc_entry.c.
\<close>

subsection \<open>Interference\<close>

text \<open>\<open>P\<close> is what the caller knows about the map of the space whenever it is unlocked.  The
  space may die.\<close>

definition state_ok :: "addr \<Rightarrow> ((mach_port \<rightharpoonup> u32 \<times> addr \<times> nat) \<Rightarrow> bool) \<Rightarrow> space_state \<Rightarrow> bool" where
  "state_ok is P st \<longleftrightarrow> is_active (snd st) \<longrightarrow> space_ok is st \<and> P (entry_map (snd st))"

definition env_ok :: "addr \<Rightarrow> ((mach_port \<rightharpoonup> u32 \<times> addr \<times> nat) \<Rightarrow> bool) \<Rightarrow> environment \<Rightarrow> bool" where
  "env_ok is P env \<longleftrightarrow> (\<forall>(allocated, others)\<in>set env. \<forall>st. state_ok is P st \<longrightarrow> state_ok is P (others st))"

lemma env_ok_simps [simp]:
  "env_ok is P []"
  "env_ok is P ((a, f) # env) \<longleftrightarrow> (\<forall>st. state_ok is P st \<longrightarrow> state_ok is P (f st)) \<and> env_ok is P env"
  by (simp_all add: env_ok_def)

lemma state_okI: "space_ok is st \<Longrightarrow> P (entry_map (snd st)) \<Longrightarrow> state_ok is P st"
  by (simp add: state_ok_def)

lemma state_okD: "state_ok is P (g, sp) \<Longrightarrow> is_active sp \<Longrightarrow> space_ok is (g, sp) \<and> P (entry_map sp)"
  by (simp add: state_ok_def)

subsection \<open>Growing the table\<close>

lemma grow_sizes:
  assumes "0 < its" "its < 127"
  shows "ipc_table_entries ! (its - 1) < ipc_table_entries ! its"
    "ipc_table_entries ! its \<le> ipc_table_entries ! (its + 1)"
proof -
  show "ipc_table_entries ! (its - 1) < ipc_table_entries ! its"
    using assms by (intro entries_increasing) auto
  show "ipc_table_entries ! its \<le> ipc_table_entries ! (its + 1)"
  proof (cases "its = 126")
    case True then show ?thesis using entries_sizes(3) by simp
  next
    case False
    then show ?thesis using assms by (intro less_imp_le entries_increasing) auto
  qed
qed

lemma nth_opt_entries: "i < 128 \<Longrightarrow> nth_opt ipc_table_entries i = Some (ipc_table_entries ! i)"
  using entries_sizes(1) by simp

lemma grow_table_correct:
  assumes "state_ok is P (g, sp)" "is_active sp" "env_ok is P env"
  shows "\<exists>kr env' st'. ipc_entry_grow_table is env (g, sp) = Some (kr, env', st') \<and>
    state_ok is P st' \<and> env_ok is P env' \<and>
    kr \<in> {KERN_SUCCESS, KERN_NO_SPACE, KERN_RESOURCE_SHORTAGE} \<and>
    (kr = KERN_NO_SPACE \<longrightarrow> is_table_next sp = 127 \<and> st' = (g, sp))"
  using assms
proof (induction env arbitrary: g sp)
  case Nil
  have ok: "space_ok is (g, sp)" using state_okD [OF Nil.prems(1,2)] by blast
  note w = space_wfD [OF space_okD(1) [OF ok]]
  show ?case
  proof (cases "is_table_next sp = 127")
    case True
    then show ?thesis using Nil.prems entries_sizes(3)
      by (subst ipc_entry_grow_table.simps) (simp add: nth_opt_entries Let_def)
  next
    case False
    then have "is_table_next sp < 127" using w(4) by simp
    from grow_sizes [OF w(3) this] this show ?thesis using Nil.prems w(3)
      by (subst ipc_entry_grow_table.simps) (simp add: nth_opt_entries Let_def)
  qed
next
  case (Cons x env)
  obtain a f where x: "x = (a, f)" by (cases x)
  have ok: "space_ok is (g, sp)" using state_okD [OF Cons.prems(1,2)] by blast
  note w = space_wfD [OF space_okD(1) [OF ok]]
  let ?its = "is_table_next sp"
  show ?case
  proof (cases "?its = 127")
    case True
    then show ?thesis using Cons.prems entries_sizes(3)
      by (subst ipc_entry_grow_table.simps) (simp add: nth_opt_entries Let_def)
  next
    case False
    then have its: "?its < 127" using w(4) by simp
    note sz = grow_sizes [OF w(3) its]
    obtain g1 sp1 where st1: "f (g, sp) = (g1, sp1)" by (cases "f (g, sp)")
    have ok1: "state_ok is P (g1, sp1)" using Cons.prems(1,3) st1 x by (metis env_ok_simps(2))
    have env: "env_ok is P env" using Cons.prems(3) x by simp
    note unfold = ipc_entry_grow_table.simps [of _ "(a, f) # env"] nth_opt_entries Let_def
    show ?thesis
    proof (cases "a \<and> is_active sp1 \<and> is_table_next sp1 = ?its")
      case False
      then show ?thesis using Cons.prems(2) its sz w(3) st1 ok1 env x
        by (auto simp: unfold)
    next
      case True
      have sok: "space_ok is (g1, sp1)" "P (entry_map sp1)" using state_okD [OF ok1] True by blast+
      obtain g2 sp2 where r: "grow_round is (ipc_table_entries ! (?its - 1)) (ipc_table_entries ! ?its)
            (ipc_table_entries ! (?its + 1)) (g1, sp1) = Some (g2, sp2)"
          "space_ok is (g2, sp2)" "entry_map sp2 = entry_map sp1" "is_table_next sp2 = ?its + 1"
        using grow_round_correct [OF sok(1)] True its sz by metis
      have ok2: "state_ok is P (g2, sp2)" using r(2,3) sok(2) by (simp add: state_okI)
      note w2 = space_wfD [OF space_okD(1) [OF r(2)]]
      let ?again = "is_tree_small sp2 > 0 \<and>
        (unat (ipc_table_entries ! (?its + 1)) - unat (ipc_table_entries ! ?its)) * unat sizeof_ipc_entry
          < is_tree_small sp2 * unat sizeof_ipc_tree_entry"
      have run: "ipc_entry_grow_table is (x # env) (g, sp) =
          (if ?again then ipc_entry_grow_table is env (g2, sp2) else Some (KERN_SUCCESS, env, g2, sp2))"
        using Cons.prems(2) its sz less_imp_neq [OF sz(1)] w(3) st1 True r(1) unfolding x
        by (subst ipc_entry_grow_table.simps) (simp add: nth_opt_entries Let_def)
      show ?thesis
      proof (cases ?again)
        case False
        then show ?thesis using run ok2 env by auto
      next
        case again: True
        have "is_table_next sp2 \<noteq> 127"
        proof
          assume "is_table_next sp2 = 127"
          then have "unat (ipc_table_entries ! is_table_next sp2) = length (is_table sp2)"
            using w2(5) entries_sizes(3) by simp
          then have "small_indices (is_table_size sp2) (unat (ipc_table_entries ! is_table_next sp2)) (tree_map sp2) = {}"
            using w2(2) by (auto simp: small_indices_def)
          then show False using again w2(10) by simp
        qed
        then show ?thesis using Cons.IH [OF ok2 w2(1) env] run again by auto
      qed
    qed
  qed
qed

subsection \<open>Allocation\<close>

text \<open>The state after a new entry for \<open>name\<close> has been made in a space that had the map \<open>m\<close>.\<close>

definition entry_made ::
  "addr \<Rightarrow> (mach_port \<rightharpoonup> u32 \<times> addr \<times> nat) \<Rightarrow> mach_port \<Rightarrow> ipc_entry_ref \<Rightarrow> space_state \<Rightarrow> bool" where
  "entry_made is m name r st \<longleftrightarrow>
     m name = None \<and> MACH_PORT_VALID name \<and> space_wf (snd st) \<and> hash_wf (fst st) is (snd st) \<and>
     hash_sync {} (fst st) is (snd st) \<and> entry_ref (snd st) name = Some r \<and>
     entry_map (snd st) = m(name \<mapsto> (0, 0, 0))"


lemma alloc_grows_not_full:
  assumes "space_wf sp" "alloc_name_grows sp name (ipc_table_entries ! is_table_next sp)"
  shows "is_table_next sp \<noteq> 127"
  using assms(2) space_wfD(2,5) [OF assms(1)] entries_sizes(3) by (auto simp: alloc_name_grows_def)

lemma alloc_name_loop_correct:
  assumes "state_ok is P (g, sp)" "env_ok is P env" "MACH_PORT_VALID name"
  shows "\<exists>res env' g' sp'. alloc_name_loop is name te env (g, sp) = Some (res, env', g', sp') \<and>
    (case res of
       Inl kr \<Rightarrow>
         state_ok is P (g', sp') \<and> kr \<in> {KERN_INVALID_TASK, KERN_RESOURCE_SHORTAGE} \<and>
         (kr = KERN_INVALID_TASK \<longrightarrow> \<not> is_active sp')
     | Inr r \<Rightarrow>
         (\<exists>m. P m \<and> entry_made is m name r (g', sp')) \<or>
         space_ok is (g', sp') \<and> P (entry_map sp') \<and> entry_ref sp' name = Some r)"
  using assms
proof (induction "length env" arbitrary: env te g sp rule: less_induct)
  case less
  show ?case
  proof (cases "is_active sp")
    case False
    then show ?thesis using less.prems by (subst alloc_name_loop.simps) simp
  next
    case act: True
    have ok: "space_ok is (g, sp)" "P (entry_map sp)" using state_okD [OF less.prems(1) act] by blast+
    note o = space_okD [OF ok(1)]
    show ?thesis
    proof (cases rule: alloc_name_table_correct [OF o(1,2), of name])
      case 1
      then have "entry_ref sp name = Some (TableEntry (port_index name))" by (simp add: entry_ref_def)
      then show ?thesis using act 1(2) ok by (subst alloc_name_loop.simps) auto
    next
      case (2 t')
      note tk = taken_keeps [OF o(1) 2(1), unfolded MAKE_of_nat_index]
      have "entry_made is (entry_map sp) name (TableEntry (port_index name)) (g, sp\<lparr>is_table := t'\<rparr>)"
        unfolding entry_made_def using tk(1-4) tk(6) [OF o(3)] tk(7) [OF o(3,4)] less.prems(3) by simp
      then show ?thesis using act 2(2) ok(2) by (subst alloc_name_loop.simps) auto
    next
      case 3
      obtain sp1 where tl: "alloc_name_tree sp name =
          Some (if tree_map sp name = None then None else Some (TreeEntry name), sp1)" "resplayed sp sp1"
        using alloc_name_tree_correct [OF o(1,2)] by blast
      note k = resplayed_keeps [OF tl(2)] and s = resplayed_same [OF tl(2)]
      have ok1: "space_ok is (g, sp1)"
        using ok(1) k s unfolding space_ok_def hash_wf_def hash_sync_def by simp
      note o1 = space_okD [OF ok1]
      have P1: "P (entry_map sp1)" using ok(2) k(2) by simp
      show ?thesis
      proof (cases "tree_map sp name = None")
        case False
        then have "entry_ref sp1 name = Some (TreeEntry name)" using 3(2) by (simp add: k(3)) (simp add: entry_ref_def)
        then show ?thesis using act 3(1) tl(1) False ok1 P1 by (subst alloc_name_loop.simps) auto
      next
        case True
        let ?sz = "ipc_table_entries ! is_table_next sp1"
        have its: "nth_opt ipc_table_entries (is_table_next sp1) = Some ?sz"
          using nth_opt_entries space_wfD(4) [OF o1(1)] by blast
        have sok1: "state_ok is P (g, sp1)" using ok1 P1 by (simp add: state_okI)
        have act1: "is_active sp1" using act s(8) by simp
        show ?thesis
        proof (cases "alloc_name_grows sp1 name ?sz")
          case grows: True
          obtain kr env1 g1 sp2 where gr: "ipc_entry_grow_table is env (g, sp1) = Some (kr, env1, g1, sp2)"
              "state_ok is P (g1, sp2)" "env_ok is P env1" "kr \<in> {KERN_SUCCESS, KERN_RESOURCE_SHORTAGE}"
            using grow_table_correct [OF sok1 act1 less.prems(2)] alloc_grows_not_full [OF o1(1) grows] by fast
          show ?thesis
          proof (cases "kr = KERN_SUCCESS")
            case kr: True
            then have "length env1 < length env" using gr(1) grow_table_env by blast
            from less.hyps [OF this gr(2,3) less.prems(3), of te] show ?thesis
              using act 3(1) tl(1) True its grows gr(1) kr by (subst alloc_name_loop.simps) simp
          next
            case False
            then have "kr = KERN_RESOURCE_SHORTAGE" using gr(4) by simp
            then show ?thesis
              using act 3(1) tl(1) True its grows gr(1,2) by (subst alloc_name_loop.simps) simp
          qed
        next
          case nogrow: False
          show ?thesis
          proof (cases te)
            case te: True
            obtain sp2 where ins: "alloc_name_insert sp1 name ?sz = Some sp2" "space_wf sp2"
                "entry_map sp2 = (entry_map sp1)(name \<mapsto> (0, 0, 0))" "entry_ref sp2 name = Some (TreeEntry name)"
                "hash_wf g is sp2" "hash_sync {} g is sp2"
              using alloc_name_insert_correct [OF o1(1), of name g "is" "{}"] 3(2,3) True less.prems(3) o1(3,4)
              by (auto simp: s k)
            have "entry_map sp1 name = None" using 3(2) True by (simp add: k(2)) (simp add: entry_map_def)
            then have "entry_made is (entry_map sp1) name (TreeEntry name) (g, sp2)"
              using ins less.prems(3) by (simp add: entry_made_def)
            then show ?thesis
              using act 3(1) tl(1) True its nogrow te ins(1) P1 by (subst alloc_name_loop.simps) auto
          next
            case te: False
            show ?thesis
            proof (cases env)
              case Nil
              then show ?thesis
                using act 3(1) tl(1) True its nogrow te sok1 by (subst alloc_name_loop.simps) auto
            next
              case (Cons x env1)
              obtain a f where x: "x = (a, f)" by (cases x)
              obtain g1 sp2 where st: "f (g, sp1) = (g1, sp2)" by (cases "f (g, sp1)")
              have ok2: "state_ok is P (g1, sp2)" "env_ok is P env1"
                using less.prems(2) sok1 st unfolding Cons x by (metis env_ok_simps(2))+
              have len: "length env1 < length env" using Cons by simp
              show ?thesis
                using less.hyps [OF len ok2 less.prems(3), of True] act 3(1) tl(1) True its nogrow te Cons x st ok2(1)
                by (subst alloc_name_loop.simps) (cases a; simp)
            qed
          qed
        qed
      qed
    qed
  qed
qed
subsection \<open>A new space\<close>

lemma nth_space_table_init:
  assumes "0 < n" "i < n"
  shows "space_table_init n ! i = entry_zero\<lparr>ie_bits := IE_BITS_GEN_MASK, ie_request := if i = n - 1 then 0 else i + 1\<rparr>"
  using assms by (simp add: space_table_init_def nth_table_write)

lemma space_table_init_free:
  assumes "0 < n" shows "linked (space_table_init n) 0 [1..<n]"
proof -
  have len: "length (space_table_init n) = n" by (simp add: space_table_init_def)
  have "linked (space_table_init n) i [Suc i..<n]" if "i < n" for i
    using that
  proof (induction "n - i" arbitrary: i)
    case (Suc d)
    show ?case
    proof (cases "Suc i < n")
      case True
      then have "linked (space_table_init n) (Suc i) [Suc (Suc i)..<n]" using Suc by (intro Suc.hyps) simp_all
      then show ?thesis using True Suc.prems assms len by (simp add: upt_conv_Cons nth_space_table_init)
    next
      case False
      then show ?thesis using Suc.prems assms by (simp add: nth_space_table_init)
    qed
  qed simp
  then show ?thesis using assms by simp
qed

lemma length_space_table_init [simp]: "length (space_table_init n) = n"
  by (simp add: space_table_init_def)

lemma free_list_space_table_init:
  assumes "0 < n" shows "free_list (space_table_init n) = [1..<n]"
proof -
  have "space_table_init n \<noteq> []" using assms length_space_table_init [of n] by (metis list.size(3) not_less0)
  then show ?thesis using free_list_eq [OF space_table_init_free [OF assms]] by blast
qed

lemma space_init_correct:
  assumes i: "initial < 127" and g: "global_wf g" "ghashed g is = {}" "is \<noteq> 0"
  shows "\<exists>sp. space_init initial = Some sp \<and> space_ok is (g, sp) \<and> entry_map sp = Map.empty"
proof -
  let ?n = "unat (ipc_table_entries ! initial)" let ?t = "space_table_init ?n"
  have n: "0 < ?n" using unat_entries(1) [of initial] i by simp
  obtain sp where sp: "space_init initial = Some sp" "is_active sp" "is_table sp = ?t" "is_table_size sp = ?n"
      "is_table_next sp = initial + 1" "is_tree sp = ipc_splay_tree_init" "is_tree_total sp = 0" "is_tree_small sp = 0"
      "is_tree_hash sp = 0"
    using nth_opt_entries [of initial] i by (simp add: space_init_def)
  have len: "length ?t = ?n" by (simp add: space_table_init_def)
  have ne: "?t \<noteq> []" using len n by force
  have fl: "free_list ?t = [1..<?n]" using free_list_space_table_init [OF n] .
  have nu: "\<not> used ?t j" for j by (auto simp: used_def fl len)
  note nt = nth_space_table_init [OF n]
  have "table_wf ?t"
    unfolding table_wf_def fl
    using ne space_table_init_free [OF n] n
    by (auto simp: nt entry_zero_def gen_only IE_BITS_masks)
  moreover have tm: "tree_map sp = Map.empty" using sp(6) splay.init(2) by (simp add: splay_map_def)
  moreover have "tree_wf ?t Map.empty"
    unfolding tree_wf_def using free_bits(2) [OF gen_only(2)] len by (simp add: nt)
  ultimately have wf: "space_wf sp"
    unfolding space_wf_def using sp i len splay.init by (simp add: small_indices_def)
  have "hashed ?t = {}" using len by (auto simp: hashed_def stored_def slots_def nt entry_zero_def)
  moreover have "local_wf ?t"
    unfolding local_wf_def using ne len \<open>hashed ?t = {}\<close> by (auto simp: probe_wf_def slots_def nt entry_zero_def)
  ultimately have "hash_wf g is sp" "hash_sync {} g is sp"
    unfolding hash_wf_def hash_sync_def using g sp tm nu by (simp_all add: global_in_def in_table_def)
  then have "space_ok is (g, sp)" using wf nu sp(3) tm by (simp add: space_ok_def settled_def)
  moreover have "entry_map sp = Map.empty" using nu sp(3) tm by (auto simp: entry_map_def in_table_def)
  ultimately show ?thesis using sp(1) by blast
qed

text \<open>A global hash table of one bucket and no entries.\<close>

definition empty_hash :: ipc_hash_global where
  "empty_hash = \<lparr>ipc_hash_global_mask = 0, ipc_hash_global_table = [[]]\<rparr>"

lemma empty_hash_ok: "global_wf empty_hash" "ghashed empty_hash is = {}"
  by (simp_all add: empty_hash_def global_wf_def ghashed_def)

lemma init_ok: "\<exists>sp. space_init 0 = Some sp \<and> space_ok 1 (empty_hash, sp) \<and> entry_map sp = Map.empty"
  using space_init_correct [of 0 empty_hash 1] empty_hash_ok by simp

lemma state_ok_True: "state_ok is (\<lambda>_. True) st \<longleftrightarrow> (is_active (snd st) \<longrightarrow> space_ok is st)"
  by (simp add: state_ok_def)

lemma entry_ref_None: "entry_ref sp name = None \<longleftrightarrow> entry_map sp name = None"
  by (auto simp: entry_ref_def entry_map_def)

lemma get_entry_ref:
  assumes "entry_ref sp name = Some r"
  shows "\<exists>e. get_entry sp r = Some e \<and> entry_map sp name = Some (right_of e)"
  using assms usedD by (fastforce simp: entry_ref_def entry_map_def in_table_def split: if_splits)

lemma resplayed_ok:
  assumes "resplayed sp sp'" "space_ok is (g, sp)" shows "space_ok is (g, sp')"
  using assms(2) resplayed_keeps [OF assms(1)] resplayed_same [OF assms(1)]
  unfolding space_ok_def hash_wf_def hash_sync_def by simp

lemma alloc_name_tree_0xff:
  assumes "space_ok is (g, sp)"
  shows "alloc_name_table sp 0xff = Some (None, sp)" "\<not> in_table sp 0xff" "\<not> alloc_name_grows sp 0xff its"
proof -
  note o = space_okD [OF assms]
  note w = space_wfD [OF o(1)]
  have "port_index 0xff = 0" using name_0xff [of "0xff"] by simp
  moreover have "0 < is_table_size sp" using w(2) table_wfD(1) [OF w(6)] by simp
  ultimately show "alloc_name_table sp 0xff = Some (None, sp)" "\<not> in_table sp 0xff" "\<not> alloc_name_grows sp 0xff its"
    by (simp_all add: alloc_name_table_def Let_def in_table_def used_def alloc_name_grows_def)
qed

lemma alloc_name_0xff:
  assumes ok: "space_ok is (g, sp)"
  shows "\<exists>env' sp'. ipc_entry_alloc_name is 0xff [(True, id)] (g, sp) = Some (Inr (TreeEntry 0xff), env', g, sp') \<and>
    space_wf sp' \<and> entry_map sp' 0xff \<noteq> None"
proof -
  note o = space_okD [OF ok] and x = alloc_name_tree_0xff
  obtain sp1 where t1: "alloc_name_tree sp 0xff =
      Some (if tree_map sp 0xff = None then None else Some (TreeEntry 0xff), sp1)" "resplayed sp sp1"
    using alloc_name_tree_correct [OF o(1,2)] by blast
  have ok1: "space_ok is (g, sp1)" using resplayed_ok [OF t1(2) ok] .
  note o1 = space_okD [OF ok1]
  obtain sp2 where t2: "alloc_name_tree sp1 0xff =
      Some (if tree_map sp1 0xff = None then None else Some (TreeEntry 0xff), sp2)" "resplayed sp1 sp2"
    using alloc_name_tree_correct [OF o1(1,2)] by blast
  have ok2: "space_ok is (g, sp2)" using resplayed_ok [OF t2(2) ok1] .
  note o2 = space_okD [OF ok2]
  have its: "nth_opt ipc_table_entries (is_table_next s) = Some (ipc_table_entries ! is_table_next s)" if "space_wf s" for s
    using nth_opt_entries space_wfD(4) [OF that] by blast
  have act: "is_active sp" "is_active sp1" using space_wfD(1) o(1) o1(1) by blast+
  have valid: "MACH_PORT_VALID 0xff" by simp
  show ?thesis
  proof (cases "tree_map sp 0xff = None")
    case False
    then obtain e where "tree_map sp 0xff = Some e" by blast
    then have "ipc_entry_alloc_name is 0xff [(True, id)] (g, sp) = Some (Inr (TreeEntry 0xff), [(True, id)], g, sp1)"
      using act x(1) [OF ok] t1(1) valid
      by (simp add: ipc_entry_alloc_name_def alloc_name_loop.simps [of _ _ _ "[(True, id)]"])
    moreover have "entry_map sp1 0xff \<noteq> None"
      using False x(2) [OF ok] resplayed_keeps(2) [OF t1(2)] by (simp add: entry_map_def)
    ultimately show ?thesis using o1(1) by blast
  next
    case True
    have n2: "tree_map sp1 0xff = None" "tree_map sp2 0xff = None"
      using True resplayed_same(2) [OF t1(2)] resplayed_same(2) [OF t2(2)] by simp_all
    obtain sp3 where ins: "alloc_name_insert sp2 0xff (ipc_table_entries ! is_table_next sp2) = Some sp3" "space_wf sp3"
        "entry_map sp3 = (entry_map sp2)(0xff \<mapsto> (0, 0, 0))"
      using alloc_name_insert_correct [OF o2(1), of "0xff" g "is" "{}"] x(2) [OF ok2] n2(2) valid name_0xff [of "0xff"] by auto
    have "ipc_entry_alloc_name is 0xff [(True, id)] (g, sp) = Some (Inr (TreeEntry 0xff), [], g, sp3)"
      using act x(1,3) [OF ok] x(1) [OF ok1] x(3) [OF ok1] x(3) [OF ok2] t1(1) t2(1) True n2 valid its [OF o1(1)] its [OF o2(1)] ins(1)
      by (simp add: ipc_entry_alloc_name_def alloc_name_loop.simps [of _ _ _ "[(True, id)]"]
        alloc_name_loop.simps [of _ _ _ "[]"])
    then show ?thesis using ins(2,3) by auto
  qed
qed

subsection \<open>Properties\<close>

text \<open>C6. A new space satisfies the invariant of spaces and represents the empty map, for every
  initial size but the last two entries of \<open>ipc_table_entries\<close>.\<close>

theorem ipc_space_init_invariant:
  assumes "initial < 127" "global_wf g" "ghashed g is = {}" "is \<noteq> 0"
  shows "\<exists>sp. space_init initial = Some sp \<and> space_ok is (g, sp) \<and> entry_map sp = Map.empty"
  using assms by (rule space_init_correct)

theorem ipc_space_init_invariant_witness:
  "\<exists>sp. space_init 4 = Some sp \<and> space_ok 0x1000 (empty_hash, sp) \<and> entry_map sp = Map.empty"
  using ipc_space_init_invariant [of 4 empty_hash "0x1000"] empty_hash_ok by simp



text \<open>C8. The port name 255, which has index 0 and generation 255, can be allocated in every
  well-formed space, in the tree, but \<open>ipc_entry_lookup\<close> does not find it: the lookup compares
  the generation with that of table entry 0, the head of the free list, which is 255 too.\<close>

theorem ipc_entry_0xff_not_found:
  assumes "space_ok is (g, sp)"
  shows "\<exists>env' sp'. ipc_entry_alloc_name is 0xff [(True, id)] (g, sp) = Some (Inr (TreeEntry 0xff), env', g, sp') \<and>
    entry_map sp' 0xff \<noteq> None \<and> ipc_entry_lookup sp' 0xff = Some (None, sp')"
  using alloc_name_0xff [OF assms] entry_lookup_0xff by blast

theorem ipc_entry_0xff_not_found_witness:
  "\<exists>sp env' sp'. space_init 0 = Some sp \<and>
    ipc_entry_alloc_name 1 0xff [(True, id)] (empty_hash, sp) = Some (Inr (TreeEntry 0xff), env', empty_hash, sp') \<and>
    entry_map sp' 0xff \<noteq> None \<and> ipc_entry_lookup sp' 0xff = Some (None, sp')"
proof -
  obtain sp where sp: "space_init 0 = Some sp" "space_ok 1 (empty_hash, sp)" using init_ok by blast
  from ipc_entry_0xff_not_found [OF sp(2)] show ?thesis using sp(1) by blast
qed



text \<open>C4. \<open>ipc_entry_alloc_name\<close> ends without a failed assertion under the same interference, and
  does not fail with \<open>KERN_NO_SPACE\<close>.  When it succeeds, the result is the entry that the name
  already had, or a new entry for the name, and nothing else has changed.\<close>

theorem ipc_entry_alloc_name_correct:
  assumes "state_ok is P (g, sp)" "env_ok is P env" "MACH_PORT_VALID name"
  shows "\<exists>res env' g' sp'. ipc_entry_alloc_name is name env (g, sp) = Some (res, env', g', sp') \<and>
    (case res of
       Inl kr \<Rightarrow>
         state_ok is P (g', sp') \<and> kr \<in> {KERN_INVALID_TASK, KERN_RESOURCE_SHORTAGE} \<and>
         (kr = KERN_INVALID_TASK \<longrightarrow> \<not> is_active sp')
     | Inr r \<Rightarrow>
         (\<exists>m. P m \<and> entry_made is m name r (g', sp')) \<or>
         space_ok is (g', sp') \<and> P (entry_map sp') \<and> entry_ref sp' name = Some r)"
  using alloc_name_loop_correct [OF assms, of False] assms(3) by (simp add: ipc_entry_alloc_name_def)

theorem ipc_entry_alloc_name_correct_witness:
  "\<exists>sp res env' g' sp'. space_init 0 = Some sp \<and>
    ipc_entry_alloc_name 1 0x203 [(True, id)] (empty_hash, sp) = Some (res, env', g', sp') \<and>
    (case res of
       Inl kr \<Rightarrow> kr \<in> {KERN_INVALID_TASK, KERN_RESOURCE_SHORTAGE}
     | Inr r \<Rightarrow> entry_made 1 Map.empty 0x203 r (g', sp'))"
proof -
  obtain sp where sp: "space_init 0 = Some sp" "space_ok 1 (empty_hash, sp)" "entry_map sp = Map.empty"
    using init_ok by blast
  have "state_ok 1 (\<lambda>m. m = Map.empty) (empty_hash, sp)" "env_ok 1 (\<lambda>m. m = Map.empty) [(True, id)]"
    "MACH_PORT_VALID 0x203"
    using sp by (simp_all add: state_ok_def)
  from ipc_entry_alloc_name_correct [OF this] obtain res env' g' sp' where r:
    "ipc_entry_alloc_name 1 0x203 [(True, id)] (empty_hash, sp) = Some (res, env', g', sp')"
    "case res of
       Inl kr \<Rightarrow>
         state_ok 1 (\<lambda>m. m = Map.empty) (g', sp') \<and> kr \<in> {KERN_INVALID_TASK, KERN_RESOURCE_SHORTAGE} \<and>
         (kr = KERN_INVALID_TASK \<longrightarrow> \<not> is_active sp')
     | Inr r \<Rightarrow>
         (\<exists>m. m = Map.empty \<and> entry_made 1 m 0x203 r (g', sp')) \<or>
         space_ok 1 (g', sp') \<and> entry_map sp' = Map.empty \<and> entry_ref sp' 0x203 = Some r"
    by blast
  show ?thesis
    using r sp(1) entry_ref_None [of sp' "0x203"] by (cases res) auto
qed

text \<open>A space with one new entry.\<close>

lemma init_get:
  "\<exists>sp0 sp n k e. space_init 0 = Some sp0 \<and> ipc_entry_get sp0 = Some (Inr (n, TableEntry k), sp) \<and>
    space_wf sp \<and> hash_wf empty_hash 1 sp \<and> hash_sync {} empty_hash 1 sp \<and> entry_ref sp n = Some (TableEntry k) \<and>
    get_entry sp (TableEntry k) = Some e \<and> ie_object e = 0 \<and> ie_request e = 0 \<and> ie_bits e AND IE_BITS_COLLISION = 0 \<and>
    entry_map sp = [n \<mapsto> (0, 0, 0)]"
proof -
  obtain sp where sp: "space_init 0 = Some sp" "space_ok 1 (empty_hash, sp)" "entry_map sp = Map.empty"
    using init_ok by blast
  note o = space_okD [OF sp(2)]
  let ?n = "unat (ipc_table_entries ! 0)"
  have n: "4 \<le> ?n" using unat_entries(1) [of 0] by simp
  have "is_table sp = space_table_init ?n" using sp(1) nth_opt_entries [of 0] by (auto simp: space_init_def)
  then have "free_list (is_table sp) = [1..<?n]"
    using free_list_space_table_init [of ?n] n by simp
  then have ne: "free_list (is_table sp) \<noteq> []" using n by simp
  show ?thesis
  proof (cases rule: entry_get_correct [OF o(1)])
    case 1 then show ?thesis using ne by simp
  next
    case (2 k gen t')
    note tk = taken_keeps [OF o(1) 2(1)] and d = table_takenD [OF space_wfD(6) [OF o(1)] 2(1)]
    have "get_entry (sp\<lparr>is_table := t'\<rparr>) (TableEntry k) = Some (t' ! k)" using d(1,6) by simp
    then show ?thesis
      using sp(1,3) 2(5) tk(1,3,4) tk(6) [OF o(3)] tk(7) [OF o(3,4)] d(11-13) free_bits(2) [OF d(14)] by fastforce
  qed
qed

text \<open>C1. \<open>ipc_entry_dealloc\<close>, called as its contract requires, with an entry without object and
  request that the reverse hash tables need not be in step with, does not fail an assertion
  and removes exactly this name from the map, whether the entry is in the tree, in the table,
  or in the table with other names of the same index in the tree; the invariant of the space
  holds afterwards, the reverse hash tables are in step with every entry, and those of other
  spaces are left alone.\<close>

theorem ipc_entry_dealloc_correct:
  assumes "space_wf sp" "hash_wf g is sp" "hash_sync {name} g is sp"
    and "entry_ref sp name = Some r" "get_entry sp r = Some e" "ie_object e = 0" "ie_request e = 0"
  shows "\<exists>g' sp'. ipc_entry_dealloc is name r (g, sp) = Some (g', sp') \<and>
    space_wf sp' \<and> entry_map sp' = (entry_map sp)(name := None) \<and>
    hash_wf g' is sp' \<and> hash_sync {} g' is sp' \<and> others_kept is g g'"
  using assms by (rule entry_dealloc_correct)

theorem ipc_entry_dealloc_correct_witness:
  "\<exists>sp0 sp n k g' sp'. space_init 0 = Some sp0 \<and> ipc_entry_get sp0 = Some (Inr (n, TableEntry k), sp) \<and>
    ipc_entry_dealloc 1 n (TableEntry k) (empty_hash, sp) = Some (g', sp') \<and>
    space_wf sp' \<and> entry_map sp' = (entry_map sp)(n := None)"
proof -
  obtain sp0 sp n k e where h: "space_init 0 = Some sp0" "ipc_entry_get sp0 = Some (Inr (n, TableEntry k), sp)"
    "space_wf sp" "hash_wf empty_hash 1 sp" "hash_sync {} empty_hash 1 sp" "entry_ref sp n = Some (TableEntry k)"
    "get_entry sp (TableEntry k) = Some e" "ie_object e = 0" "ie_request e = 0"
    using init_get by blast
  have "hash_sync {n} empty_hash 1 sp" using h(5) by (simp add: hash_sync_def)
  from ipc_entry_dealloc_correct [OF h(3,4) this h(6-9)] show ?thesis using h(1,2) by blast
qed





end
