(* ===== verification/Links.thy ===== *)
theory Links
  imports Mach_Prelude
begin

text \<open>
  Doubly linked circular lists.  The kernel threads queues through fields \<open>next\<close> and \<open>prev\<close> of
  the elements; \<open>links\<close> holds these two fields of every address.  \<open>path\<close> and \<open>ring\<close> relate the
  fields to a list of addresses, and the lemmas say what the splicing of an element in or out
  does to a ring.  The locale \<open>link_queue\<close> is the contract of a queue as its users rely on it;
  kern/queue.c, the message queues and the thread queues of the IPC system provide it.
\<close>

record links =
  next_of :: "addr \<Rightarrow> addr"
  prev_of :: "addr \<Rightarrow> addr"

definition set_next :: "addr \<Rightarrow> addr \<Rightarrow> links \<Rightarrow> links" where
  "set_next a v h = h\<lparr>next_of := (next_of h)(a := v)\<rparr>"

definition set_prev :: "addr \<Rightarrow> addr \<Rightarrow> links \<Rightarrow> links" where
  "set_prev a v h = h\<lparr>prev_of := (prev_of h)(a := v)\<rparr>"

lemma links_simps [simp]:
  "next_of (set_next a v h) = (next_of h)(a := v)" "prev_of (set_next a v h) = prev_of h"
  "next_of (set_prev a v h) = next_of h" "prev_of (set_prev a v h) = (prev_of h)(a := v)"
  by (simp_all add: set_next_def set_prev_def)

subsection \<open>Paths and rings\<close>

text \<open>From \<open>a\<close> one reaches \<open>b\<close> through the elements \<open>xs\<close>, and back.\<close>

fun path :: "links \<Rightarrow> addr \<Rightarrow> addr list \<Rightarrow> addr \<Rightarrow> bool" where
  "path h a [] b \<longleftrightarrow> next_of h a = b \<and> prev_of h b = a"
| "path h a (x # xs) b \<longleftrightarrow> next_of h a = x \<and> prev_of h x = a \<and> path h x xs b"

fun ring :: "links \<Rightarrow> addr list \<Rightarrow> bool" where
  "ring h [] \<longleftrightarrow> True"
| "ring h (x # xs) \<longleftrightarrow> distinct (x # xs) \<and> path h x xs x"

lemma path_append [simp]: "path h a (xs @ y # ys) b \<longleftrightarrow> path h a xs y \<and> path h y ys b"
  by (induction xs arbitrary: a) auto

lemma path_first: "path h a xs b \<Longrightarrow> next_of h a = hd (xs @ [b])"
  by (cases xs) auto

lemma path_last: "path h a xs b \<Longrightarrow> prev_of h b = last (a # xs)"
  by (induction xs arbitrary: a) auto

lemma path_nth:
  "path h a xs b \<Longrightarrow> i < length (a # xs) \<Longrightarrow> next_of h ((a # xs) ! i) = (if i = length xs then b else xs ! i)"
proof (induction xs arbitrary: a i)
  case (Cons x xs)
  show ?case
  proof (cases i)
    case 0 then show ?thesis using Cons.prems by simp
  next
    case (Suc j)
    then show ?thesis using Cons.IH [of x j] Cons.prems by simp
  qed
qed simp

text \<open>The fields of other elements do not matter.\<close>

lemma path_cong:
  assumes "path h a xs b" "\<And>x. x \<in> set (a # xs) \<Longrightarrow> next_of h' x = next_of h x"
    "\<And>x. x \<in> set (xs @ [b]) \<Longrightarrow> prev_of h' x = prev_of h x"
  shows "path h' a xs b"
  using assms by (induction xs arbitrary: a) auto

text \<open>Giving a path a new end.\<close>

lemma path_retarget:
  assumes "path h a xs b" "distinct (a # xs)"
    and "\<And>x. x \<in> set (a # xs) \<Longrightarrow> x \<noteq> last (a # xs) \<Longrightarrow> next_of h' x = next_of h x"
    and "\<And>x. x \<in> set xs \<Longrightarrow> prev_of h' x = prev_of h x"
    and "next_of h' (last (a # xs)) = b'" "prev_of h' b' = last (a # xs)"
  shows "path h' a xs b'"
  using assms
proof (induction xs arbitrary: a)
  case (Cons x xs)
  have "a \<noteq> last (a # x # xs)" using Cons.prems(2) by (metis distinct.simps(2) last.simps last_in_set list.distinct(1))
  then have "next_of h' a = x" using Cons.prems(1) Cons.prems(3) [of a] by simp
  moreover have "prev_of h' x = a" using Cons.prems(1) Cons.prems(4) [of x] by simp
  moreover have "path h' x xs b'"
    using Cons.prems by (intro Cons.IH) simp_all
  ultimately show ?case by simp
qed simp

lemma ring_rotate: "ring h (x # xs) \<Longrightarrow> ring h (xs @ [x])"
  by (cases xs) auto

lemma ring_cong:
  assumes "ring h xs" "\<And>x. x \<in> set xs \<Longrightarrow> next_of h' x = next_of h x"
    "\<And>x. x \<in> set xs \<Longrightarrow> prev_of h' x = prev_of h x"
  shows "ring h' xs"
proof (cases xs)
  case (Cons a ys)
  have "path h a ys a" using assms(1) Cons by simp
  then have "path h' a ys a"
  proof (rule path_cong)
    fix x assume "x \<in> set (a # ys)"
    then show "next_of h' x = next_of h x" by (rule assms(2) [unfolded Cons])
  next
    fix x assume "x \<in> set (ys @ [a])"
    then have "x \<in> set xs" using Cons by auto
    then show "prev_of h' x = prev_of h x" by (rule assms(3))
  qed
  then show ?thesis using assms(1) Cons by simp
qed simp

text \<open>Inserting \<open>e\<close> before the first element, that is, at the end.\<close>

lemma ring_insert:
  assumes r: "ring h (q # xs)" and e: "e \<notin> set (q # xs)"
    and h': "next_of h' = (next_of h)(e := q, last (q # xs) := e)"
      "prev_of h' = (prev_of h)(e := last (q # xs), q := e)"
  shows "ring h' (q # xs @ [e])"
proof -
  have d: "distinct (q # xs)" "path h q xs q" using r by simp_all
  have l: "last (q # xs) \<in> set (q # xs)" by (rule last_in_set) simp
  then have le: "last (q # xs) \<noteq> e" using e by metis
  have "path h' q xs e"
    using d(2,1)
  proof (rule path_retarget)
    fix x assume "x \<in> set (q # xs)" "x \<noteq> last (q # xs)"
    then show "next_of h' x = next_of h x" using e by (auto simp: h')
  next
    fix x assume "x \<in> set xs"
    then show "prev_of h' x = prev_of h x" using e d(1) by (auto simp: h')
  next
    show "next_of h' (last (q # xs)) = e" by (simp add: h')
    show "prev_of h' e = last (q # xs)" using e by (simp add: h')
  qed
  moreover have "path h' e [] q" using le by (simp add: h')
  ultimately show ?thesis using d(1) e by auto
qed

text \<open>Taking an element other than the first one out.\<close>

lemma ring_remove:
  assumes r: "ring h (q # ys @ e # zs)"
    and h': "next_of h' = (next_of h)(prev_of h e := next_of h e)"
      "prev_of h' = (prev_of h)(next_of h e := prev_of h e)"
  shows "ring h' (q # ys @ zs)"
proof -
  have d: "distinct (q # ys @ e # zs)" and p: "path h q ys e" "path h e zs q" using r by simp_all
  have pe: "prev_of h e = last (q # ys)" using path_last [OF p(1)] .
  have ne: "next_of h e = hd (zs @ [q])" using path_first [OF p(2)] .
  have lq: "last (q # ys) \<in> set (q # ys)" by (rule last_in_set) simp
  have nn: "next_of h e \<notin> set ys"
  proof
    assume "next_of h e \<in> set ys"
    moreover have "hd (zs @ [q]) \<in> set (zs @ [q])" by (rule hd_in_set) simp
    ultimately show False using d ne by auto
  qed
  have "path h' q ys (next_of h e)"
    using p(1)
  proof (rule path_retarget)
    show "distinct (q # ys)" using d by simp
    fix x assume "x \<in> set (q # ys)" "x \<noteq> last (q # ys)"
    then show "next_of h' x = next_of h x" by (simp add: h' pe)
  next
    fix x assume "x \<in> set ys"
    then show "prev_of h' x = prev_of h x" using nn by (auto simp: h')
  qed (simp_all add: h' pe)
  moreover have "path h' z zs' q" if z: "zs = z # zs'" for z zs'
  proof -
    have p': "path h z zs' q" using p(2) z by simp
    then show ?thesis
    proof (rule path_cong)
      fix x assume "x \<in> set (z # zs')"
      then have "x \<noteq> last (q # ys)" using lq d z by auto
      then show "next_of h' x = next_of h x" by (simp add: h' pe)
    next
      fix x assume "x \<in> set (zs' @ [q])"
      then have "x \<noteq> z" using d z by auto
      then show "prev_of h' x = prev_of h x" using ne z by (simp add: h')
    qed
  qed
  ultimately have "path h' q (ys @ zs) q" using ne by (cases zs) auto
  then show ?thesis using d by auto
qed

lemma ring_single: "ring h [x] \<longleftrightarrow> next_of h x = x \<and> prev_of h x = x"
  by simp

lemma ring_next: "ring h (x # xs) \<Longrightarrow> next_of h x = hd (xs @ [x])"
  using path_first by simp

lemma ring_prev: "ring h (x # xs) \<Longrightarrow> prev_of h x = last (x # xs)"
  using path_last by simp

lemma ring_next_single: "ring h xs \<Longrightarrow> x \<in> set xs \<Longrightarrow> next_of h x = x \<longleftrightarrow> xs = [x]"
proof -
  assume r: "ring h xs" and "x \<in> set xs"
  then obtain ys zs where xs: "xs = ys @ x # zs" by (meson split_list)
  have n: "next_of h x = hd (zs @ ys @ [x])"
  proof (cases ys)
    case Nil then show ?thesis using r xs path_first by simp
  next
    case (Cons y ys')
    then have "path h x zs y" using r xs by simp
    then show ?thesis using path_first Cons by (cases zs) auto
  qed
  have "distinct xs" using r by (cases xs) auto
  then show "next_of h x = x \<longleftrightarrow> xs = [x]"
    unfolding n xs by (cases zs; cases ys) auto
qed

text \<open>The neighbours of an element of a ring are elements of it.\<close>

lemma ring_closed:
  assumes r: "ring h xs" and x: "x \<in> set xs"
  shows "next_of h x \<in> set xs" "prev_of h x \<in> set xs"
proof -
  obtain ys zs where xs: "xs = ys @ x # zs" using x by (meson split_list)
  have "ring h (x # zs @ ys)"
  proof (cases ys)
    case Nil then show ?thesis using r xs by simp
  next
    case (Cons y ys')
    then show ?thesis using r xs by auto
  qed
  then have "next_of h x = hd (zs @ ys @ [x])" "prev_of h x = last (x # zs @ ys)"
    using path_first [of h x "zs @ ys" x] path_last [of h x "zs @ ys" x] by auto
  then show "next_of h x \<in> set xs" "prev_of h x \<in> set xs"
    using xs hd_in_set [of "zs @ ys @ [x]"] last_in_set [of "x # zs @ ys"] by auto
qed

lemma ring_prev_single: "ring h xs \<Longrightarrow> x \<in> set xs \<Longrightarrow> prev_of h x = x \<longleftrightarrow> xs = [x]"
proof -
  assume r: "ring h xs" and "x \<in> set xs"
  then obtain ys zs where xs: "xs = ys @ x # zs" by (meson split_list)
  have d: "distinct xs" using r by (cases xs) auto
  have n: "prev_of h x = last (x # zs @ ys)"
  proof (cases ys)
    case Nil then show ?thesis using r xs path_last by simp
  next
    case (Cons y ys')
    then have "path h y ys' x" using r xs by simp
    then show ?thesis using path_last Cons by simp
  qed
  show "prev_of h x = x \<longleftrightarrow> xs = [x]"
  proof (cases "zs @ ys = []")
    case True then show ?thesis using n xs by simp
  next
    case False
    then have "last (zs @ ys) \<in> set (zs @ ys)" by (rule last_in_set)
    then have "prev_of h x \<noteq> x" using n xs d False by auto
    moreover have "xs \<noteq> [x]" using xs False by (cases ys) auto
    ultimately show ?thesis by blast
  qed
qed

subsection \<open>The contract of a queue\<close>

text \<open>A queue holds distinct non-null addresses in order.  \<open>loose s e\<close> says that \<open>e\<close> may be
  put on the queue, \<open>dequeue\<close> returns the null address for the empty queue.\<close>

datatype queue_op = Enqueue addr | Dequeue | Remove addr

text \<open>The specification: the queue and the set of the elements outside of it.\<close>

fun list_op :: "queue_op \<Rightarrow> addr list \<times> addr set \<Rightarrow> (addr \<times> addr list \<times> addr set) option" where
  "list_op (Enqueue e) (xs, L) = (if e \<in> L then Some (0, xs @ [e], L - {e}) else None)"
| "list_op Dequeue ([], L) = Some (0, [], L)"
| "list_op Dequeue (x # xs, L) = Some (x, xs, insert x L)"
| "list_op (Remove e) (xs, L) = (if e \<in> set xs then Some (0, remove1 e xs, insert e L) else None)"

locale link_queue =
  fixes repr :: "'s \<Rightarrow> addr list \<Rightarrow> bool"
    and loose :: "'s \<Rightarrow> addr \<Rightarrow> bool"
    and enq :: "addr \<Rightarrow> 's \<Rightarrow> 's option"
    and deq :: "'s \<Rightarrow> (addr \<times> 's) option"
    and rmq :: "addr \<Rightarrow> 's \<Rightarrow> 's option"
  assumes repr_distinct: "repr s xs \<Longrightarrow> distinct xs \<and> 0 \<notin> set xs"
    and enq: "repr s xs \<Longrightarrow> loose s e \<Longrightarrow> e \<noteq> 0 \<Longrightarrow> e \<notin> set xs \<Longrightarrow>
      \<exists>s'. enq e s = Some s' \<and> repr s' (xs @ [e]) \<and> (\<forall>x. x \<notin> set (e # xs) \<longrightarrow> loose s x \<longrightarrow> loose s' x)"
    and deq_empty: "repr s [] \<Longrightarrow> deq s = Some (0, s)"
    and deq: "repr s (x # xs) \<Longrightarrow>
      \<exists>s'. deq s = Some (x, s') \<and> repr s' xs \<and> loose s' x \<and> (\<forall>y. y \<notin> set (x # xs) \<longrightarrow> loose s y \<longrightarrow> loose s' y)"
    and rmq: "repr s xs \<Longrightarrow> x \<in> set xs \<Longrightarrow>
      \<exists>s'. rmq x s = Some s' \<and> repr s' (remove1 x xs) \<and> loose s' x \<and>
        (\<forall>y. y \<notin> set xs \<longrightarrow> loose s y \<longrightarrow> loose s' y)"
begin

fun link_op :: "queue_op \<Rightarrow> 's \<Rightarrow> (addr \<times> 's) option" where
  "link_op (Enqueue e) s = map_option (\<lambda>s'. (0, s')) (enq e s)"
| "link_op Dequeue s = deq s"
| "link_op (Remove e) s = map_option (\<lambda>s'. (0, s')) (rmq e s)"

definition simulates :: "'s \<Rightarrow> addr list \<times> addr set \<Rightarrow> bool" where
  "simulates s a \<longleftrightarrow> repr s (fst a) \<and> (\<forall>e\<in>snd a. loose s e \<and> e \<noteq> 0 \<and> e \<notin> set (fst a))"

lemma link_op_step:
  assumes "simulates s a" "list_op x a = Some (y, a')"
  shows "\<exists>s'. link_op x s = Some (y, s') \<and> simulates s' a'"
proof -
  obtain xs L where a: "a = (xs, L)" by (cases a)
  have r: "repr s xs" and L: "loose s e \<and> e \<noteq> 0 \<and> e \<notin> set xs" if "e \<in> L" for e
    using assms(1) that by (simp_all add: simulates_def a)
  have r: "repr s xs" using assms(1) by (simp add: simulates_def a)
  note d = repr_distinct [OF r]
  show ?thesis
  proof (cases x)
    case (Enqueue e)
    then have e: "e \<in> L" "y = 0" "a' = (xs @ [e], L - {e})" using assms(2) by (auto simp: a split: if_splits)
    then obtain s' where "enq e s = Some s'" "repr s' (xs @ [e])"
        "\<forall>x. x \<notin> set (e # xs) \<longrightarrow> loose s x \<longrightarrow> loose s' x"
      using enq [OF r] L by blast
    then show ?thesis using e L Enqueue by (auto simp: simulates_def)
  next
    case Dequeue
    show ?thesis
    proof (cases xs)
      case Nil
      then show ?thesis using assms r Dequeue by (auto simp: a deq_empty)
    next
      case (Cons z zs)
      then have e: "y = z" "a' = (zs, insert z L)" using assms(2) Dequeue by (auto simp: a)
      obtain s' where "deq s = Some (z, s')" "repr s' zs" "loose s' z"
          "\<forall>y. y \<notin> set (z # zs) \<longrightarrow> loose s y \<longrightarrow> loose s' y"
        using deq r unfolding Cons by blast
      then show ?thesis using e L d Cons Dequeue by (auto simp: simulates_def)
    qed
  next
    case (Remove e)
    then have e: "e \<in> set xs" "y = 0" "a' = (remove1 e xs, insert e L)"
      using assms(2) by (auto simp: a split: if_splits)
    then obtain s' where "rmq e s = Some s'" "repr s' (remove1 e xs)" "loose s' e"
        "\<forall>y. y \<notin> set xs \<longrightarrow> loose s y \<longrightarrow> loose s' y"
      using rmq [OF r] by blast
    then show ?thesis using e L d Remove by (auto simp: simulates_def)
  qed
qed

text \<open>Every sequence of operations gives the results of the specification.\<close>

lemma link_ops_refine:
  assumes "repr s xs" "\<forall>e\<in>L. loose s e \<and> e \<noteq> 0 \<and> e \<notin> set xs"
    and "run_ops list_op ops (xs, L) = Some (outs, xs', L')"
  shows "\<exists>s'. run_ops link_op ops s = Some (outs, s') \<and> repr s' xs'"
proof -
  have "simulates s (xs, L)" using assms(1,2) by (simp add: simulates_def)
  with link_op_step assms(3) obtain s' where "run_ops link_op ops s = Some (outs, s')" "simulates s' (xs', L')"
    using run_ops_simulation [of simulates list_op link_op s "(xs, L)" ops outs "(xs', L')"] by blast
  then show ?thesis by (simp add: simulates_def) 
qed

end

end
