(* ===== verification/Kern_Queue.thy ===== *)
theory Kern_Queue
  imports Links
begin

text \<open>
  The queue package of kern/queue.c and kern/queue.h: the functions on \<open>queue_entry\<close> and the
  macros on structures that contain a chain field.

  \<^bold>\<open>Macros.\<close> The links of a queue head are at the head itself, those of an element in its chain
  field, so that the macros distinguish the two by comparing with the head.  \<open>queue_mem\<close> holds
  the links of the heads and the chain fields of the elements.
\<close>

subsection \<open>kern/queue.c\<close>

definition enqueue_head :: "addr \<Rightarrow> addr \<Rightarrow> links \<Rightarrow> links" where
  "enqueue_head que elt h =
     (let h = set_next elt (next_of h que) h;
          h = set_prev elt que h;
          h = set_prev (next_of h elt) elt h
      in set_next que elt h)"

definition enqueue_tail :: "addr \<Rightarrow> addr \<Rightarrow> links \<Rightarrow> links" where
  "enqueue_tail que elt h =
     (let h = set_next elt que h;
          h = set_prev elt (prev_of h que) h;
          h = set_next (prev_of h elt) elt h
      in set_prev que elt h)"

definition dequeue_head :: "addr \<Rightarrow> links \<Rightarrow> addr \<times> links" where
  "dequeue_head que h =
     (if next_of h que = que then (0, h)
      else
        let elt = next_of h que;
            h = set_prev (next_of h elt) que h
        in (elt, set_next que (next_of h elt) h))"

definition dequeue_tail :: "addr \<Rightarrow> links \<Rightarrow> addr \<times> links" where
  "dequeue_tail que h =
     (if prev_of h que = que then (0, h)
      else
        let elt = prev_of h que;
            h = set_next (prev_of h elt) que h
        in (elt, set_prev que (prev_of h elt) h))"

definition remqueue :: "addr \<Rightarrow> addr \<Rightarrow> links \<Rightarrow> links" where
  "remqueue que elt h =
     (let h = set_prev (next_of h elt) (prev_of h elt) h
      in set_next (prev_of h elt) (next_of h elt) h)"

definition insque :: "addr \<Rightarrow> addr \<Rightarrow> links \<Rightarrow> links" where
  "insque entry pred h =
     (let h = set_next entry (next_of h pred) h;
          h = set_prev entry pred h;
          h = set_prev (next_of h pred) entry h
      in set_next pred entry h)"

definition remque :: "addr \<Rightarrow> links \<Rightarrow> addr \<times> links" where
  "remque elt h =
     (let h = set_prev (next_of h elt) (prev_of h elt) h
      in (elt, set_next (prev_of h elt) (next_of h elt) h))"

subsection \<open>kern/queue.h\<close>

record queue_mem =
  heads :: links
  chain :: links

definition queue_init :: "addr \<Rightarrow> queue_mem \<Rightarrow> queue_mem" where
  "queue_init q m = m\<lparr>heads := set_next q q (set_prev q q (heads m))\<rparr>"

definition queue_first :: "queue_mem \<Rightarrow> addr \<Rightarrow> addr" where
  "queue_first m q = next_of (heads m) q"

definition queue_last :: "queue_mem \<Rightarrow> addr \<Rightarrow> addr" where
  "queue_last m q = prev_of (heads m) q"

definition queue_end :: "addr \<Rightarrow> addr \<Rightarrow> bool" where
  "queue_end q qe \<longleftrightarrow> q = qe"

definition queue_empty :: "queue_mem \<Rightarrow> addr \<Rightarrow> bool" where
  "queue_empty m q \<longleftrightarrow> queue_end q (queue_first m q)"










subsection \<open>Correctness of the functions\<close>

lemma enqueue_tail_ring:
  assumes "ring h (q # xs)" "e \<notin> set (q # xs)"
  shows "ring (enqueue_tail q e h) (q # xs @ [e])"
  using assms
proof (rule ring_insert)
  have "prev_of h q = last (q # xs)" using ring_prev [OF assms(1)] .
  moreover have "e \<noteq> q" using assms(2) by simp
  ultimately show "next_of (enqueue_tail q e h) = (next_of h)(e := q, last (q # xs) := e)"
    "prev_of (enqueue_tail q e h) = (prev_of h)(e := last (q # xs), q := e)"
    by (simp_all add: enqueue_tail_def Let_def)
qed

lemma enqueue_head_ring:
  assumes "ring h (q # xs)" "e \<notin> set (q # xs)"
  shows "ring (enqueue_head q e h) (q # e # xs)"
proof (cases xs)
  case Nil
  then show ?thesis using assms by (simp add: enqueue_head_def Let_def)
next
  case (Cons x ys)
  have "ring h (x # ys @ [q])" using ring_rotate [of h q xs] assms(1) Cons by simp
  then have "ring (enqueue_head q e h) (x # (ys @ [q]) @ [e])"
  proof (rule ring_insert)
    show "e \<notin> set (x # ys @ [q])" using assms(2) Cons by auto
    have n: "next_of h q = x" using assms(1) Cons by simp
    have "e \<noteq> q" using assms(2) by simp
    then show "next_of (enqueue_head q e h) = (next_of h)(e := x, last (x # ys @ [q]) := e)"
      "prev_of (enqueue_head q e h) = (prev_of h)(e := last (x # ys @ [q]), x := e)"
      using n by (simp_all add: enqueue_head_def Let_def)
  qed
  then have "path (enqueue_head q e h) x (ys @ q # [e]) x" "distinct (q # e # x # ys)"
    using assms Cons by auto
  then show ?thesis using Cons by auto
qed

lemma remqueue_ring:
  assumes "ring h (q # ys @ e # zs)" shows "ring (remqueue q e h) (q # ys @ zs)"
  using assms
proof (rule ring_remove)
  have "next_of h e \<noteq> e" "prev_of h e \<noteq> e"
    using ring_next_single [OF assms, of e] ring_prev_single [OF assms, of e] by simp_all
  then show "next_of (remqueue q e h) = (next_of h)(prev_of h e := next_of h e)"
    "prev_of (remqueue q e h) = (prev_of h)(next_of h e := prev_of h e)"
    by (simp_all add: remqueue_def Let_def)
qed

lemma dequeue_head_ring:
  assumes "ring h (q # x # xs)"
  shows "dequeue_head q h = (x, remqueue q x h)"
proof -
  have n: "next_of h q = x" "prev_of h x = q" "x \<noteq> q" using assms by auto
  have "next_of h x \<noteq> x" using ring_next_single [OF assms, of x] by simp
  then show ?thesis using n by (simp add: dequeue_head_def remqueue_def Let_def)
qed

lemma dequeue_tail_ring:
  assumes "ring h (q # xs @ [x])"
  shows "dequeue_tail q h = (x, remqueue q x h)"
proof -
  have n: "next_of h x = q" "prev_of h q = x" "x \<noteq> q" using assms by auto
  have "prev_of h x \<noteq> x" using ring_prev_single [OF assms, of x] by simp
  then show ?thesis using n by (simp add: dequeue_tail_def remqueue_def Let_def set_next_def set_prev_def)
qed

interpretation kq: link_queue "\<lambda>h xs. ring h (q # xs) \<and> 0 \<notin> set xs" "\<lambda>h e. e \<noteq> q"
  "\<lambda>e h. Some (enqueue_tail q e h)" "\<lambda>h. Some (dequeue_head q h)" "\<lambda>e h. Some (remqueue q e h)"
  for q
proof unfold_locales
  fix h xs e
  assume r: "ring h (q # xs) \<and> 0 \<notin> set xs" and "e \<noteq> q" "e \<noteq> 0" "e \<notin> set xs"
  then show "\<exists>s'. Some (enqueue_tail q e h) = Some s' \<and> (ring s' (q # xs @ [e]) \<and> 0 \<notin> set (xs @ [e])) \<and>
      (\<forall>x. x \<notin> set (e # xs) \<longrightarrow> x \<noteq> q \<longrightarrow> x \<noteq> q)"
    using enqueue_tail_ring [of h q xs e] by auto
next
  fix h x xs
  assume r: "ring h (q # x # xs) \<and> 0 \<notin> set (x # xs)"
  then show "\<exists>s'. Some (dequeue_head q h) = Some (x, s') \<and> (ring s' (q # xs) \<and> 0 \<notin> set xs) \<and> x \<noteq> q \<and>
      (\<forall>y. y \<notin> set (x # xs) \<longrightarrow> y \<noteq> q \<longrightarrow> y \<noteq> q)"
    using dequeue_head_ring [of h q x xs] remqueue_ring [of h q "[]" x xs] by auto
next
  fix h xs x
  assume r: "ring h (q # xs) \<and> 0 \<notin> set xs" and "x \<in> set xs"
  then obtain ys zs where xs: "xs = ys @ x # zs" by (meson split_list)
  have "ring (remqueue q x h) (q # ys @ zs)" using remqueue_ring r xs by simp
  moreover have "remove1 x xs = ys @ zs" using r xs by (simp add: remove1_append)
  ultimately show "\<exists>s'. Some (remqueue q x h) = Some s' \<and> (ring s' (q # remove1 x xs) \<and> 0 \<notin> set (remove1 x xs)) \<and>
      x \<noteq> q \<and> (\<forall>y. y \<notin> set xs \<longrightarrow> y \<noteq> q \<longrightarrow> y \<noteq> q)"
    using r xs by auto
qed (auto simp: dequeue_head_def)


subsection \<open>The macros compute the functions\<close>

text \<open>The links of a queue as the macros see them: the head's own and the chain fields.\<close>

definition queue_view :: "addr \<Rightarrow> queue_mem \<Rightarrow> links" where
  "queue_view q m =
     \<lparr>next_of = (next_of (chain m))(q := next_of (heads m) q),
      prev_of = (prev_of (chain m))(q := prev_of (heads m) q)\<rparr>"

lemma queue_view_simps [simp]:
  "next_of (queue_view q m) = (next_of (chain m))(q := next_of (heads m) q)"
  "prev_of (queue_view q m) = (prev_of (chain m))(q := prev_of (heads m) q)"
  by (simp_all add: queue_view_def)










subsection \<open>Properties\<close>

text \<open>The operations that take from the head and put at the tail, as steps.\<close>

fun kern_queue_op :: "addr \<Rightarrow> queue_op \<Rightarrow> links \<Rightarrow> (addr \<times> links) option" where
  "kern_queue_op q (Enqueue e) h = Some (0, enqueue_tail q e h)"
| "kern_queue_op q Dequeue h = Some (dequeue_head q h)"
| "kern_queue_op q (Remove e) h = Some (0, remqueue q e h)"

lemma kern_queue_op_eq: "kern_queue_op q = kq.link_op q"
proof (intro ext)
  fix x h show "kern_queue_op q x h = kq.link_op q x h" by (cases x) simp_all
qed

text \<open>C17. The queue functions of kern/queue.c implement lists: every sequence of \<open>enqueue\<close>,
  \<open>dequeue\<close> and \<open>remqueue\<close> that the list specification allows, started on an initialised head,
  returns what the specification returns, and leaves the links of exactly the elements that
  remain, in their order, forwards and backwards.\<close>

theorem kern_queue_refines_list:
  assumes "run_ops list_op ops ([], L) = Some (outs, xs, L')" "0 \<notin> L" "q \<notin> L"
    and "next_of h q = q" "prev_of h q = q"
  shows "\<exists>h'. run_ops (kern_queue_op q) ops h = Some (outs, h') \<and> ring h' (q # xs)"
proof -
  have "ring h (q # []) \<and> (0 :: addr) \<notin> set []" using assms(4,5) by simp
  moreover have "\<forall>e\<in>L. e \<noteq> q \<and> e \<noteq> 0 \<and> e \<notin> set []" using assms(2,3) by auto
  ultimately show ?thesis using kq.link_ops_refine [of h q "[]" L, OF _ _ assms(1)] unfolding kern_queue_op_eq by blast
qed

theorem kern_queue_refines_list_witness:
  "\<exists>h'. run_ops (kern_queue_op 8) [Enqueue 16, Enqueue 32, Enqueue 48, Remove 32, Dequeue, Enqueue 32, Dequeue]
      \<lparr>next_of = (\<lambda>_. 8), prev_of = (\<lambda>_. 8)\<rparr> = Some ([0, 0, 0, 0, 16, 0, 48], h') \<and> ring h' [8, 32]"
  by (rule kern_queue_refines_list [where L = "{16, 32, 48}" and L' = "{48, 16}"]) auto

text \<open>C18. The remaining functions: \<open>enqueue_head\<close> puts an element at the front, \<open>dequeue_tail\<close>
  takes the last one, \<open>insque\<close> inserts behind any element of the queue, and \<open>remque\<close> takes any
  element out.\<close>

theorem kern_queue_ends:
  assumes "ring h (q # ys @ p # zs)" "e \<notin> set (q # ys @ p # zs)"
  shows "ring (enqueue_head q e h) (q # e # ys @ p # zs) \<and>
    fst (dequeue_tail q h) = last (p # zs) \<and> ring (snd (dequeue_tail q h)) (q # butlast (ys @ p # zs)) \<and>
    ring (insque e p h) (q # ys @ p # e # zs) \<and>
    fst (remque p h) = p \<and> ring (snd (remque p h)) (q # ys @ zs)"
proof (intro conjI)
  show "ring (enqueue_head q e h) (q # e # ys @ p # zs)" using enqueue_head_ring assms by blast
  have l: "ys @ p # zs = butlast (ys @ p # zs) @ [last (p # zs)]"
    by (metis append_butlast_last_id append_is_Nil_conv last_appendR list.distinct(1))
  have "ring h (q # butlast (ys @ p # zs) @ [last (p # zs)])" using assms(1) l by simp
  then show "fst (dequeue_tail q h) = last (p # zs)" "ring (snd (dequeue_tail q h)) (q # butlast (ys @ p # zs))"
    using dequeue_tail_ring [of h q "butlast (ys @ p # zs)" "last (p # zs)"]
      remqueue_ring [of h q "butlast (ys @ p # zs)" "last (p # zs)" "[]"] by simp_all
  have "remque p h = (p, remqueue q p h)" by (simp add: remque_def remqueue_def Let_def)
  then show "fst (remque p h) = p" "ring (snd (remque p h)) (q # ys @ zs)"
    using remqueue_ring [OF assms(1)] by simp_all
  have "path h p (zs @ q # ys) p" "distinct (p # zs @ q # ys)" using assms(1) by auto
  then have "ring (enqueue_head p e h) (p # e # zs @ q # ys)"
    using assms(2) by (intro enqueue_head_ring) auto
  moreover have "insque e p h = enqueue_head p e h"
    using assms(2) by (auto simp: insque_def enqueue_head_def Let_def)
  ultimately show "ring (insque e p h) (q # ys @ p # e # zs)" by auto
qed

text \<open>The ring of three elements that the witnesses use.\<close>

definition three_ring :: links where
  "three_ring = \<lparr>next_of = id(8 := 16, 16 := 32, 32 := 8), prev_of = id(8 := 32, 16 := 8, 32 := 16)\<rparr>"

lemma three_ring_ring: "ring three_ring [8, 16, 32]"
  by (simp add: three_ring_def)

theorem kern_queue_ends_witness:
  "ring (enqueue_head 8 48 three_ring) [8, 48, 16, 32] \<and>
   fst (dequeue_tail 8 three_ring) = 32 \<and> ring (snd (dequeue_tail 8 three_ring)) [8, 16] \<and>
   ring (insque 48 16 three_ring) [8, 16, 48, 32] \<and>
   fst (remque 16 three_ring) = 16 \<and> ring (snd (remque 16 three_ring)) [8, 32]"
  using kern_queue_ends [of three_ring 8 "[]" 16 "[32]" 48] three_ring_ring by simp



end
