(* ===== verification/Ipc_Queue.thy ===== *)
theory Ipc_Queue
  imports Links
begin

text \<open>
  The queues of messages (ipc/ipc_kmsg.c, ipc/ipc_kmsg.h) and of threads (ipc/ipc_thread.c,
  ipc/ipc_thread.h) of the IPC system: a base pointer, which is null when the queue is empty
  and otherwise points to the first element, and a circular list through the elements without
  a head.  A queue is the pair of its base and the links of the elements.
\<close>

type_synonym link_base = "addr \<times> links"

subsection \<open>Message queues\<close>

definition ipc_kmsg_queue_init :: "links \<Rightarrow> link_base" where
  "ipc_kmsg_queue_init h = (0, h)"

definition ipc_kmsg_queue_empty :: "link_base \<Rightarrow> bool" where
  "ipc_kmsg_queue_empty queue \<longleftrightarrow> fst queue = 0"

definition ipc_kmsg_queue_first :: "link_base \<Rightarrow> addr" where
  "ipc_kmsg_queue_first queue = fst queue"

definition ipc_kmsg_enqueue_macro :: "addr \<Rightarrow> link_base \<Rightarrow> link_base" where
  "ipc_kmsg_enqueue_macro kmsg queue =
     (let (ikmq_base, h) = queue; first = ikmq_base in
      if first = 0 then
        let h = set_next kmsg kmsg h in (kmsg, set_prev kmsg kmsg h)
      else
        let lst = prev_of h first;
            h = set_next kmsg first h;
            h = set_prev kmsg lst h;
            h = set_prev first kmsg h
        in (ikmq_base, set_next lst kmsg h))"

definition ipc_kmsg_enqueue :: "addr \<Rightarrow> link_base \<Rightarrow> link_base" where
  "ipc_kmsg_enqueue kmsg queue = ipc_kmsg_enqueue_macro kmsg queue"

definition ipc_kmsg_rmqueue_first_macro :: "addr \<Rightarrow> link_base \<Rightarrow> link_base option" where
  "ipc_kmsg_rmqueue_first_macro kmsg queue =
     do {
       let (ikmq_base, h) = queue;
       kassert (ikmq_base = kmsg);
       let nxt = next_of h kmsg;
       if nxt = kmsg then do { kassert (prev_of h kmsg = kmsg); Some (0, h) }
       else
         do {
           let prv = prev_of h kmsg;
           let h = set_prev nxt prv h;
           Some (nxt, set_next prv nxt h)
         }
     }"

definition ipc_kmsg_dequeue :: "link_base \<Rightarrow> (addr \<times> link_base) option" where
  "ipc_kmsg_dequeue queue =
     do {
       let first = ipc_kmsg_queue_first queue;
       queue \<leftarrow> (if first \<noteq> 0 then ipc_kmsg_rmqueue_first_macro first queue else Some queue);
       Some (first, queue)
     }"

definition ipc_kmsg_rmqueue :: "addr \<Rightarrow> link_base \<Rightarrow> link_base option" where
  "ipc_kmsg_rmqueue kmsg queue =
     do {
       let (ikmq_base, h) = queue;
       kassert (ikmq_base \<noteq> 0);
       let nxt = next_of h kmsg;
       let prv = prev_of h kmsg;
       if nxt = kmsg then
         do { kassert (prv = kmsg); kassert (ikmq_base = kmsg); Some (0, h) }
       else
         do {
           let ikmq_base = (if ikmq_base = kmsg then nxt else ikmq_base);
           let h = set_prev nxt prv h;
           Some (ikmq_base, set_next prv nxt h)
         }
     }"

definition ipc_kmsg_queue_next :: "link_base \<Rightarrow> addr \<Rightarrow> addr option" where
  "ipc_kmsg_queue_next queue kmsg =
     do {
       kassert (fst queue \<noteq> 0);
       let nxt = next_of (snd queue) kmsg;
       Some (if fst queue = nxt then 0 else nxt)
     }"

subsection \<open>Thread queues\<close>

definition ipc_thread_links_init :: "addr \<Rightarrow> links \<Rightarrow> links" where
  "ipc_thread_links_init thread h = (let h = set_next thread thread h in set_prev thread thread h)"

definition ipc_thread_queue_init :: "links \<Rightarrow> link_base" where
  "ipc_thread_queue_init h = (0, h)"

definition ipc_thread_queue_empty :: "link_base \<Rightarrow> bool" where
  "ipc_thread_queue_empty queue \<longleftrightarrow> fst queue = 0"

definition ipc_thread_queue_first :: "link_base \<Rightarrow> addr" where
  "ipc_thread_queue_first queue = fst queue"

definition ipc_thread_enqueue_macro :: "addr \<Rightarrow> link_base \<Rightarrow> link_base option" where
  "ipc_thread_enqueue_macro thread queue =
     do {
       let (ithq_base, h) = queue;
       let first = ithq_base;
       if first = 0 then
         do {
           kassert (next_of h thread = thread);
           kassert (prev_of h thread = thread);
           Some (thread, h)
         }
       else
         do {
           let lst = prev_of h first;
           let h = set_next thread first h;
           let h = set_prev thread lst h;
           let h = set_prev first thread h;
           Some (ithq_base, set_next lst thread h)
         }
     }"

definition ipc_thread_enqueue :: "addr \<Rightarrow> link_base \<Rightarrow> link_base option" where
  "ipc_thread_enqueue thread queue = ipc_thread_enqueue_macro thread queue"

definition ipc_thread_rmqueue_first_macro :: "addr \<Rightarrow> link_base \<Rightarrow> link_base option" where
  "ipc_thread_rmqueue_first_macro thread queue =
     do {
       let (ithq_base, h) = queue;
       kassert (ithq_base = thread);
       let nxt = next_of h thread;
       if nxt = thread then do { kassert (prev_of h thread = thread); Some (0, h) }
       else
         do {
           let prv = prev_of h thread;
           let h = set_prev nxt prv h;
           let h = set_next prv nxt h;
           Some (nxt, ipc_thread_links_init thread h)
         }
     }"

definition ipc_thread_dequeue :: "link_base \<Rightarrow> (addr \<times> link_base) option" where
  "ipc_thread_dequeue queue =
     do {
       let first = ipc_thread_queue_first queue;
       queue \<leftarrow> (if first \<noteq> 0 then ipc_thread_rmqueue_first_macro first queue else Some queue);
       Some (first, queue)
     }"

definition ipc_thread_rmqueue :: "addr \<Rightarrow> link_base \<Rightarrow> link_base option" where
  "ipc_thread_rmqueue thread queue =
     do {
       let (ithq_base, h) = queue;
       kassert (ithq_base \<noteq> 0);
       let nxt = next_of h thread;
       let prv = prev_of h thread;
       if nxt = thread then
         do { kassert (prv = thread); kassert (ithq_base = thread); Some (0, h) }
       else
         do {
           let ithq_base = (if ithq_base = thread then nxt else ithq_base);
           let h = set_prev nxt prv h;
           let h = set_next prv nxt h;
           Some (ithq_base, ipc_thread_links_init thread h)
         }
     }"

subsection \<open>Representation\<close>

definition base_repr :: "link_base \<Rightarrow> addr list \<Rightarrow> bool" where
  "base_repr queue xs \<longleftrightarrow> 0 \<notin> set xs \<and> ring (snd queue) xs \<and> fst queue = (if xs = [] then 0 else hd xs)"

lemma base_repr_simps:
  "base_repr (b, h) [] \<longleftrightarrow> b = 0"
  "base_repr (b, h) (x # xs) \<longleftrightarrow> b = x \<and> 0 \<notin> set (x # xs) \<and> ring h (x # xs)"
  by (auto simp: base_repr_def)

lemma base_repr_empty: "base_repr queue [] \<longleftrightarrow> fst queue = 0"
  by (simp add: base_repr_def)

lemma base_repr_distinct: "base_repr queue xs \<Longrightarrow> distinct xs \<and> 0 \<notin> set xs"
  by (cases xs) (auto simp: base_repr_def)

text \<open>Putting an element at the end, behind the last one and before the first one.\<close>

lemma base_insert:
  assumes "base_repr (b, h) (x # xs)" "e \<noteq> 0" "e \<notin> set (x # xs)"
    and "next_of h' = (next_of h)(e := x, prev_of h x := e)" "prev_of h' = (prev_of h)(e := prev_of h x, x := e)"
  shows "base_repr (b, h') (x # xs @ [e])"
proof -
  have r: "ring h (x # xs)" using assms(1) by (simp only: base_repr_simps)
  have "prev_of h x = last (x # xs)" using ring_prev [OF r] .
  then have "ring h' (x # xs @ [e])" using ring_insert [OF r assms(3)] assms(4,5) by simp
  then show ?thesis using assms(1-3) by (auto simp: base_repr_simps)
qed

text \<open>Taking any element out of a queue of at least two.\<close>

lemma base_remove:
  assumes "base_repr (b, h) xs" "e \<in> set xs" "next_of h e \<noteq> e"
    and "next_of h' = (next_of h)(prev_of h e := next_of h e)" "prev_of h' = (prev_of h)(next_of h e := prev_of h e)"
  shows "base_repr (if b = e then next_of h e else b, h') (remove1 e xs)"
proof -
  obtain x ys where xs: "xs = x # ys" using assms(2) by (cases xs) auto
  have r: "ring h (x # ys)" "b = x" "0 \<notin> set (x # ys)" using assms(1) unfolding xs base_repr_simps by blast+
  show ?thesis
  proof (cases "e = x")
    case True
    have "ys \<noteq> []" using assms(3) r(1) True by auto
    then obtain y zs where ys: "ys = y # zs" by (cases ys) auto
    have n: "next_of h e = y" using r(1) True ys by simp
    have "ring h (y # zs @ x # [])" using ring_rotate [OF r(1)] ys by simp
    then have "ring h (y # zs @ e # [])" unfolding True .
    then have "ring h' (y # zs @ [])" by (rule ring_remove) (rule assms(4), rule assms(5))
    then show ?thesis using True xs ys n r by (simp add: base_repr_simps)
  next
    case False
    then have "e \<in> set ys" using assms(2) xs by simp
    then obtain as bs where ys: "ys = as @ e # bs" by (meson split_list)
    have "ring h (x # as @ e # bs)" using r(1) unfolding ys .
    then have "ring h' (x # as @ bs)" by (rule ring_remove) (rule assms(4), rule assms(5))
    moreover have "remove1 e xs = x # as @ bs" using False xs ys r(1) by (simp add: remove1_append)
    ultimately show ?thesis using False r ys by (auto simp: base_repr_simps)
  qed
qed

lemma base_single:
  assumes "base_repr (b, h) xs" "e \<in> set xs"
  shows "next_of h e = e \<longleftrightarrow> xs = [e]" "prev_of h e = e \<longleftrightarrow> xs = [e]" "b \<noteq> 0"
proof -
  have "ring h xs" using assms(1) by (simp add: base_repr_def)
  then show "next_of h e = e \<longleftrightarrow> xs = [e]" "prev_of h e = e \<longleftrightarrow> xs = [e]"
    using ring_next_single ring_prev_single assms(2) by blast+
  show "b \<noteq> 0" using assms by (auto simp: base_repr_def split: if_splits dest: hd_in_set)
qed

lemma kmsg_rmqueue_correct:
  assumes "base_repr queue xs" "e \<in> set xs"
  shows "\<exists>queue'. ipc_kmsg_rmqueue e queue = Some queue' \<and> base_repr queue' (remove1 e xs)"
proof -
  obtain b h where q: "queue = (b, h)" by (cases queue)
  note s = base_single [OF assms(1) [unfolded q] assms(2)]
  show ?thesis
  proof (cases "next_of h e = e")
    case True
    then have "xs = [e]" using s(1) by blast
    then show ?thesis
      using assms(1) s True by (auto simp: q ipc_kmsg_rmqueue_def Let_def base_repr_simps)
  next
    case False
    have "prev_of h e \<noteq> e" using False s(1,2) by blast
    have "base_repr (if b = e then next_of h e else b, set_next (prev_of h e) (next_of h e) (set_prev (next_of h e) (prev_of h e) h))
        (remove1 e xs)"
      using base_remove [OF assms(1) [unfolded q] assms(2) False] by simp
    then show ?thesis using s(3) False by (simp add: q ipc_kmsg_rmqueue_def Let_def)
  qed
qed

lemma kmsg_rmqueue_first_eq:
  assumes "base_repr queue (x # xs)"
  shows "ipc_kmsg_rmqueue_first_macro x queue = ipc_kmsg_rmqueue x queue"
proof -
  obtain b h where q: "queue = (b, h)" by (cases queue)
  have "b = x" "b \<noteq> 0" using assms by (auto simp: q base_repr_def)
  then show ?thesis by (simp add: q ipc_kmsg_rmqueue_first_macro_def ipc_kmsg_rmqueue_def Let_def)
qed

lemma kmsg_enqueue_correct:
  assumes "base_repr queue xs" "e \<noteq> 0" "e \<notin> set xs"
  shows "base_repr (ipc_kmsg_enqueue e queue) (xs @ [e])"
proof -
  obtain b h where q: "queue = (b, h)" by (cases queue)
  show ?thesis
  proof (cases xs)
    case Nil
    then show ?thesis using assms by (simp add: q ipc_kmsg_enqueue_def ipc_kmsg_enqueue_macro_def Let_def base_repr_simps)
  next
    case (Cons x ys)
    have r: "base_repr (b, h) (x # ys)" using assms(1) q Cons by simp
    then have b: "b = x" "x \<noteq> 0" by (auto simp: base_repr_simps)
    have ex: "e \<noteq> x" "e \<notin> set (x # ys)" using assms(3) Cons by simp_all
    have "prev_of h x \<noteq> e"
    proof -
      have "prev_of h x = last (x # ys)" using ring_prev r by (simp only: base_repr_simps)
      then show ?thesis using last_in_set [of "x # ys"] ex(2) by (metis list.distinct(1))
    qed
    then have "base_repr (ipc_kmsg_enqueue e (b, h)) (x # ys @ [e])"
      using base_insert [OF r assms(2) ex(2)] b ex(1) by (simp add: ipc_kmsg_enqueue_def ipc_kmsg_enqueue_macro_def Let_def fun_upd_twist)
    then show ?thesis using Cons q by simp
  qed
qed

interpretation kmsgq: link_queue base_repr "\<lambda>_ _. True"
  "\<lambda>e s. Some (ipc_kmsg_enqueue e s)" ipc_kmsg_dequeue ipc_kmsg_rmqueue
proof unfold_locales
  fix s x xs assume r: "base_repr s (x # xs)"
  have "fst s = x" "x \<noteq> 0" using r by (auto simp: base_repr_def)
  then show "\<exists>s'. ipc_kmsg_dequeue s = Some (x, s') \<and> base_repr s' xs \<and> True \<and> (\<forall>y. y \<notin> set (x # xs) \<longrightarrow> True \<longrightarrow> True)"
    using kmsg_rmqueue_correct [OF r, of x] kmsg_rmqueue_first_eq [OF r]
    by (auto simp: ipc_kmsg_dequeue_def ipc_kmsg_queue_first_def)
qed (use base_repr_distinct kmsg_enqueue_correct kmsg_rmqueue_correct in
    \<open>auto simp: ipc_kmsg_dequeue_def ipc_kmsg_queue_first_def base_repr_empty\<close>)

text \<open>The thread operations are the message operations that also keep the links of a thread
  outside of every queue pointing to the thread itself.\<close>

definition unlinked :: "link_base \<Rightarrow> addr \<Rightarrow> bool" where
  "unlinked queue thread \<longleftrightarrow> next_of (snd queue) thread = thread \<and> prev_of (snd queue) thread = thread"

lemma links_init_id [simp]:
  "next_of h e = e \<Longrightarrow> prev_of h e = e \<Longrightarrow> ipc_thread_links_init e h = h"
  by (cases h) (simp add: ipc_thread_links_init_def set_next_def set_prev_def fun_upd_idem)

lemma unlinked_links_init:
  "unlinked (b, ipc_thread_links_init e h) e"
  "unlinked (b, h) x \<Longrightarrow> unlinked (b', ipc_thread_links_init e h) x"
  by (auto simp: unlinked_def ipc_thread_links_init_def)

lemma base_repr_links_init:
  assumes "base_repr (b, h) xs" "e \<notin> set xs"
  shows "base_repr (b, ipc_thread_links_init e h) xs"
proof -
  have "ring h xs" using assms(1) by (simp add: base_repr_def)
  then have "ring (ipc_thread_links_init e h) xs"
    by (rule ring_cong) (use assms(2) in \<open>auto simp: ipc_thread_links_init_def\<close>)
  then show ?thesis using assms(1) by (simp add: base_repr_def)
qed

lemma thread_rmqueue_kmsg:
  assumes "base_repr queue xs" "e \<in> set xs"
  shows "ipc_thread_rmqueue e queue =
    map_option (\<lambda>(b, h). (b, ipc_thread_links_init e h)) (ipc_kmsg_rmqueue e queue)"
proof -
  obtain b h where q: "queue = (b, h)" by (cases queue)
  note s = base_single [OF assms(1) [unfolded q] assms(2)]
  show ?thesis using s by (auto simp: q ipc_thread_rmqueue_def ipc_kmsg_rmqueue_def Let_def kassert_def)
qed

lemma thread_rmqueue_first_eq:
  assumes "base_repr queue (x # xs)"
  shows "ipc_thread_rmqueue_first_macro x queue = ipc_thread_rmqueue x queue"
proof -
  obtain b h where q: "queue = (b, h)" by (cases queue)
  have "b = x" "b \<noteq> 0" using assms by (auto simp: q base_repr_def)
  then show ?thesis by (simp add: q ipc_thread_rmqueue_first_macro_def ipc_thread_rmqueue_def Let_def)
qed

lemma kmsg_rmqueue_frame:
  assumes "base_repr queue xs" "e \<in> set xs" "ipc_kmsg_rmqueue e queue = Some queue'" "y \<notin> set xs"
    "unlinked queue y"
  shows "unlinked queue' y"
proof -
  obtain b h where q: "queue = (b, h)" by (cases queue)
  have r: "ring h xs" using assms(1) q by (simp add: base_repr_def)
  have "next_of h e \<in> set xs" "prev_of h e \<in> set xs" using ring_closed [OF r assms(2)] by blast+
  then have "next_of h e \<noteq> y" "prev_of h e \<noteq> y" using assms(4) by metis+
  then show ?thesis using assms(3,5)
    by (auto simp: q ipc_kmsg_rmqueue_def unlinked_def Let_def split: if_splits)
qed

lemma thread_rmqueue_correct:
  assumes "base_repr queue xs" "e \<in> set xs"
  shows "\<exists>queue'. ipc_thread_rmqueue e queue = Some queue' \<and> base_repr queue' (remove1 e xs) \<and>
    unlinked queue' e \<and> (\<forall>y. y \<notin> set xs \<longrightarrow> unlinked queue y \<longrightarrow> unlinked queue' y)"
proof -
  obtain b h where k: "ipc_kmsg_rmqueue e queue = Some (b, h)" "base_repr (b, h) (remove1 e xs)"
    using kmsg_rmqueue_correct [OF assms] by auto
  have "e \<notin> set (remove1 e xs)" using base_repr_distinct [OF assms(1)] by simp
  moreover have "\<forall>y. y \<notin> set xs \<longrightarrow> unlinked queue y \<longrightarrow> unlinked (b, h) y"
    using kmsg_rmqueue_frame [OF assms k(1)] by blast
  ultimately show ?thesis
    using k thread_rmqueue_kmsg [OF assms] base_repr_links_init unlinked_links_init by auto
qed

lemma thread_enqueue_kmsg:
  assumes "base_repr queue xs" "unlinked queue e"
  shows "ipc_thread_enqueue e queue = Some (ipc_kmsg_enqueue e queue)"
proof -
  obtain b h where q: "queue = (b, h)" by (cases queue)
  have "set_prev e e (set_next e e h) = h" using links_init_id [of h e] assms(2) q
    by (simp add: unlinked_def ipc_thread_links_init_def)
  then show ?thesis using assms by (simp add: q ipc_thread_enqueue_def ipc_thread_enqueue_macro_def ipc_kmsg_enqueue_def ipc_kmsg_enqueue_macro_def Let_def unlinked_def)
qed

lemma kmsg_enqueue_frame:
  assumes "base_repr queue xs" "y \<notin> set (e # xs)" "unlinked queue y"
  shows "unlinked (ipc_kmsg_enqueue e queue) y"
proof -
  obtain b h where q: "queue = (b, h)" by (cases queue)
  show ?thesis
  proof (cases xs)
    case Nil
    then show ?thesis using assms by (simp add: q base_repr_simps ipc_kmsg_enqueue_def ipc_kmsg_enqueue_macro_def unlinked_def Let_def)
  next
    case (Cons x ys)
    have r: "ring h xs" "b = x" "x \<noteq> 0" using assms(1) q Cons by (auto simp: base_repr_simps)
    have "prev_of h x \<in> set xs" using ring_closed [OF r(1), of x] Cons by simp
    then have "prev_of h x \<noteq> y" using assms(2) by auto
    then show ?thesis using assms(2,3) r Cons by (auto simp: q ipc_kmsg_enqueue_def ipc_kmsg_enqueue_macro_def unlinked_def Let_def)
  qed
qed

interpretation threadq: link_queue base_repr unlinked ipc_thread_enqueue ipc_thread_dequeue ipc_thread_rmqueue
proof unfold_locales
  fix s xs e assume a: "base_repr s xs" "unlinked s e" "e \<noteq> 0" "e \<notin> set xs"
  show "\<exists>s'. ipc_thread_enqueue e s = Some s' \<and> base_repr s' (xs @ [e]) \<and>
      (\<forall>x. x \<notin> set (e # xs) \<longrightarrow> unlinked s x \<longrightarrow> unlinked s' x)"
    using thread_enqueue_kmsg [OF a(1,2)] kmsg_enqueue_correct [OF a(1,3,4)] kmsg_enqueue_frame [OF a(1)]
    by auto
next
  fix s x xs assume r: "base_repr s (x # xs)"
  have "fst s = x" "x \<noteq> 0" using r by (auto simp: base_repr_def)
  then show "\<exists>s'. ipc_thread_dequeue s = Some (x, s') \<and> base_repr s' xs \<and> unlinked s' x \<and>
      (\<forall>y. y \<notin> set (x # xs) \<longrightarrow> unlinked s y \<longrightarrow> unlinked s' y)"
    using thread_rmqueue_correct [OF r, of x] thread_rmqueue_first_eq [OF r]
    by (auto simp: ipc_thread_dequeue_def ipc_thread_queue_first_def)
qed (use base_repr_distinct thread_rmqueue_correct in
    \<open>auto simp: ipc_thread_dequeue_def ipc_thread_queue_first_def base_repr_empty\<close>)

subsection \<open>Properties\<close>

fun ipc_kmsg_queue_op :: "queue_op \<Rightarrow> link_base \<Rightarrow> (addr \<times> link_base) option" where
  "ipc_kmsg_queue_op (Enqueue e) queue = Some (0, ipc_kmsg_enqueue e queue)"
| "ipc_kmsg_queue_op Dequeue queue = ipc_kmsg_dequeue queue"
| "ipc_kmsg_queue_op (Remove e) queue = map_option (\<lambda>queue'. (0, queue')) (ipc_kmsg_rmqueue e queue)"

fun ipc_thread_queue_op :: "queue_op \<Rightarrow> link_base \<Rightarrow> (addr \<times> link_base) option" where
  "ipc_thread_queue_op (Enqueue e) queue = map_option (\<lambda>queue'. (0, queue')) (ipc_thread_enqueue e queue)"
| "ipc_thread_queue_op Dequeue queue = ipc_thread_dequeue queue"
| "ipc_thread_queue_op (Remove e) queue = map_option (\<lambda>queue'. (0, queue')) (ipc_thread_rmqueue e queue)"

lemma ipc_kmsg_queue_op_eq: "ipc_kmsg_queue_op = kmsgq.link_op"
proof (intro ext)
  fix x h show "ipc_kmsg_queue_op x h = kmsgq.link_op x h" by (cases x) simp_all
qed

lemma ipc_thread_queue_op_eq: "ipc_thread_queue_op = threadq.link_op"
proof (intro ext)
  fix x h show "ipc_thread_queue_op x h = threadq.link_op x h" by (cases x) simp_all
qed

text \<open>C21. Message queues are lists: every sequence of enqueue, dequeue and removal that the list
  specification allows, started on a freshly initialised queue, passes all assertions and returns
  what the specification returns; \<open>ikmq_base\<close> then is the first remaining message and the links
  run through the remaining ones in order.\<close>

theorem ipc_kmsg_queue_refines_list:
  assumes "run_ops list_op ops ([], L) = Some (outs, xs, L')" "0 \<notin> L"
  shows "\<exists>queue. run_ops ipc_kmsg_queue_op ops (ipc_kmsg_queue_init h) = Some (outs, queue) \<and>
    ring (snd queue) xs \<and> ipc_kmsg_queue_first queue = (if xs = [] then 0 else hd xs) \<and>
    ipc_kmsg_queue_empty queue = (xs = [])"
proof -
  have "base_repr (ipc_kmsg_queue_init h) []" by (simp add: base_repr_empty ipc_kmsg_queue_init_def)
  moreover have "\<forall>e\<in>L. True \<and> e \<noteq> 0 \<and> e \<notin> set []" using assms(2) by auto
  ultimately obtain queue where q: "run_ops ipc_kmsg_queue_op ops (ipc_kmsg_queue_init h) = Some (outs, queue)"
      "base_repr queue xs"
    using kmsgq.link_ops_refine [OF _ _ assms(1)] unfolding ipc_kmsg_queue_op_eq by blast
  have "hd xs \<in> set xs" if "xs \<noteq> []" using that by simp
  then have "hd xs \<noteq> 0" if "xs \<noteq> []" using that base_repr_distinct [OF q(2)] by metis
  then show ?thesis using q by (auto simp: base_repr_def ipc_kmsg_queue_first_def ipc_kmsg_queue_empty_def)
qed

theorem ipc_kmsg_queue_refines_list_witness:
  "\<exists>queue. run_ops ipc_kmsg_queue_op [Dequeue, Enqueue 16, Enqueue 32, Enqueue 48, Remove 16, Dequeue, Enqueue 16]
      (ipc_kmsg_queue_init \<lparr>next_of = (\<lambda>_. 7), prev_of = (\<lambda>_. 9)\<rparr>) = Some ([0, 0, 0, 0, 0, 32, 0], queue) \<and>
    ring (snd queue) [48, 16] \<and> ipc_kmsg_queue_first queue = (if [48, 16 :: addr] = [] then 0 else hd [48, 16]) \<and>
    ipc_kmsg_queue_empty queue = ([48, 16 :: addr] = [])"
  by (rule ipc_kmsg_queue_refines_list [where L = "{16, 32, 48}" and L' = "{32}"]) auto

text \<open>C20. Thread queues are lists, and a thread that leaves its queue has its links reset, so
  that it can be put into a queue again: every sequence of operations that the specification
  allows passes the assertions, those on the links of a thread put into an empty queue included,
  where a thread outside of the queue starts with links initialised by \<open>ipc_thread_links_init\<close>.\<close>

theorem ipc_thread_queue_refines_list:
  assumes "run_ops list_op ops ([], L) = Some (outs, xs, L')" "0 \<notin> L"
    and "\<forall>e\<in>L. ipc_thread_links_init e h = h"
  shows "\<exists>queue. run_ops ipc_thread_queue_op ops (ipc_thread_queue_init h) = Some (outs, queue) \<and>
    ring (snd queue) xs \<and> ipc_thread_queue_first queue = (if xs = [] then 0 else hd xs)"
proof -
  have "unlinked (0, h) e" if "e \<in> L" for e
    using unlinked_links_init(1) [of 0 e h] assms(3) that by simp
  then have "\<forall>e\<in>L. unlinked (0, h) e \<and> e \<noteq> 0 \<and> e \<notin> set []" using assms(2) by auto
  moreover have "base_repr (0, h) []" by (simp add: base_repr_empty)
  ultimately obtain queue where q: "run_ops ipc_thread_queue_op ops (0, h) = Some (outs, queue)"
      "base_repr queue xs"
    using threadq.link_ops_refine [OF _ _ assms(1)] unfolding ipc_thread_queue_op_eq by blast
  then show ?thesis by (auto simp: base_repr_def ipc_thread_queue_first_def ipc_thread_queue_init_def)
qed

theorem ipc_thread_queue_refines_list_witness:
  "\<exists>queue. run_ops ipc_thread_queue_op [Enqueue 16, Enqueue 32, Remove 32, Dequeue, Enqueue 32, Enqueue 16]
      (ipc_thread_queue_init \<lparr>next_of = id, prev_of = id\<rparr>) = Some ([0, 0, 0, 16, 0, 0], queue) \<and>
    ring (snd queue) [32, 16] \<and> ipc_thread_queue_first queue = (if [32, 16 :: addr] = [] then 0 else hd [32, 16])"
  by (rule ipc_thread_queue_refines_list [where L = "{16, 32}" and L' = "{}"])
    (auto simp: ipc_thread_links_init_def set_next_def set_prev_def fun_upd_idem)

text \<open>C22. Walking a message queue with \<open>ipc_kmsg_queue_next\<close> visits every message: the successor
  of a message is the next one of the list, and of the last one it is \<open>IKM_NULL\<close>.\<close>

theorem ipc_kmsg_queue_next_walk:
  assumes "ring h (x # xs)" "0 \<notin> set (x # xs)" "i < length (x # xs)"
  shows "ipc_kmsg_queue_next (x, h) ((x # xs) ! i) = Some (if i = length xs then 0 else xs ! i)"
proof -
  have x: "x \<noteq> 0" using assms(2) by simp
  have d: "distinct (x # xs)" using assms(1) by simp
  have next_i: "next_of h ((x # xs) ! i) = (if i = length xs then x else xs ! i)"
    using path_nth [of h x xs x i] assms(1,3) by simp
  have "xs ! i \<noteq> x" if "i \<noteq> length xs"
  proof -
    have "xs ! i \<in> set xs" using that assms(3) by (intro nth_mem) simp
    then show ?thesis using d by auto
  qed
  then show ?thesis using x next_i by (auto simp: ipc_kmsg_queue_next_def Let_def)
qed

theorem ipc_kmsg_queue_next_walk_witness:
  "ipc_kmsg_queue_next (8, \<lparr>next_of = id(8 := 16, 16 := 8), prev_of = id(8 := 16, 16 := 8)\<rparr>) ([8, 16] ! 1) =
     Some (if (1 :: nat) = length [16 :: addr] then 0 else [16] ! 1)"
  by (rule ipc_kmsg_queue_next_walk) simp_all

end
