(* ===== verification/Ipc_Mqueue.thy ===== *)
theory Ipc_Mqueue
  imports Ipc_Names
begin

text \<open>
  Message queues and port sets: ipc/ipc_mqueue.c and ipc/ipc_pset.c, and the operations of
  ipc/ipc_port.c on the queues of a port.

  \<^bold>\<open>State.\<close> The queues of messages and threads are lists, first element first; the linked
  representation and its refinement of lists is the subject of \<open>Ipc_Queue\<close>.  A message queue
  is the field \<open>ip_messages\<close> of a port or \<open>ips_messages\<close> of a port set and is named by its
  owner.  The records of ports, port sets, threads and messages hold the fields these
  operations use.

  \<^bold>\<open>Blocking.\<close> A thread that blocks in \<open>ipc_mqueue_send\<close> or \<open>ipc_mqueue_receive\<close> runs again
  when \<open>ipc_thread_go\<close> is called for it, but also after a timeout or an interrupt.  Each of the
  two routines is therefore split at \<open>ipc_thread_block\<close>: a function for the part up to a return
  or the block, and one for the part after it, which gets the \<open>ith_wait_result\<close>.

  \<^bold>\<open>The log.\<close> Calls that leave these components are recorded in order, with three marks more:
  \<open>Accept\<close> where a message is counted in \<open>ip_msgcount\<close>, \<open>Handover\<close> where it is taken off
  the queue or given to a receiver, and \<open>Discard\<close> where it is destroyed because it would create
  a circle of ports and messages.
\<close>

subsection \<open>Data\<close>

datatype mach_msg_return =
    MACH_MSG_SUCCESS
  | MACH_SEND_IN_PROGRESS
  | MACH_SEND_TIMED_OUT
  | MACH_SEND_INTERRUPTED
  | MACH_RCV_IN_PROGRESS
  | MACH_RCV_INVALID_NAME
  | MACH_RCV_TIMED_OUT
  | MACH_RCV_TOO_LARGE
  | MACH_RCV_INTERRUPTED
  | MACH_RCV_PORT_CHANGED
  | MACH_RCV_PORT_DIED
  | MACH_RCV_IN_SET

datatype wait_result =
    THREAD_AWAKENED
  | THREAD_TIMED_OUT
  | THREAD_INTERRUPTED
  | THREAD_SHOULD_TERMINATE
  | THREAD_RESTART

definition MACH_SEND_TIMEOUT :: u32 where "MACH_SEND_TIMEOUT = 0x10"
definition MACH_RCV_TIMEOUT :: u32 where "MACH_RCV_TIMEOUT = 0x100"
definition MACH_SEND_ALWAYS :: u32 where "MACH_SEND_ALWAYS = 0x10000"
definition MACH_MSGH_BITS_CIRCULAR :: u32 where "MACH_MSGH_BITS_CIRCULAR = 0x40000000"
definition MACH_MSG_TYPE_PORT_SEND_ONCE :: u32 where "MACH_MSG_TYPE_PORT_SEND_ONCE = 18"
definition MACH_PORT_QLIMIT_DEFAULT :: u16 where "MACH_PORT_QLIMIT_DEFAULT = 5"
definition MACH_PORT_QLIMIT_MAX :: u16 where "MACH_PORT_QLIMIT_MAX = 16"

definition MACH_MSGH_BITS_REMOTE :: "u32 \<Rightarrow> u32" where
  "MACH_MSGH_BITS_REMOTE bits = bits AND 0xff"

text \<open>The owner of a queue.\<close>

datatype mqueue = Port_messages addr | Set_messages addr

record ipc_mqueue =
  imq_messages :: "addr list"
  imq_threads :: "addr list"

record ipc_kmsg =
  msgh_bits :: u32
  msgh_size :: u32
  msgh_remote_port :: addr
  ikm_marequest :: addr

text \<open>\<open>ith_data\<close> is the union of \<open>ith_msize\<close>, the size a receiver has room for or the size of a
  message that is too large, and \<open>ith_kmsg\<close>, the message given to it.\<close>

record ipc_thread =
  ith_state :: mach_msg_return
  ith_data :: u32

text \<open>\<open>ip_receiver\<close> is the union \<open>data\<close>, which also holds the time of death of a port.\<close>

record mq_port =
  ip_references :: u32
  ip_active :: bool
  ip_receiver :: addr
  ip_receiver_name :: mach_port
  ip_mscount :: u32
  ip_pset :: addr
  ip_msgcount :: u16
  ip_qlimit :: u16
  ip_blocked :: "addr list"

record mq_pset =
  ips_references :: u32
  ips_active :: bool
  ips_local_name :: mach_port

datatype event =
    Accept addr addr            \<comment> \<open>port and message\<close>
  | Handover addr addr          \<comment> \<open>port and message\<close>
  | Discard addr addr           \<comment> \<open>port and message\<close>
  | Thread_go addr
  | Kmsg_destroy addr
  | Kobject_server addr
  | Marequest_destroy addr
  | Port_free addr
  | Pset_free addr

record mq_state =
  ports :: "addr \<Rightarrow> mq_port"
  psets :: "addr \<Rightarrow> mq_pset"
  mqueues :: "mqueue \<Rightarrow> ipc_mqueue"
  threads :: "addr \<Rightarrow> ipc_thread"
  kmsgs :: "addr \<Rightarrow> ipc_kmsg"
  ipc_space_kernel :: addr
  ipc_port_timestamp_data :: u32
  log :: "event list"

subsection \<open>Assignments to fields of objects\<close>

definition upd_port :: "addr \<Rightarrow> (mq_port \<Rightarrow> mq_port) \<Rightarrow> mq_state \<Rightarrow> mq_state" where
  "upd_port p f st = st\<lparr>ports := (ports st)(p := f (ports st p))\<rparr>"

definition upd_pset :: "addr \<Rightarrow> (mq_pset \<Rightarrow> mq_pset) \<Rightarrow> mq_state \<Rightarrow> mq_state" where
  "upd_pset s f st = st\<lparr>psets := (psets st)(s := f (psets st s))\<rparr>"

definition upd_thread :: "addr \<Rightarrow> (ipc_thread \<Rightarrow> ipc_thread) \<Rightarrow> mq_state \<Rightarrow> mq_state" where
  "upd_thread th f st = st\<lparr>threads := (threads st)(th := f (threads st th))\<rparr>"

definition upd_kmsg :: "addr \<Rightarrow> (ipc_kmsg \<Rightarrow> ipc_kmsg) \<Rightarrow> mq_state \<Rightarrow> mq_state" where
  "upd_kmsg k f st = st\<lparr>kmsgs := (kmsgs st)(k := f (kmsgs st k))\<rparr>"

definition upd_mqueue :: "mqueue \<Rightarrow> (ipc_mqueue \<Rightarrow> ipc_mqueue) \<Rightarrow> mq_state \<Rightarrow> mq_state" where
  "upd_mqueue q f st = st\<lparr>mqueues := (mqueues st)(q := f (mqueues st q))\<rparr>"

definition emit :: "event \<Rightarrow> mq_state \<Rightarrow> mq_state" where
  "emit e st = st\<lparr>log := log st @ [e]\<rparr>"

text \<open>\<open>io_release\<close> followed by \<open>io_check_unlock\<close>.\<close>

definition ip_check_unlock :: "addr \<Rightarrow> mq_state \<Rightarrow> mq_state" where
  "ip_check_unlock p st = (if ip_references (ports st p) = 0 then emit (Port_free p) st else st)"

definition ips_check_unlock :: "addr \<Rightarrow> mq_state \<Rightarrow> mq_state" where
  "ips_check_unlock s st = (if ips_references (psets st s) = 0 then emit (Pset_free s) st else st)"

definition ip_release :: "addr \<Rightarrow> mq_state \<Rightarrow> mq_state" where
  "ip_release p = upd_port p (ip_references_update (\<lambda>n. n - 1))"

definition ips_release :: "addr \<Rightarrow> mq_state \<Rightarrow> mq_state" where
  "ips_release s = upd_pset s (ips_references_update (\<lambda>n. n - 1))"

definition ips_reference :: "addr \<Rightarrow> mq_state \<Rightarrow> mq_state" where
  "ips_reference s = upd_pset s (ips_references_update (\<lambda>n. n + 1))"

text \<open>Setting \<open>ith_state\<close> and making the thread run.\<close>

definition wake :: "mach_msg_return \<Rightarrow> addr \<Rightarrow> mq_state \<Rightarrow> mq_state" where
  "wake mr th st = emit (Thread_go th) (upd_thread th (ith_state_update (\<lambda>_. mr)) st)"

subsection \<open>Queues\<close>

definition ipc_mqueue_init :: ipc_mqueue where
  "ipc_mqueue_init = \<lparr>imq_messages = [], imq_threads = []\<rparr>"

text \<open>The loop that looks for a receiver, from the first thread of the queue on: a thread whose
  buffer is too small is woken with an error.  The loops in \<open>ipc_mqueue_send\<close> and
  \<open>ipc_mqueue_move\<close> differ only in the order of \<open>ipc_thread_go\<close> and the stores to the thread.\<close>

fun find_receiver :: "addr \<Rightarrow> mqueue \<Rightarrow> addr list \<Rightarrow> mq_state \<Rightarrow> (bool \<times> mq_state) option" where
  "find_receiver kmsg mq [] st = Some (False, st)"
| "find_receiver kmsg mq (receiver # receivers) st =
     do {
       let st = upd_mqueue mq (imq_threads_update (\<lambda>_. receivers)) st;
       kassert (imq_messages (mqueues st mq) = []);
       if msgh_size (kmsgs st kmsg) \<le> ith_data (threads st receiver) then
         let st = emit (Handover (msgh_remote_port (kmsgs st kmsg)) kmsg) st;
             st = upd_thread receiver (ith_data_update (\<lambda>_. kmsg)) st
         in Some (True, wake MACH_MSG_SUCCESS receiver st)
       else
         let size = msgh_size (kmsgs st kmsg);
             st = upd_thread receiver (ith_data_update (\<lambda>_. size)) st
         in find_receiver kmsg mq receivers (wake MACH_RCV_TOO_LARGE receiver st)
     }"

definition place_message :: "mqueue \<Rightarrow> addr \<Rightarrow> mq_state \<Rightarrow> mq_state option" where
  "place_message mq kmsg st =
     do {
       (found, st) \<leftarrow> find_receiver kmsg mq (imq_threads (mqueues st mq)) st;
       Some (if found then st else upd_mqueue mq (imq_messages_update (\<lambda>ks. ks @ [kmsg])) st)
     }"

text \<open>The loop of \<open>ipc_mqueue_move\<close>; the messages \<open>kept\<close> have been left in the source queue, the
  messages \<open>rest\<close> are still to be examined.\<close>

fun mqueue_move_loop ::
  "mqueue \<Rightarrow> mqueue \<Rightarrow> addr \<Rightarrow> addr list \<Rightarrow> addr list \<Rightarrow> mq_state \<Rightarrow> mq_state option" where
  "mqueue_move_loop dest source port kept [] st = Some st"
| "mqueue_move_loop dest source port kept (kmsg # rest) st =
     (if msgh_remote_port (kmsgs st kmsg) \<noteq> port
      then mqueue_move_loop dest source port (kept @ [kmsg]) rest st
      else
        do {
          let st = upd_mqueue source (imq_messages_update (\<lambda>_. kept @ rest)) st;
          st \<leftarrow> place_message dest kmsg st;
          mqueue_move_loop dest source port kept rest st
        })"

definition ipc_mqueue_move :: "mqueue \<Rightarrow> mqueue \<Rightarrow> addr \<Rightarrow> mq_state \<Rightarrow> mq_state option" where
  "ipc_mqueue_move dest source port st =
     mqueue_move_loop dest source port [] (imq_messages (mqueues st source)) st"

text \<open>The loop of \<open>ipc_mqueue_changed\<close>, over the threads of the queue.\<close>

fun wake_receivers :: "mqueue \<Rightarrow> mach_msg_return \<Rightarrow> addr list \<Rightarrow> mq_state \<Rightarrow> mq_state" where
  "wake_receivers mq mr [] st = st"
| "wake_receivers mq mr (th # ths) st =
     wake_receivers mq mr ths (wake mr th (upd_mqueue mq (imq_threads_update (\<lambda>_. ths)) st))"

definition ipc_mqueue_changed :: "mqueue \<Rightarrow> mach_msg_return \<Rightarrow> mq_state \<Rightarrow> mq_state" where
  "ipc_mqueue_changed mq mr st = wake_receivers mq mr (imq_threads (mqueues st mq)) st"

subsection \<open>Sending\<close>

datatype send_result = Send_return mach_msg_return | Send_block u32

text \<open>The part of \<open>ipc_mqueue_send\<close> after its first loop.\<close>

definition send_accept :: "addr \<Rightarrow> mq_state \<Rightarrow> mq_state option" where
  "send_accept kmsg st =
     do {
       let port = msgh_remote_port (kmsgs st kmsg);
       let st = emit (Accept port kmsg) (upd_port port (ip_msgcount_update (\<lambda>n. n + 1)) st);
       kassert (ip_msgcount (ports st port) > 0);
       let pset = ip_pset (ports st port);
       place_message (if pset = 0 then Port_messages port else Set_messages pset) kmsg st
     }"

text \<open>One round of the first loop: the thread returns, sends the message, or blocks.\<close>

definition send_round ::
  "addr \<Rightarrow> addr \<Rightarrow> u32 \<Rightarrow> u32 \<Rightarrow> mq_state \<Rightarrow> (send_result \<times> mq_state) option" where
  "send_round self kmsg option timeout st =
     (let port = msgh_remote_port (kmsgs st kmsg); p = ports st port; bits = msgh_bits (kmsgs st kmsg) in
      if \<not> ip_active p then
        let st = ip_check_unlock port (ip_release port st);
            st = upd_kmsg kmsg (msgh_remote_port_update (\<lambda>_. 0)) st
        in Some (Send_return MACH_MSG_SUCCESS, emit (Kmsg_destroy kmsg) st)
      else if ip_msgcount p < ip_qlimit p \<or> option AND MACH_SEND_ALWAYS \<noteq> 0 \<or>
              MACH_MSGH_BITS_REMOTE bits = MACH_MSG_TYPE_PORT_SEND_ONCE then
        if bits AND MACH_MSGH_BITS_CIRCULAR \<noteq> 0 then
          Some (Send_return MACH_MSG_SUCCESS, emit (Kmsg_destroy kmsg) (emit (Discard port kmsg) st))
        else do { st \<leftarrow> send_accept kmsg st; Some (Send_return MACH_MSG_SUCCESS, st) }
      else if option AND MACH_SEND_TIMEOUT \<noteq> 0 \<and> timeout = 0 then
        Some (Send_return MACH_SEND_TIMED_OUT, st)
      else
        let st = upd_port port (ip_blocked_update (\<lambda>ths. ths @ [self])) st;
            st = upd_thread self (ith_state_update (\<lambda>_. MACH_SEND_IN_PROGRESS)) st
        in Some (Send_block timeout, st))"

definition ipc_mqueue_send ::
  "addr \<Rightarrow> addr \<Rightarrow> u32 \<Rightarrow> u32 \<Rightarrow> mq_state \<Rightarrow> (send_result \<times> mq_state) option" where
  "ipc_mqueue_send self kmsg option timeout st =
     do {
       let port = msgh_remote_port (kmsgs st kmsg);
       kassert (port \<noteq> 0 \<and> port \<noteq> NOT 0);
       if ip_receiver (ports st port) = ipc_space_kernel st then
         do {
           kassert (ip_active (ports st port));
           Some (Send_return MACH_MSG_SUCCESS, emit (Kobject_server kmsg) st)
         }
       else send_round self kmsg option timeout st
     }"

text \<open>The part after \<open>ipc_thread_block\<close>.\<close>

definition ipc_mqueue_send_resume ::
  "addr \<Rightarrow> wait_result \<Rightarrow> addr \<Rightarrow> u32 \<Rightarrow> u32 \<Rightarrow> mq_state \<Rightarrow> (send_result \<times> mq_state) option" where
  "ipc_mqueue_send_resume self ith_wait_result kmsg option timeout st =
     (if ith_state (threads st self) = MACH_MSG_SUCCESS then send_round self kmsg option timeout st
      else
        do {
          let port = msgh_remote_port (kmsgs st kmsg);
          kassert (ith_state (threads st self) = MACH_SEND_IN_PROGRESS);
          kassert (self \<in> set (ip_blocked (ports st port)));
          let st = upd_port port (ip_blocked_update (remove1 self)) st;
          if ith_wait_result = THREAD_INTERRUPTED \<or> ith_wait_result = THREAD_SHOULD_TERMINATE
          then Some (Send_return MACH_SEND_INTERRUPTED, st)
          else send_round self kmsg option (if ith_wait_result = THREAD_TIMED_OUT then 0 else timeout) st
        })"

subsection \<open>Receiving\<close>

text \<open>The result carries what is stored through \<open>kmsgp\<close>: a message, or the size of one that is
  too large.\<close>

datatype rcv_result = Rcv_return mach_msg_return u32 | Rcv_block u32

text \<open>The part after the loop, with the message taken.\<close>

definition receive_finish :: "addr \<Rightarrow> u32 \<Rightarrow> mq_state \<Rightarrow> (rcv_result \<times> mq_state) option" where
  "receive_finish kmsg max_size st =
     do {
       kassert (msgh_size (kmsgs st kmsg) \<le> max_size);
       let st = (if ikm_marequest (kmsgs st kmsg) \<noteq> 0
                 then upd_kmsg kmsg (ikm_marequest_update (\<lambda>_. 0))
                        (emit (Marequest_destroy (ikm_marequest (kmsgs st kmsg))) st)
                 else st);
       kassert (msgh_bits (kmsgs st kmsg) AND MACH_MSGH_BITS_CIRCULAR = 0);
       let port = msgh_remote_port (kmsgs st kmsg);
       if ip_active (ports st port) then
         do {
           kassert (ip_msgcount (ports st port) > 0);
           let st = upd_port port (ip_msgcount_update (\<lambda>n. n - 1)) st;
           let senders = ip_blocked (ports st port);
           let st = (if senders \<noteq> [] \<and> ip_msgcount (ports st port) < ip_qlimit (ports st port)
                     then wake MACH_MSG_SUCCESS (hd senders) (upd_port port (ip_blocked_update tl) st)
                     else st);
           Some (Rcv_return MACH_MSG_SUCCESS kmsg, st)
         }
       else Some (Rcv_return MACH_MSG_SUCCESS kmsg, st)
     }"

definition receive_round ::
  "addr \<Rightarrow> mqueue \<Rightarrow> u32 \<Rightarrow> u32 \<Rightarrow> u32 \<Rightarrow> mq_state \<Rightarrow> (rcv_result \<times> mq_state) option" where
  "receive_round self mq option max_size timeout st =
     (case imq_messages (mqueues st mq) of
        kmsg # rest \<Rightarrow>
          if msgh_size (kmsgs st kmsg) > max_size
          then Some (Rcv_return MACH_RCV_TOO_LARGE (msgh_size (kmsgs st kmsg)), st)
          else
            let st = emit (Handover (msgh_remote_port (kmsgs st kmsg)) kmsg)
                       (upd_mqueue mq (imq_messages_update (\<lambda>_. rest)) st)
            in receive_finish kmsg max_size st
      | [] \<Rightarrow>
          if option AND MACH_RCV_TIMEOUT \<noteq> 0 \<and> timeout = 0 then Some (Rcv_return MACH_RCV_TIMED_OUT 0, st)
          else
            let st = upd_mqueue mq (imq_threads_update (\<lambda>ths. ths @ [self])) st;
                st = upd_thread self (\<lambda>t. t\<lparr>ith_state := MACH_RCV_IN_PROGRESS, ith_data := max_size\<rparr>) st
            in Some (Rcv_block timeout, st))"

definition ipc_mqueue_receive ::
  "addr \<Rightarrow> mqueue \<Rightarrow> u32 \<Rightarrow> u32 \<Rightarrow> u32 \<Rightarrow> mq_state \<Rightarrow> (rcv_result \<times> mq_state) option" where
  "ipc_mqueue_receive = receive_round"

text \<open>The part after \<open>ipc_thread_block\<close>, where also a \<open>resume\<close> enters.\<close>

definition ipc_mqueue_receive_resume ::
  "addr \<Rightarrow> wait_result \<Rightarrow> mqueue \<Rightarrow> u32 \<Rightarrow> u32 \<Rightarrow> u32 \<Rightarrow> mq_state \<Rightarrow> (rcv_result \<times> mq_state) option" where
  "ipc_mqueue_receive_resume self ith_wait_result mq option max_size timeout st =
     (let t = threads st self in
      case ith_state t of
        MACH_MSG_SUCCESS \<Rightarrow> receive_finish (ith_data t) max_size st
      | MACH_RCV_TOO_LARGE \<Rightarrow> Some (Rcv_return MACH_RCV_TOO_LARGE (ith_data t), st)
      | MACH_RCV_PORT_DIED \<Rightarrow> Some (Rcv_return MACH_RCV_PORT_DIED 0, st)
      | MACH_RCV_PORT_CHANGED \<Rightarrow> Some (Rcv_return MACH_RCV_PORT_CHANGED 0, st)
      | MACH_RCV_IN_PROGRESS \<Rightarrow>
          do {
            kassert (self \<in> set (imq_threads (mqueues st mq)));
            let st = upd_mqueue mq (imq_threads_update (remove1 self)) st;
            if ith_wait_result = THREAD_INTERRUPTED \<or> ith_wait_result = THREAD_SHOULD_TERMINATE
            then Some (Rcv_return MACH_RCV_INTERRUPTED 0, st)
            else receive_round self mq option max_size (if ith_wait_result = THREAD_TIMED_OUT then 0 else timeout) st
          }
      | _ \<Rightarrow> None)"

subsection \<open>Port sets\<close>

definition ipc_pset_add :: "addr \<Rightarrow> addr \<Rightarrow> mq_state \<Rightarrow> mq_state option" where
  "ipc_pset_add pset port st =
     do {
       kassert (ips_active (psets st pset));
       kassert (ip_active (ports st port));
       kassert (ip_pset (ports st port) = 0);
       let st = ips_reference pset (upd_port port (ip_pset_update (\<lambda>_. pset)) st);
       st \<leftarrow> ipc_mqueue_move (Set_messages pset) (Port_messages port) port st;
       kassert (imq_messages (mqueues st (Port_messages port)) = []);
       Some (ipc_mqueue_changed (Port_messages port) MACH_RCV_PORT_CHANGED st)
     }"

definition ipc_pset_remove :: "addr \<Rightarrow> addr \<Rightarrow> mq_state \<Rightarrow> mq_state option" where
  "ipc_pset_remove pset port st =
     do {
       kassert (ip_active (ports st port));
       kassert (ip_pset (ports st port) = pset);
       let st = ips_release pset (upd_port port (ip_pset_update (\<lambda>_. 0)) st);
       ipc_mqueue_move (Port_messages port) (Set_messages pset) port st
     }"

definition ipc_pset_move :: "addr \<Rightarrow> addr \<Rightarrow> mq_state \<Rightarrow> (kern_return \<times> mq_state) option" where
  "ipc_pset_move port nset st =
     do {
       kassert (ip_active (ports st port));
       let oset = ip_pset (ports st port);
       if oset = nset then Some (if nset = 0 then KERN_NOT_IN_SET else KERN_SUCCESS, st)
       else if oset = 0 then
         do {
           kassert (ips_active (psets st nset));
           st \<leftarrow> ipc_pset_add nset port st;
           Some (KERN_SUCCESS, st)
         }
       else if nset = 0 then
         do {
           st \<leftarrow> ipc_pset_remove oset port st;
           Some (if ips_active (psets st oset) then (KERN_SUCCESS, st)
                 else (KERN_NOT_IN_SET, ips_check_unlock oset st))
         }
       else
         do {
           kassert (ips_active (psets st nset));
           st \<leftarrow> ipc_pset_remove oset port st;
           st \<leftarrow> ipc_pset_add nset port st;
           Some (KERN_SUCCESS, ips_check_unlock oset st)
         }
     }"

definition ipc_pset_destroy :: "addr \<Rightarrow> mq_state \<Rightarrow> mq_state option" where
  "ipc_pset_destroy pset st =
     do {
       kassert (ips_active (psets st pset));
       let st = upd_pset pset (ips_active_update (\<lambda>_. False)) st;
       let st = ipc_mqueue_changed (Set_messages pset) MACH_RCV_PORT_DIED st;
       Some (ips_check_unlock pset (ips_release pset st))
     }"

text \<open>\<open>ipc_mqueue_copyin\<close>, with the entry found for the name in an active space as an argument:
  its type bits and its object.\<close>

definition ipc_mqueue_copyin ::
  "addr \<Rightarrow> mach_port \<Rightarrow> (u32 \<times> addr) option \<Rightarrow> mq_state \<Rightarrow> ((mach_msg_return + mqueue) \<times> mq_state) option" where
  "ipc_mqueue_copyin space name entry st =
     (case entry of
        None \<Rightarrow> Some (Inl MACH_RCV_INVALID_NAME, st)
      | Some (bits, obj) \<Rightarrow>
          if bits AND MACH_PORT_TYPE_RECEIVE \<noteq> 0 then
            do {
              kassert (obj \<noteq> 0);
              kassert (ip_active (ports st obj));
              kassert (ip_receiver_name (ports st obj) = name);
              kassert (ip_receiver (ports st obj) = space);
              let pset = ip_pset (ports st obj);
              if pset \<noteq> 0 \<and> ips_active (psets st pset) then Some (Inl MACH_RCV_IN_SET, st)
              else
                do {
                  st \<leftarrow> (if pset \<noteq> 0 then
                           do { st \<leftarrow> ipc_pset_remove pset obj st; Some (ips_check_unlock pset st) }
                         else Some st);
                  Some (Inr (Port_messages obj), upd_port obj (ip_references_update (\<lambda>n. n + 1)) st)
                }
            }
          else if bits AND MACH_PORT_TYPE_PORT_SET \<noteq> 0 then
            do {
              kassert (obj \<noteq> 0);
              kassert (ips_active (psets st obj));
              kassert (ips_local_name (psets st obj) = name);
              Some (Inr (Set_messages obj), ips_reference obj st)
            }
          else Some (Inl MACH_RCV_INVALID_NAME, st))"

subsection \<open>Operations of ports on their queues\<close>

text \<open>The loop that wakes senders: at most \<open>n\<close> of them.\<close>

fun wake_senders :: "addr \<Rightarrow> nat \<Rightarrow> mq_state \<Rightarrow> mq_state" where
  "wake_senders port 0 st = st"
| "wake_senders port (Suc n) st =
     (case ip_blocked (ports st port) of
        [] \<Rightarrow> st
      | th # ths \<Rightarrow> wake_senders port n (wake MACH_MSG_SUCCESS th (upd_port port (ip_blocked_update (\<lambda>_. ths)) st)))"

definition ipc_port_set_qlimit :: "addr \<Rightarrow> u16 \<Rightarrow> mq_state \<Rightarrow> mq_state option" where
  "ipc_port_set_qlimit port qlimit st =
     do {
       kassert (ip_active (ports st port));
       kassert (qlimit \<le> MACH_PORT_QLIMIT_MAX);
       let st =
         (if qlimit > ip_qlimit (ports st port)
          then wake_senders port (unat (qlimit - ip_qlimit (ports st port))) st
          else st);
       Some (upd_port port (ip_qlimit_update (\<lambda>_. qlimit)) st)
     }"

definition ipc_port_clear_receiver :: "addr \<Rightarrow> mq_state \<Rightarrow> mq_state option" where
  "ipc_port_clear_receiver port st =
     do {
       kassert (ip_active (ports st port));
       let pset = ip_pset (ports st port);
       st \<leftarrow> (if pset \<noteq> 0 then
                do { st \<leftarrow> ipc_pset_remove pset port st; Some (ips_check_unlock pset st) }
              else Some (ipc_mqueue_changed (Port_messages port) MACH_RCV_PORT_DIED st));
       Some (upd_port port (ip_mscount_update (\<lambda>_. 0)) st)
     }"

text \<open>The loop of \<open>ipc_port_destroy\<close> that destroys the queued messages.\<close>

fun destroy_messages :: "addr \<Rightarrow> addr list \<Rightarrow> mq_state \<Rightarrow> mq_state option" where
  "destroy_messages port [] st = Some st"
| "destroy_messages port (kmsg # rest) st =
     do {
       let st = upd_mqueue (Port_messages port) (imq_messages_update (\<lambda>_. rest)) st;
       kassert (msgh_remote_port (kmsgs st kmsg) = port);
       let st = ip_check_unlock port (ip_release port st);
       let st = upd_kmsg kmsg (msgh_remote_port_update (\<lambda>_. 0)) st;
       destroy_messages port rest (emit (Kmsg_destroy kmsg) st)
     }"

text \<open>What \<open>ipc_port_destroy\<close> does to the queues of a port that has no backup port: it rouses the
  senders, marks the port dead with a timestamp, and destroys the messages.\<close>

definition port_queues_destroy :: "addr \<Rightarrow> mq_state \<Rightarrow> mq_state option" where
  "port_queues_destroy port st =
     do {
       kassert (ip_active (ports st port));
       kassert (ip_pset (ports st port) = 0);
       kassert (ip_mscount (ports st port) = 0);
       let st = wake_senders port (length (ip_blocked (ports st port))) st;
       let timestamp = ipc_port_timestamp_data st;
       let st = st\<lparr>ipc_port_timestamp_data := timestamp + 1\<rparr>;
       let st = upd_port port (\<lambda>p. p\<lparr>ip_active := False, ip_receiver := timestamp\<rparr>) st;
       kassert (imq_threads (mqueues st (Port_messages port)) = []);
       destroy_messages port (imq_messages (mqueues st (Port_messages port))) st
     }"

subsection \<open>Threads that send and receive\<close>

text \<open>What a thread is doing: the arguments of the call it is blocked in.\<close>

datatype activity =
    Idle
  | Sending addr u32 u32             \<comment> \<open>message, option, timeout\<close>
  | Receiving mqueue u32 u32 u32     \<comment> \<open>queue, option, maximal size, timeout\<close>

type_synonym mq_system = "mq_state \<times> (addr \<Rightarrow> activity)"

fun after_send :: "addr \<Rightarrow> addr \<Rightarrow> u32 \<Rightarrow> (addr \<Rightarrow> activity) \<Rightarrow> send_result \<Rightarrow> addr \<Rightarrow> activity" where
  "after_send self kmsg option act (Send_return mr) = act(self := Idle)"
| "after_send self kmsg option act (Send_block timeout) = act(self := Sending kmsg option timeout)"

fun after_receive :: "addr \<Rightarrow> mqueue \<Rightarrow> u32 \<Rightarrow> u32 \<Rightarrow> (addr \<Rightarrow> activity) \<Rightarrow> rcv_result \<Rightarrow> addr \<Rightarrow> activity" where
  "after_receive self mq option max_size act (Rcv_return mr x) = act(self := Idle)"
| "after_receive self mq option max_size act (Rcv_block timeout) = act(self := Receiving mq option max_size timeout)"

text \<open>A message the component has in its hands: queued, given to a receiver that has not run
  since, or waiting to be sent.\<close>

definition queued :: "mq_state \<Rightarrow> addr \<Rightarrow> bool" where
  "queued st k \<longleftrightarrow> (\<exists>q. k \<in> set (imq_messages (mqueues st q)))"

definition handed_to :: "mq_system \<Rightarrow> addr \<Rightarrow> addr \<Rightarrow> bool" where
  "handed_to sys th k \<longleftrightarrow>
     (\<exists>q opt m t. snd sys th = Receiving q opt m t) \<and>
     ith_state (threads (fst sys) th) = MACH_MSG_SUCCESS \<and> ith_data (threads (fst sys) th) = k"

definition sends :: "mq_system \<Rightarrow> addr \<Rightarrow> addr \<Rightarrow> bool" where
  "sends sys th k \<longleftrightarrow> (\<exists>opt t. snd sys th = Sending k opt t)"

definition in_flight :: "mq_system \<Rightarrow> addr \<Rightarrow> bool" where
  "in_flight sys k \<longleftrightarrow> queued (fst sys) k \<or> (\<exists>th. handed_to sys th k \<or> sends sys th k)"

text \<open>The steps of the system.  A thread sends a new message, or resumes; it receives from a
  port or set it has the right for, or resumes; and other operations change ports and sets.\<close>

inductive mq_step :: "mq_system \<Rightarrow> mq_system \<Rightarrow> bool" where
  send: "act self = Idle \<Longrightarrow> \<not> in_flight (st, act) kmsg \<Longrightarrow>
    ipc_mqueue_send self kmsg option timeout (upd_kmsg kmsg (\<lambda>_. m) st) = Some (r, st') \<Longrightarrow>
    mq_step (st, act) (st', after_send self kmsg option act r)"
| send_resume: "act self = Sending kmsg option timeout \<Longrightarrow>
    ipc_mqueue_send_resume self wr kmsg option timeout st = Some (r, st') \<Longrightarrow>
    mq_step (st, act) (st', after_send self kmsg option act r)"
| receive: "act self = Idle \<Longrightarrow>
    ipc_mqueue_copyin space name entry st = Some (Inr mq, st1) \<Longrightarrow>
    ipc_mqueue_receive self mq option max_size timeout st1 = Some (r, st') \<Longrightarrow>
    mq_step (st, act) (st', after_receive self mq option max_size act r)"
| receive_resume: "act self = Receiving mq option max_size timeout \<Longrightarrow>
    ipc_mqueue_receive_resume self wr mq option max_size timeout st = Some (r, st') \<Longrightarrow>
    mq_step (st, act) (st', after_receive self mq option max_size act r)"
| pset_move: "ipc_pset_move port nset st = Some (kr, st') \<Longrightarrow> mq_step (st, act) (st', act)"
| pset_destroy: "pset \<noteq> 0 \<Longrightarrow> ipc_pset_destroy pset st = Some st' \<Longrightarrow> mq_step (st, act) (st', act)"
| set_qlimit: "ipc_port_set_qlimit port qlimit st = Some st' \<Longrightarrow> mq_step (st, act) (st', act)"
| clear_receiver: "ipc_port_clear_receiver port st = Some st' \<Longrightarrow> mq_step (st, act) (st', act)"
| queues_destroy: "port_queues_destroy port st = Some st' \<Longrightarrow> mq_step (st, act) (st', act)"
| change_receiver: "mq_step (st, act)
    (upd_port port (\<lambda>p. p\<lparr>ip_receiver := space, ip_receiver_name := name\<rparr>) st, act)"

inductive mq_reachable :: "mq_system \<Rightarrow> bool" where
  start: "\<forall>q. mqueues st q = ipc_mqueue_init \<Longrightarrow>
    \<forall>p. ip_pset (ports st p) = 0 \<and> ip_msgcount (ports st p) = 0 \<and> ip_blocked (ports st p) = [] \<Longrightarrow>
    log st = [] \<Longrightarrow> mq_reachable (st, \<lambda>_. Idle)"
| step: "mq_reachable sys \<Longrightarrow> mq_step sys sys' \<Longrightarrow> mq_reachable sys'"

end
