(* ===== verification/Ipc_Mqueue_Inv.thy ===== *)
theory Ipc_Mqueue_Inv
  imports Ipc_Mqueue
begin

text \<open>
  The invariant of message queues, its preservation by every operation, and what follows for
  threads that send and receive concurrently: the limit on queued messages, the order of
  messages, and that no wakeup is lost.
\<close>

lemmas upd_defs = upd_port_def upd_pset_def upd_thread_def upd_kmsg_def upd_mqueue_def emit_def
  wake_def ip_release_def ips_release_def ips_reference_def

subsection \<open>The invariant\<close>

definition chan :: "mq_state \<Rightarrow> addr \<Rightarrow> mqueue" where
  "chan st p = (if ip_pset (ports st p) = 0 then Port_messages p else Set_messages (ip_pset (ports st p)))"

abbreviation remote :: "mq_state \<Rightarrow> addr \<Rightarrow> addr" where
  "remote st k \<equiv> msgh_remote_port (kmsgs st k)"

abbreviation messages_to :: "mq_state \<Rightarrow> addr \<Rightarrow> addr list \<Rightarrow> addr list" where
  "messages_to st p ks \<equiv> filter (\<lambda>k. remote st k = p) ks"

definition handed :: "mq_system \<Rightarrow> addr \<Rightarrow> addr set" where
  "handed sys p = {th. \<exists>k. handed_to sys th k \<and> remote (fst sys) k = p}"

definition woken :: "mq_system \<Rightarrow> addr \<Rightarrow> addr set" where
  "woken sys p = {th. \<exists>k. sends sys th k \<and> remote (fst sys) k = p \<and>
     ith_state (threads (fst sys) th) = MACH_MSG_SUCCESS}"

fun accepted :: "addr \<Rightarrow> event list \<Rightarrow> addr list" where
  "accepted p [] = []"
| "accepted p (Accept p' k # es) = (if p' = p then k # accepted p es else accepted p es)"
| "accepted p (_ # es) = accepted p es"

fun handed_over :: "addr \<Rightarrow> event list \<Rightarrow> addr list" where
  "handed_over p [] = []"
| "handed_over p (Handover p' k # es) = (if p' = p then k # handed_over p es else handed_over p es)"
| "handed_over p (_ # es) = handed_over p es"

fun discarded :: "addr \<Rightarrow> event list \<Rightarrow> addr list" where
  "discarded p [] = []"
| "discarded p (Discard p' k # es) = (if p' = p then k # discarded p es else discarded p es)"
| "discarded p (_ # es) = discarded p es"

lemma discarded_append [simp]: "discarded p (es @ es') = discarded p es @ discarded p es'"
  by (induction p es rule: discarded.induct) auto

lemma accepted_append [simp]: "accepted p (es @ es') = accepted p es @ accepted p es'"
  by (induction p es rule: accepted.induct) auto

lemma handed_over_append [simp]: "handed_over p (es @ es') = handed_over p es @ handed_over p es'"
  by (induction p es rule: handed_over.induct) auto

text \<open>Receivers wait only at an empty queue; a thread is in the queue of threads exactly while
  it waits.\<close>

definition recv_ok :: "mq_system \<Rightarrow> bool" where
  "recv_ok sys \<longleftrightarrow> (let (st, act) = sys in
     (\<forall>q. imq_messages (mqueues st q) \<noteq> [] \<longrightarrow> imq_threads (mqueues st q) = []) \<and>
     (\<forall>q. distinct (imq_threads (mqueues st q))) \<and>
     (\<forall>q th. th \<in> set (imq_threads (mqueues st q)) \<longleftrightarrow>
        (\<exists>opt m t. act th = Receiving q opt m t) \<and> ith_state (threads st th) = MACH_RCV_IN_PROGRESS) \<and>
     (\<forall>th q opt m t. act th = Receiving q opt m t \<longrightarrow>
        ith_state (threads st th) \<in> {MACH_MSG_SUCCESS, MACH_RCV_IN_PROGRESS, MACH_RCV_TOO_LARGE,
          MACH_RCV_PORT_DIED, MACH_RCV_PORT_CHANGED} \<and>
        (ith_state (threads st th) = MACH_RCV_IN_PROGRESS \<longrightarrow> ith_data (threads st th) = m) \<and>
        (ith_state (threads st th) = MACH_MSG_SUCCESS \<longrightarrow> msgh_size (kmsgs st (ith_data (threads st th))) \<le> m)))"

text \<open>Nobody waits at the queue of a port that is in a set.\<close>

definition members_ok :: "mq_state \<Rightarrow> bool" where
  "members_ok st \<longleftrightarrow> (\<forall>p. ip_pset (ports st p) \<noteq> 0 \<longrightarrow> imq_threads (mqueues st (Port_messages p)) = [])"

text \<open>A message is in one place; a queued message is in the queue of its port.  The messages
  \<open>pend\<close> have been accepted and are about to be placed.\<close>

definition place_ok :: "mq_system \<Rightarrow> addr list \<Rightarrow> addr list \<Rightarrow> bool" where
  "place_ok sys pend taken \<longleftrightarrow> (let (st, act) = sys in
     (\<forall>q. distinct (imq_messages (mqueues st q))) \<and>
     (\<forall>q. \<forall>k \<in> set (imq_messages (mqueues st q)). chan st (remote st k) = q \<and> ip_active (ports st (remote st k))) \<and>
     (\<forall>th k. sends sys th k \<longrightarrow> \<not> queued st k) \<and>
     (\<forall>th th' k. sends sys th k \<longrightarrow> \<not> handed_to sys th' k) \<and>
     (\<forall>th th' k. sends sys th k \<longrightarrow> sends sys th' k \<longrightarrow> th' = th) \<and>
     (\<forall>th k. handed_to sys th k \<longrightarrow> \<not> queued st k) \<and>
     (\<forall>th th' k. handed_to sys th k \<longrightarrow> handed_to sys th' k \<longrightarrow> th' = th) \<and>
     distinct pend \<and> (\<forall>k \<in> set pend. \<not> in_flight sys k) \<and>
     (\<forall>k. queued st k \<or> (\<exists>th. handed_to sys th k) \<or> k \<in> set pend \<or> k \<in> set taken \<longrightarrow>
        msgh_bits (kmsgs st k) AND MACH_MSGH_BITS_CIRCULAR = 0))"

text \<open>The count of a port is that of its messages that no receiver has picked up.  The messages
  \<open>taken\<close> have been picked up and are about to be subtracted.\<close>

definition count_ok :: "mq_system \<Rightarrow> addr list \<Rightarrow> addr list \<Rightarrow> bool" where
  "count_ok sys pend taken \<longleftrightarrow> (let (st, act) = sys in
     \<forall>p. ip_active (ports st p) \<longrightarrow>
       unat (ip_msgcount (ports st p)) =
         length (messages_to st p (imq_messages (mqueues st (chan st p)))) + length (messages_to st p pend) +
         length (messages_to st p taken) + card (handed sys p))"

text \<open>A sender waits only while the messages, and the senders woken but not yet run, fill the
  limit; a sender that discards its message leaves a place free.  \<open>x\<close> is the number of senders
  that were woken and are running.\<close>

definition send_ok :: "mq_system \<Rightarrow> (addr \<Rightarrow> nat) \<Rightarrow> bool" where
  "send_ok sys x \<longleftrightarrow> (let (st, act) = sys in
     (\<forall>p. distinct (ip_blocked (ports st p))) \<and>
     (\<forall>p th. th \<in> set (ip_blocked (ports st p)) \<longleftrightarrow>
        (\<exists>k opt t. act th = Sending k opt t \<and> remote st k = p) \<and>
        ith_state (threads st th) = MACH_SEND_IN_PROGRESS) \<and>
     (\<forall>th k opt t. act th = Sending k opt t \<longrightarrow>
        ith_state (threads st th) \<in> {MACH_MSG_SUCCESS, MACH_SEND_IN_PROGRESS}) \<and>
     (\<forall>p. \<not> ip_active (ports st p) \<longrightarrow> ip_blocked (ports st p) = []) \<and>
     (\<forall>p. ip_active (ports st p) \<longrightarrow> ip_blocked (ports st p) \<noteq> [] \<longrightarrow>
        unat (ip_qlimit (ports st p)) \<le> unat (ip_msgcount (ports st p)) + card (woken sys p) + x p + length (discarded p (log st))))"

definition log_ok :: "mq_system \<Rightarrow> addr list \<Rightarrow> bool" where
  "log_ok sys pend \<longleftrightarrow> (let (st, act) = sys in
     \<forall>p. ip_active (ports st p) \<longrightarrow>
       accepted p (log st) = handed_over p (log st) @
         messages_to st p (imq_messages (mqueues st (chan st p))) @ messages_to st p pend)"

definition mq_inv :: "mq_system \<Rightarrow> addr list \<Rightarrow> addr list \<Rightarrow> bool" where
  "mq_inv sys pend taken \<longleftrightarrow>
     recv_ok sys \<and> place_ok sys pend taken \<and> count_ok sys pend taken \<and> send_ok sys (\<lambda>_. 0) \<and> log_ok sys pend"

lemmas mq_inv_defs = mq_inv_def recv_ok_def place_ok_def count_ok_def send_ok_def log_ok_def Let_def prod.case

lemma invD:
  assumes "mq_inv (st, act) pend taken"
  shows recv_ok_inv: "recv_ok (st, act)" and place_ok_inv: "place_ok (st, act) pend taken"
    and count_ok_inv: "count_ok (st, act) pend taken" and send_ok_inv: "send_ok (st, act) (\<lambda>_. 0)"
    and log_ok_inv: "log_ok (st, act) pend"
  using assms by (auto simp: mq_inv_def)

lemma recv_okD:
  assumes "recv_ok (st, act)"
  shows waiting_empty: "imq_messages (mqueues st q) \<noteq> [] \<Longrightarrow> imq_threads (mqueues st q) = []"
    and waiting_distinct: "distinct (imq_threads (mqueues st q))"
    and waiting_iff: "th \<in> set (imq_threads (mqueues st q)) \<longleftrightarrow>
        (\<exists>opt m t. act th = Receiving q opt m t) \<and> ith_state (threads st th) = MACH_RCV_IN_PROGRESS"
    and receiving_state: "act th = Receiving q opt m t \<Longrightarrow>
        ith_state (threads st th) \<in> {MACH_MSG_SUCCESS, MACH_RCV_IN_PROGRESS, MACH_RCV_TOO_LARGE,
          MACH_RCV_PORT_DIED, MACH_RCV_PORT_CHANGED}"
    and waiting_size: "act th = Receiving q opt m t \<Longrightarrow> ith_state (threads st th) = MACH_RCV_IN_PROGRESS \<Longrightarrow>
        ith_data (threads st th) = m"
    and handed_size: "act th = Receiving q opt m t \<Longrightarrow> ith_state (threads st th) = MACH_MSG_SUCCESS \<Longrightarrow>
        msgh_size (kmsgs st (ith_data (threads st th))) \<le> m"
  using assms unfolding recv_ok_def Let_def prod.case by blast+

lemma recv_okI:
  assumes "\<And>q. imq_messages (mqueues st q) \<noteq> [] \<Longrightarrow> imq_threads (mqueues st q) = []"
    and "\<And>q. distinct (imq_threads (mqueues st q))"
    and "\<And>q th. th \<in> set (imq_threads (mqueues st q)) \<longleftrightarrow>
        (\<exists>opt m t. act th = Receiving q opt m t) \<and> ith_state (threads st th) = MACH_RCV_IN_PROGRESS"
    and "\<And>th q opt m t. act th = Receiving q opt m t \<Longrightarrow>
        ith_state (threads st th) \<in> {MACH_MSG_SUCCESS, MACH_RCV_IN_PROGRESS, MACH_RCV_TOO_LARGE,
          MACH_RCV_PORT_DIED, MACH_RCV_PORT_CHANGED} \<and>
        (ith_state (threads st th) = MACH_RCV_IN_PROGRESS \<longrightarrow> ith_data (threads st th) = m) \<and>
        (ith_state (threads st th) = MACH_MSG_SUCCESS \<longrightarrow> msgh_size (kmsgs st (ith_data (threads st th))) \<le> m)"
  shows "recv_ok (st, act)"
  using assms unfolding recv_ok_def Let_def prod.case by blast

text \<open>A thread leaves the queue it waits in.\<close>

lemma recv_ok_dequeue:
  assumes r: "recv_ok (st, act)" and q: "imq_threads (mqueues st q) = ths @ th # ths'"
    and st': "mqueues st' = (mqueues st)(q := (mqueues st q)\<lparr>imq_threads := ths @ ths'\<rparr>)"
      "threads st' = (threads st)(th := t)" "ports st' = ports st" "kmsgs st' = kmsgs st"
    and act': "\<And>x. x \<noteq> th \<Longrightarrow> act' x = act x"
      "act' th = Idle \<or> act' th = act th \<and> (ith_state t \<in> {MACH_RCV_TOO_LARGE, MACH_RCV_PORT_DIED, MACH_RCV_PORT_CHANGED} \<or>
        ith_state t = MACH_MSG_SUCCESS \<and> msgh_size (kmsgs st (ith_data t)) \<le> ith_data (threads st th))"
  shows "recv_ok (st', act')"
proof (rule recv_okI)
  have d: "th \<notin> set ths" "th \<notin> set ths'" "distinct (ths @ ths')" using recv_okD(2) [OF r, of q] q by auto
  have w: "ith_state (threads st th) = MACH_RCV_IN_PROGRESS" using recv_okD(3) [OF r, of th q] q by simp
  obtain opt m x where a: "act th = Receiving q opt m x" using recv_okD(3) [OF r, of th q] q by auto
  have m: "ith_data (threads st th) = m" using recv_okD(5) [OF r a w] .
  show "imq_messages (mqueues st' q') \<noteq> [] \<Longrightarrow> imq_threads (mqueues st' q') = []" for q'
    using recv_okD(1) [OF r, of q'] q by (auto simp: st' split: if_splits)
  show "distinct (imq_threads (mqueues st' q'))" for q'
    using recv_okD(2) [OF r, of q'] d by (simp add: st')
  show "y \<in> set (imq_threads (mqueues st' q')) \<longleftrightarrow>
      (\<exists>opt m t. act' y = Receiving q' opt m t) \<and> ith_state (threads st' y) = MACH_RCV_IN_PROGRESS" for q' y
    using recv_okD(3) [OF r, of y q'] d act'(1) [of y] act'(2) q a
    by (cases "y = th"; cases "q' = q") (auto simp: st')
  show "ith_state (threads st' y) \<in> {MACH_MSG_SUCCESS, MACH_RCV_IN_PROGRESS, MACH_RCV_TOO_LARGE,
          MACH_RCV_PORT_DIED, MACH_RCV_PORT_CHANGED} \<and>
        (ith_state (threads st' y) = MACH_RCV_IN_PROGRESS \<longrightarrow> ith_data (threads st' y) = m') \<and>
        (ith_state (threads st' y) = MACH_MSG_SUCCESS \<longrightarrow> msgh_size (kmsgs st' (ith_data (threads st' y))) \<le> m')"
    if "act' y = Receiving q' opt' m' t'" for y q' opt' m' t'
  proof (cases "y = th")
    case True then show ?thesis using that act'(2) a m by (auto simp: st')
  next
    case False
    then have "act y = Receiving q' opt' m' t'" using that act'(1) by simp
    then show ?thesis using recv_okD(4,5,6) [OF r] False by (simp add: st')
  qed
qed

text \<open>What placement, counts and the log depend on.\<close>

definition same_messages :: "mq_system \<Rightarrow> mq_system \<Rightarrow> bool" where
  "same_messages sys sys' \<longleftrightarrow> (let st = fst sys; st' = fst sys' in
     (\<forall>q. imq_messages (mqueues st' q) = imq_messages (mqueues st q)) \<and>
     (\<forall>k. remote st' k = remote st k \<and> msgh_bits (kmsgs st' k) = msgh_bits (kmsgs st k)) \<and>
     (\<forall>p. ip_active (ports st' p) = ip_active (ports st p) \<and> ip_pset (ports st' p) = ip_pset (ports st p) \<and>
       ip_msgcount (ports st' p) = ip_msgcount (ports st p)) \<and>
     (\<forall>th k. handed_to sys' th k = handed_to sys th k) \<and> (\<forall>th k. sends sys' th k = sends sys th k) \<and>
     (\<forall>p. accepted p (log st') = accepted p (log st) \<and> handed_over p (log st') = handed_over p (log st)))"

lemma same_messages_transfer:
  assumes "same_messages (st, act) (st', act')"
  shows "place_ok (st', act') pend taken = place_ok (st, act) pend taken"
    and "count_ok (st', act') pend taken = count_ok (st, act) pend taken"
    and "log_ok (st', act') pend = log_ok (st, act) pend"
proof -
  have c: "chan st' = chan st" and q: "queued st' = queued st" and f: "in_flight (st', act') = in_flight (st, act)"
    and h: "handed (st', act') = handed (st, act)"
    using assms by (auto simp: same_messages_def chan_def queued_def in_flight_def handed_def fun_eq_iff)
  show "place_ok (st', act') pend taken = place_ok (st, act) pend taken"
    using assms c q f unfolding place_ok_def Let_def prod.case same_messages_def by simp
  show "count_ok (st', act') pend taken = count_ok (st, act) pend taken"
    using assms c h unfolding count_ok_def Let_def prod.case same_messages_def by simp
  show "log_ok (st', act') pend = log_ok (st, act) pend"
    using assms c unfolding log_ok_def Let_def prod.case same_messages_def by simp
qed

text \<open>A waiting receiver is woken with an error.\<close>

lemma inv_kick:
  assumes inv: "mq_inv (st, act) pend taken" and q: "imq_threads (mqueues st q) = th # ths"
    and mr: "mr \<in> {MACH_RCV_TOO_LARGE, MACH_RCV_PORT_DIED, MACH_RCV_PORT_CHANGED}"
    and st': "mqueues st' = (mqueues st)(q := (mqueues st q)\<lparr>imq_threads := ths\<rparr>)"
      "threads st' = (threads st)(th := t)" "ith_state t = mr" "ports st' = ports st" "kmsgs st' = kmsgs st"
      "log st' = log st @ [Thread_go th]"
  shows "mq_inv (st', act) pend taken"
proof -
  have w: "ith_state (threads st th) = MACH_RCV_IN_PROGRESS" using waiting_iff [OF recv_ok_inv [OF inv], of th q] q by simp
  obtain opt m x where a: "act th = Receiving q opt m x" using waiting_iff [OF recv_ok_inv [OF inv], of th q] q by auto
  have same: "same_messages (st, act) (st', act)"
    using st' w mr by (auto simp: same_messages_def handed_to_def sends_def)
  have "recv_ok (st', act)"
    by (rule recv_ok_dequeue [OF recv_ok_inv [OF inv], of q "[]" th ths _ t]) (use q st' mr in auto)
  moreover have "woken (st', act) = woken (st, act)"
    using a by (auto simp: woken_def fun_eq_iff sends_def st')
  then have "send_ok (st', act) (\<lambda>_. 0)" using send_ok_inv [OF inv] a unfolding send_ok_def Let_def prod.case st'
    by simp
  ultimately show ?thesis using inv unfolding mq_inv_def same_messages_transfer [OF same] by simp
qed

lemma place_okI:
  assumes "\<And>q. distinct (imq_messages (mqueues st q))"
    and "\<And>q k. k \<in> set (imq_messages (mqueues st q)) \<Longrightarrow> chan st (remote st k) = q \<and> ip_active (ports st (remote st k))"
    and "\<And>th k. sends (st, act) th k \<Longrightarrow> \<not> queued st k"
    and "\<And>th th' k. sends (st, act) th k \<Longrightarrow> \<not> handed_to (st, act) th' k"
    and "\<And>th th' k. sends (st, act) th k \<Longrightarrow> sends (st, act) th' k \<Longrightarrow> th' = th"
    and "\<And>th k. handed_to (st, act) th k \<Longrightarrow> \<not> queued st k"
    and "\<And>th th' k. handed_to (st, act) th k \<Longrightarrow> handed_to (st, act) th' k \<Longrightarrow> th' = th"
    and "distinct pend" and "\<And>k. k \<in> set pend \<Longrightarrow> \<not> in_flight (st, act) k"
    and "\<And>k. queued st k \<or> (\<exists>th. handed_to (st, act) th k) \<or> k \<in> set pend \<or> k \<in> set taken \<Longrightarrow>
        msgh_bits (kmsgs st k) AND MACH_MSGH_BITS_CIRCULAR = 0"
  shows "place_ok (st, act) pend taken"
  using assms unfolding place_ok_def Let_def prod.case by blast

lemma place_okD:
  assumes "place_ok (st, act) pend taken"
  shows "distinct (imq_messages (mqueues st q))"
    and "k \<in> set (imq_messages (mqueues st q)) \<Longrightarrow> chan st (remote st k) = q \<and> ip_active (ports st (remote st k))"
    and "sends (st, act) th k \<Longrightarrow> \<not> queued st k"
    and "sends (st, act) th k \<Longrightarrow> \<not> handed_to (st, act) th' k"
    and "sends (st, act) th k \<Longrightarrow> sends (st, act) th' k \<Longrightarrow> th' = th"
    and "handed_to (st, act) th k \<Longrightarrow> \<not> queued st k"
    and "handed_to (st, act) th k \<Longrightarrow> handed_to (st, act) th' k \<Longrightarrow> th' = th"
    and "distinct pend" and "k \<in> set pend \<Longrightarrow> \<not> in_flight (st, act) k"
    and "queued st k \<or> (\<exists>th. handed_to (st, act) th k) \<or> k \<in> set pend \<or> k \<in> set taken \<Longrightarrow>
        msgh_bits (kmsgs st k) AND MACH_MSGH_BITS_CIRCULAR = 0"
  using assms unfolding place_ok_def Let_def prod.case by blast+

lemma count_okD:
  "count_ok (st, act) pend taken \<Longrightarrow> ip_active (ports st p) \<Longrightarrow>
     unat (ip_msgcount (ports st p)) =
         length (messages_to st p (imq_messages (mqueues st (chan st p)))) + length (messages_to st p pend) +
         length (messages_to st p taken) + card (handed (st, act) p)"
  by (simp add: count_ok_def)

lemma log_okD:
  "log_ok (st, act) pend \<Longrightarrow> ip_active (ports st p) \<Longrightarrow>
     accepted p (log st) = handed_over p (log st) @
         messages_to st p (imq_messages (mqueues st (chan st p))) @ messages_to st p pend"
  by (simp add: log_ok_def)

lemma count_okI:
  "(\<And>p. ip_active (ports st p) \<Longrightarrow>
     unat (ip_msgcount (ports st p)) =
         length (messages_to st p (imq_messages (mqueues st (chan st p)))) + length (messages_to st p pend) +
         length (messages_to st p taken) + card (handed (st, act) p)) \<Longrightarrow> count_ok (st, act) pend taken"
  by (simp add: count_ok_def)

lemma log_okI:
  "(\<And>p. ip_active (ports st p) \<Longrightarrow>
     accepted p (log st) = handed_over p (log st) @
         messages_to st p (imq_messages (mqueues st (chan st p))) @ messages_to st p pend) \<Longrightarrow> log_ok (st, act) pend"
  by (simp add: log_ok_def)

lemma send_okD:
  assumes "send_ok (st, act) x"
  shows "distinct (ip_blocked (ports st p))"
    and "th \<in> set (ip_blocked (ports st p)) \<longleftrightarrow>
        (\<exists>k opt t. act th = Sending k opt t \<and> remote st k = p) \<and> ith_state (threads st th) = MACH_SEND_IN_PROGRESS"
    and "act th = Sending k opt t \<Longrightarrow> ith_state (threads st th) \<in> {MACH_MSG_SUCCESS, MACH_SEND_IN_PROGRESS}"
    and "\<not> ip_active (ports st p) \<Longrightarrow> ip_blocked (ports st p) = []"
    and "ip_active (ports st p) \<Longrightarrow> ip_blocked (ports st p) \<noteq> [] \<Longrightarrow>
        unat (ip_qlimit (ports st p)) \<le> unat (ip_msgcount (ports st p)) + card (woken (st, act) p) + x p + length (discarded p (log st))"
  using assms unfolding send_ok_def Let_def prod.case by blast+

lemma send_okI:
  assumes "\<And>p. distinct (ip_blocked (ports st p))"
    and "\<And>p th. th \<in> set (ip_blocked (ports st p)) \<longleftrightarrow>
        (\<exists>k opt t. act th = Sending k opt t \<and> remote st k = p) \<and> ith_state (threads st th) = MACH_SEND_IN_PROGRESS"
    and "\<And>th k opt t. act th = Sending k opt t \<Longrightarrow> ith_state (threads st th) \<in> {MACH_MSG_SUCCESS, MACH_SEND_IN_PROGRESS}"
    and "\<And>p. \<not> ip_active (ports st p) \<Longrightarrow> ip_blocked (ports st p) = []"
    and "\<And>p. ip_active (ports st p) \<Longrightarrow> ip_blocked (ports st p) \<noteq> [] \<Longrightarrow>
        unat (ip_qlimit (ports st p)) \<le> unat (ip_msgcount (ports st p)) + card (woken (st, act) p) + x p + length (discarded p (log st))"
  shows "send_ok (st, act) x"
  using assms unfolding send_ok_def Let_def prod.case by blast

text \<open>Senders do not depend on messages and receivers.\<close>

lemma send_ok_frame:
  assumes "send_ok (st, act) x"
    and "\<And>th. (\<exists>k opt t. act th = Sending k opt t) \<Longrightarrow> threads st' th = threads st th"
    and "\<And>th k opt t. act' th = Sending k opt t \<longleftrightarrow> act th = Sending k opt t"
    and "\<And>th k opt t. act th = Sending k opt t \<Longrightarrow> remote st' k = remote st k"
    and "\<And>p. ip_active (ports st' p) = ip_active (ports st p)" "\<And>p. ip_blocked (ports st' p) = ip_blocked (ports st p)"
      "\<And>p. ip_qlimit (ports st' p) = ip_qlimit (ports st p)"
      "\<And>p. ip_active (ports st p) \<Longrightarrow> unat (ip_msgcount (ports st p)) \<le> unat (ip_msgcount (ports st' p))"
      "\<And>p. discarded p (log st') = discarded p (log st)"
  shows "send_ok (st', act') x"
proof -
  have w: "woken (st', act') p = woken (st, act) p" for p
    using assms(2-4) by (fastforce simp: woken_def sends_def)
  have b: "(\<exists>k opt t. act' th = Sending k opt t \<and> remote st' k = p) \<and> ith_state (threads st' th) = MACH_SEND_IN_PROGRESS \<longleftrightarrow>
    (\<exists>k opt t. act th = Sending k opt t \<and> remote st k = p) \<and> ith_state (threads st th) = MACH_SEND_IN_PROGRESS" for th p
    using assms(2-4) by metis
  show ?thesis
  proof (rule send_okI)
    show "th \<in> set (ip_blocked (ports st' p)) \<longleftrightarrow>
        (\<exists>k opt t. act' th = Sending k opt t \<and> remote st' k = p) \<and> ith_state (threads st' th) = MACH_SEND_IN_PROGRESS" for p th
      unfolding assms(6) b by (rule send_okD(2) [OF assms(1)])
    show "ith_state (threads st' th) \<in> {MACH_MSG_SUCCESS, MACH_SEND_IN_PROGRESS}" if "act' th = Sending k opt t" for th k opt t
      using that send_okD(3) [OF assms(1)] assms(2) [of th] assms(3) by metis
    show "unat (ip_qlimit (ports st' p)) \<le> unat (ip_msgcount (ports st' p)) + card (woken (st', act') p) + x p + length (discarded p (log st'))"
      if "ip_active (ports st' p)" "ip_blocked (ports st' p) \<noteq> []" for p
      using send_okD(5) [OF assms(1), of p] assms(8) [of p] that unfolding w assms(5-7,9) by linarith
  qed (use send_okD(1,4) [OF assms(1)] assms(5,6) in auto)
qed

lemma recv_ok_frame:
  assumes r: "recv_ok (st, act)"
    and "\<And>q. imq_threads (mqueues st' q) = imq_threads (mqueues st q)"
    and "\<And>q. imq_messages (mqueues st' q) \<noteq> [] \<Longrightarrow> imq_threads (mqueues st q) = []"
    and "\<And>th q opt m t. act' th = Receiving q opt m t \<longleftrightarrow> act th = Receiving q opt m t"
    and "\<And>th q opt m t. act th = Receiving q opt m t \<Longrightarrow> threads st' th = threads st th"
    and "\<And>th q opt m t. act th = Receiving q opt m t \<Longrightarrow> ith_state (threads st th) = MACH_MSG_SUCCESS \<Longrightarrow>
      msgh_size (kmsgs st' (ith_data (threads st th))) = msgh_size (kmsgs st (ith_data (threads st th)))"
  shows "recv_ok (st', act')"
proof (rule recv_okI)
  show "th \<in> set (imq_threads (mqueues st' q)) \<longleftrightarrow>
      (\<exists>opt m t. act' th = Receiving q opt m t) \<and> ith_state (threads st' th) = MACH_RCV_IN_PROGRESS" for q th
    unfolding assms(2,4) recv_okD(3) [OF r] using assms(5) by metis
  show "ith_state (threads st' th) \<in> {MACH_MSG_SUCCESS, MACH_RCV_IN_PROGRESS, MACH_RCV_TOO_LARGE,
          MACH_RCV_PORT_DIED, MACH_RCV_PORT_CHANGED} \<and>
        (ith_state (threads st' th) = MACH_RCV_IN_PROGRESS \<longrightarrow> ith_data (threads st' th) = m) \<and>
        (ith_state (threads st' th) = MACH_MSG_SUCCESS \<longrightarrow> msgh_size (kmsgs st' (ith_data (threads st' th))) \<le> m)"
    if "act' th = Receiving q opt m t" for th q opt m t
    using that recv_okD(4-6) [OF r, of th q opt m t] assms(4) assms(5,6) [of th q opt m t] by simp
qed (use recv_okD(2) [OF r] assms(2,3) in auto)

text \<open>A message is given to a waiting receiver.\<close>

lemma inv_handover:
  assumes inv: "mq_inv (st, act) (k # pend) taken" and q: "imq_threads (mqueues st q) = th # ths"
    and size: "msgh_size (kmsgs st k) \<le> ith_data (threads st th)"
    and chan: "chan st (remote st k) = q"
    and st': "mqueues st' = (mqueues st)(q := (mqueues st q)\<lparr>imq_threads := ths\<rparr>)"
      "threads st' = (threads st)(th := t)" "ith_state t = MACH_MSG_SUCCESS" "ith_data t = k"
      "ports st' = ports st" "kmsgs st' = kmsgs st"
      "log st' = log st @ [Handover (remote st k) k, Thread_go th]"
  shows "mq_inv (st', act) pend taken"
proof -
  note r = recv_ok_inv [OF inv] and pl = place_okD [OF place_ok_inv [OF inv]]
  have w: "ith_state (threads st th) = MACH_RCV_IN_PROGRESS" using waiting_iff [OF r, of th q] q by simp
  obtain opt m x where a: "act th = Receiving q opt m x" using waiting_iff [OF r, of th q] q by auto
  have empty: "imq_messages (mqueues st q) = []" using waiting_empty [OF r, of q] q by auto
  have h: "handed_to (st', act) y j \<longleftrightarrow> (if y = th then j = k else handed_to (st, act) y j)" for y j
    using a by (auto simp: handed_to_def st')
  have h': "handed (st', act) p = (if remote st k = p then insert th (handed (st, act) p) else handed (st, act) p)" for p
    using w by (auto simp: handed_def h st'(6)) (auto simp: handed_to_def)
  have nh: "th \<notin> handed (st, act) p" for p using w by (auto simp: handed_def handed_to_def)
  have s: "sends (st', act) y j \<longleftrightarrow> sends (st, act) y j" for y j by (simp add: sends_def)
  have msgs: "imq_messages (mqueues st' q') = imq_messages (mqueues st q')" for q' by (simp add: st')
  then have qd: "queued st' j = queued st j" for j by (simp add: queued_def)
  have c: "chan st' = chan st" by (simp add: chan_def st' fun_eq_iff)
  have k: "\<not> in_flight (st, act) k" using pl(9) [of k] by simp
  have "recv_ok (st', act)"
    by (rule recv_ok_dequeue [OF r, of q "[]" th ths _ t]) (use q st' size in auto)
  moreover have "place_ok (st', act) pend taken"
  proof (rule place_okI)
    show "\<not> in_flight (st', act) j" if "j \<in> set pend" for j
      using pl(8) pl(9) [of j] that by (auto simp: in_flight_def qd h s)
    show "msgh_bits (kmsgs st' j) AND MACH_MSGH_BITS_CIRCULAR = 0"
      if "queued st' j \<or> (\<exists>th. handed_to (st', act) th j) \<or> j \<in> set pend \<or> j \<in> set taken" for j
      using that pl(10) [of j] by (auto simp: qd h st'(6) split: if_splits)
    show "distinct (imq_messages (mqueues st' q'))" for q' unfolding msgs by (rule pl(1))
    show "chan st' (remote st' j) = q' \<and> ip_active (ports st' (remote st' j))" if "j \<in> set (imq_messages (mqueues st' q'))" for j q'
      using pl(2) [of j q'] that unfolding msgs c st'(5,6) .
    show "\<not> queued st' j" if "sends (st', act) y j" for y j using that pl(3) unfolding qd s by blast
    show "\<not> handed_to (st', act) z j" if "sends (st', act) y j" for y z j
      using that pl(4) [of y j z] k unfolding h s by (auto simp: in_flight_def)
    show "z = y" if "sends (st', act) y j" "sends (st', act) z j" for y z j using that pl(5) unfolding s by blast
    show "\<not> queued st' j" if "handed_to (st', act) y j" for y j
      using that pl(6) [of y j] k unfolding h qd by (auto simp: in_flight_def split: if_splits)
    show "z = y" if "handed_to (st', act) y j" "handed_to (st', act) z j" for y z j
      using that pl(7) [of y j z] k unfolding h by (auto simp: in_flight_def split: if_splits)
    show "distinct pend" using pl(8) by simp
  qed
  moreover have "count_ok (st', act) pend taken"
    by (rule count_okI) (use count_okD [OF count_ok_inv [OF inv]] nh in \<open>auto simp: h' c msgs st'(5,6) chan empty\<close>)
  moreover have "send_ok (st', act) (\<lambda>_. 0)"
    by (rule send_ok_frame [OF send_ok_inv [OF inv]]) (use a in \<open>auto simp: st'\<close>)
  moreover have "log_ok (st', act) pend"
    by (rule log_okI) (use log_okD [OF log_ok_inv [OF inv]] in \<open>auto simp: c msgs st'(5-7) chan empty\<close>)
  ultimately show ?thesis by (simp add: mq_inv_def)
qed

text \<open>A message is queued.\<close>

lemma inv_enqueue:
  assumes inv: "mq_inv (st, act) (k # pend) taken" and q: "imq_threads (mqueues st q) = []"
    and chan: "chan st (remote st k) = q" and active: "ip_active (ports st (remote st k))"
    and st': "mqueues st' = (mqueues st)(q := imq_messages_update (\<lambda>ks. ks @ [k]) (mqueues st q))"
      "threads st' = threads st" "ports st' = ports st" "kmsgs st' = kmsgs st" "log st' = log st"
  shows "mq_inv (st', act) pend taken"
proof -
  note r = recv_ok_inv [OF inv] and pl = place_okD [OF place_ok_inv [OF inv]]
  have h: "handed_to (st', act) y j = handed_to (st, act) y j" for y j by (simp add: handed_to_def st')
  have h': "handed (st', act) p = handed (st, act) p" for p by (simp add: handed_def h st')
  have s: "sends (st', act) y j \<longleftrightarrow> sends (st, act) y j" for y j by (simp add: sends_def)
  have qd: "queued st' j \<longleftrightarrow> j = k \<or> queued st j" for j by (auto simp: queued_def st')
  have c: "chan st' = chan st" by (simp add: chan_def st' fun_eq_iff)
  have k: "\<not> in_flight (st, act) k" "k \<notin> set pend" using pl(9) [of k] pl(8) by auto
  have "recv_ok (st', act)"
    by (rule recv_ok_frame [OF r]) (use recv_okD(1) [OF r] q in \<open>auto simp: st' split: if_splits\<close>)
  moreover have "place_ok (st', act) pend taken"
  proof (rule place_okI)
    show "distinct (imq_messages (mqueues st' q'))" for q'
      using pl(1) k by (auto simp: st' in_flight_def queued_def)
    show "chan st' (remote st' j) = q' \<and> ip_active (ports st' (remote st' j))" if "j \<in> set (imq_messages (mqueues st' q'))" for j q'
      using that pl(2) [of j q'] chan active by (auto simp: st' c split: if_splits)
    show "\<not> in_flight (st', act) j" if "j \<in> set pend" for j
      using pl(9) [of j] that k(2) by (auto simp: in_flight_def qd h s)
    show "msgh_bits (kmsgs st' j) AND MACH_MSGH_BITS_CIRCULAR = 0"
      if "queued st' j \<or> (\<exists>th. handed_to (st', act) th j) \<or> j \<in> set pend \<or> j \<in> set taken" for j
      using that pl(10) [of j] by (auto simp: qd h st'(4))
    show "\<not> queued st' j" if "sends (st', act) y j" for y j
      using that pl(3) [of y j] k(1) unfolding qd s by (auto simp: in_flight_def)
    show "\<not> handed_to (st', act) z j" if "sends (st', act) y j" for y z j using that pl(4) unfolding h s by blast
    show "z = y" if "sends (st', act) y j" "sends (st', act) z j" for y z j using that pl(5) unfolding s by blast
    show "\<not> queued st' j" if "handed_to (st', act) y j" for y j
      using that pl(6) [of y j] k(1) unfolding h qd by (auto simp: in_flight_def)
    show "z = y" if "handed_to (st', act) y j" "handed_to (st', act) z j" for y z j using that pl(7) unfolding h by blast
    show "distinct pend" using pl(8) by simp
  qed
  moreover have "count_ok (st', act) pend taken"
    by (rule count_okI) (use count_okD [OF count_ok_inv [OF inv]] in \<open>auto simp: h' c st' chan\<close>)
  moreover have "send_ok (st', act) (\<lambda>_. 0)"
    by (rule send_ok_frame [OF send_ok_inv [OF inv]]) (auto simp: st')
  moreover have "log_ok (st', act) pend"
    by (rule log_okI) (use log_okD [OF log_ok_inv [OF inv]] in \<open>auto simp: c st' chan\<close>)
  ultimately show ?thesis by (simp add: mq_inv_def)
qed

text \<open>What the search for a receiver leaves alone.\<close>

definition same_outside :: "mqueue \<Rightarrow> mq_state \<Rightarrow> mq_state \<Rightarrow> bool" where
  "same_outside q st st' \<longleftrightarrow> ports st' = ports st \<and> psets st' = psets st \<and> kmsgs st' = kmsgs st \<and>
     ipc_space_kernel st' = ipc_space_kernel st \<and> (\<forall>q'. q' \<noteq> q \<longrightarrow> mqueues st' q' = mqueues st q')"

lemma same_outside_trans: "same_outside q st st' \<Longrightarrow> same_outside q st' st'' \<Longrightarrow> same_outside q st st''"
  by (simp add: same_outside_def)

lemma same_outside_chan: "same_outside q st st' \<Longrightarrow> chan st' = chan st"
  by (simp add: same_outside_def chan_def fun_eq_iff)

lemma find_receiver_inv:
  assumes "mq_inv (st, act) (k # pend) taken" "imq_threads (mqueues st q) = rs"
    "chan st (remote st k) = q" "ip_active (ports st (remote st k))"
  shows "\<exists>found st'. find_receiver k q rs st = Some (found, st') \<and> same_outside q st st' \<and>
    (if found then mq_inv (st', act) pend taken
     else mq_inv (st', act) (k # pend) taken \<and> imq_threads (mqueues st' q) = [])"
  using assms
proof (induction rs arbitrary: st)
  case Nil then show ?case by (intro exI [of _ False] exI [of _ st]) (simp add: same_outside_def)
next
  case (Cons r rs)
  have empty: "imq_messages (mqueues st q) = []"
    using waiting_empty [OF recv_ok_inv [OF Cons.prems(1)], of q] Cons.prems(2) by auto
  show ?case
  proof (cases "msgh_size (kmsgs st k) \<le> ith_data (threads st r)")
    case True
    define st' where "st' = wake MACH_MSG_SUCCESS r (upd_thread r (ith_data_update (\<lambda>_. k))
      (emit (Handover (remote st k) k) (upd_mqueue q (imq_threads_update (\<lambda>_. rs)) st)))"
    have "mq_inv (st', act) pend taken"
      by (rule inv_handover [OF Cons.prems(1,2) True Cons.prems(3), of _ "threads st' r"])
        (simp_all add: st'_def upd_defs)
    moreover have "find_receiver k q (r # rs) st = Some (True, st')"
      using True empty by (simp add: st'_def Let_def upd_defs)
    moreover have "same_outside q st st'" by (simp add: same_outside_def st'_def upd_defs)
    ultimately show ?thesis by auto
  next
    case False
    define st' where "st' = wake MACH_RCV_TOO_LARGE r (upd_thread r (ith_data_update (\<lambda>_. msgh_size (kmsgs st k)))
      (upd_mqueue q (imq_threads_update (\<lambda>_. rs)) st))"
    have o: "same_outside q st st'" by (simp add: same_outside_def st'_def upd_defs)
    have i: "mq_inv (st', act) (k # pend) taken"
      by (rule inv_kick [OF Cons.prems(1,2), of MACH_RCV_TOO_LARGE _ "threads st' r"])
        (simp_all add: st'_def upd_defs)
    have t: "imq_threads (mqueues st' q) = rs" by (simp add: st'_def upd_defs)
    have p: "chan st' (remote st' k) = q" "ip_active (ports st' (remote st' k))"
      using Cons.prems(3,4) o by (simp_all add: same_outside_chan [OF o]) (simp_all add: same_outside_def)
    have "find_receiver k q (r # rs) st = find_receiver k q rs st'"
      using False empty by (simp add: st'_def Let_def upd_defs)
    with Cons.IH [OF i t p] same_outside_trans [OF o] show ?thesis by metis
  qed
qed

lemma place_message_inv:
  assumes "mq_inv (st, act) (k # pend) taken"
    "chan st (remote st k) = q" "ip_active (ports st (remote st k))"
  shows "\<exists>st'. place_message q k st = Some st' \<and> same_outside q st st' \<and> mq_inv (st', act) pend taken"
proof -
  obtain found st1 where 1: "find_receiver k q (imq_threads (mqueues st q)) st = Some (found, st1)" "same_outside q st st1"
    "if found then mq_inv (st1, act) pend taken
     else mq_inv (st1, act) (k # pend) taken \<and> imq_threads (mqueues st1 q) = []"
    using find_receiver_inv [OF assms(1) refl assms(2,3)] by blast
  show ?thesis
  proof (cases found)
    case True then show ?thesis using 1 by (auto simp: place_message_def)
  next
    case False
    define st' where "st' = upd_mqueue q (imq_messages_update (\<lambda>ks. ks @ [k])) st1"
    have "chan st1 (remote st1 k) = q" "ip_active (ports st1 (remote st1 k))"
      using assms(2,3) 1(2) by (simp_all add: same_outside_chan [OF 1(2)]) (simp_all add: same_outside_def)
    then have "mq_inv (st', act) pend taken"
      by (intro inv_enqueue [of st1 act k pend taken q]) (use 1(3) False in \<open>simp_all add: st'_def upd_defs\<close>)
    moreover have "same_outside q st st'"
      using 1(2) by (simp add: same_outside_def st'_def upd_defs)
    ultimately show ?thesis using 1(1) False by (auto simp: place_message_def st'_def)
  qed
qed

text \<open>Removing messages from another queue commutes with placing a message.\<close>

definition set_messages :: "mqueue \<Rightarrow> addr list \<Rightarrow> mq_state \<Rightarrow> mq_state" where
  "set_messages q ks = upd_mqueue q (imq_messages_update (\<lambda>_. ks))"

lemma find_receiver_set_messages:
  assumes "q' \<noteq> q"
  shows "find_receiver k q rs (set_messages q' ks st) =
    map_option (\<lambda>(found, st). (found, set_messages q' ks st)) (find_receiver k q rs st)"
proof (induction rs arbitrary: st)
  case (Cons r rs)
  have c: "upd_mqueue q f (set_messages q' ks st) = set_messages q' ks (upd_mqueue q f st)"
    "emit e (set_messages q' ks st) = set_messages q' ks (emit e st)"
    "upd_thread th g (set_messages q' ks st) = set_messages q' ks (upd_thread th g st)"
    "wake mr th (set_messages q' ks st) = set_messages q' ks (wake mr th st)"
    "threads (set_messages q' ks st) = threads st" "kmsgs (set_messages q' ks st) = kmsgs st"
    "mqueues (set_messages q' ks st) q = mqueues st q" for f e th g mr st
    using assms by (auto simp: set_messages_def upd_defs fun_upd_twist)
  show ?case
    by (simp add: c Cons.IH Let_def kassert_def split del: if_split) (simp add: c Cons.IH)
qed simp

lemma place_message_set_messages:
  "q' \<noteq> q \<Longrightarrow> place_message q k (set_messages q' ks st) = map_option (set_messages q' ks) (place_message q k st)"
  by (cases "find_receiver k q (imq_threads (mqueues st q)) st")
    (auto simp: place_message_def find_receiver_set_messages,
      auto simp: find_receiver_set_messages set_messages_def upd_defs fun_upd_twist)

lemma find_receiver_outside:
  "find_receiver k q rs st = Some (found, st') \<Longrightarrow> same_outside q st st'"
proof (induction rs arbitrary: st)
  case Nil then show ?case by (simp add: same_outside_def)
next
  case (Cons r rs)
  let ?st = "upd_mqueue q (imq_threads_update (\<lambda>_. rs)) st"
  show ?case
  proof (cases "msgh_size (kmsgs st k) \<le> ith_data (threads st r)")
    case True then show ?thesis using Cons.prems by (auto simp: Let_def upd_defs same_outside_def)
  next
    case False
    define st1 where "st1 = wake MACH_RCV_TOO_LARGE r (upd_thread r (ith_data_update (\<lambda>_. msgh_size (kmsgs st k))) ?st)"
    have "find_receiver k q rs st1 = Some (found, st')"
      using Cons.prems False by (auto simp: Let_def st1_def upd_defs)
    from Cons.IH [OF this] show ?thesis
      by (rule same_outside_trans [rotated]) (simp add: same_outside_def st1_def upd_defs)
  qed
qed

lemma place_message_outside: "place_message q k st = Some st' \<Longrightarrow> same_outside q st st'"
  by (auto simp: place_message_def same_outside_def upd_defs split: bind_splits if_splits dest!: find_receiver_outside)

lemma set_messages_twice [simp]: "set_messages q ks (set_messages q ks' st) = set_messages q ks st"
  by (simp add: set_messages_def upd_defs)

lemma mqueue_move_loop_eq:
  assumes "dest \<noteq> source" "imq_messages (mqueues st source) = kept @ rest"
  shows "mqueue_move_loop dest source p kept rest st =
    ofold (place_message dest) (messages_to st p rest)
      (set_messages source (kept @ filter (\<lambda>k. remote st k \<noteq> p) rest) st)"
  using assms
proof (induction rest arbitrary: kept st)
  case Nil
  then have "set_messages source kept st = st" by (simp add: set_messages_def upd_defs fun_upd_idem)
  then show ?case by simp
next
  case (Cons k rest)
  show ?case
  proof (cases "remote st k = p")
    case False then show ?thesis using Cons.IH [of st "kept @ [k]"] Cons.prems by simp
  next
    case True
    have s: "upd_mqueue source (imq_messages_update (\<lambda>_. kept @ rest)) st = set_messages source (kept @ rest) st"
      by (simp add: set_messages_def)
    note pl = place_message_set_messages [OF Cons.prems(1) [symmetric], of k]
    show ?thesis
    proof (cases "place_message dest k st")
      case None then show ?thesis using True pl by (simp add: s Let_def)
    next
      case (Some st2)
      let ?st2 = "set_messages source (kept @ rest) st2"
      have k: "kmsgs st2 = kmsgs st" using place_message_outside [OF Some] by (simp add: same_outside_def)
      have "imq_messages (mqueues ?st2 source) = kept @ rest" "kmsgs ?st2 = kmsgs st2"
        by (simp_all add: set_messages_def upd_defs)
      with Cons.IH [of ?st2 kept] Cons.prems(1) Some True pl k show ?thesis by (simp add: s Let_def)
    qed
  qed
qed

lemma place_messages_inv:
  assumes "mq_inv (st, act) (ks @ pend) taken" "\<forall>k \<in> set ks. chan st (remote st k) = q \<and> ip_active (ports st (remote st k))"
  shows "\<exists>st'. ofold (place_message q) ks st = Some st' \<and> same_outside q st st' \<and> mq_inv (st', act) pend taken"
  using assms
proof (induction ks arbitrary: st)
  case Nil then show ?case by (simp add: same_outside_def)
next
  case (Cons k ks)
  obtain st1 where 1: "place_message q k st = Some st1" "same_outside q st st1" "mq_inv (st1, act) (ks @ pend) taken"
    using place_message_inv [of st act k "ks @ pend" taken q] Cons.prems by auto
  have "\<forall>k \<in> set ks. chan st1 (remote st1 k) = q \<and> ip_active (ports st1 (remote st1 k))"
    using Cons.prems(2) 1(2) unfolding same_outside_chan [OF 1(2)] by (simp add: same_outside_def)
  from Cons.IH [OF 1(3) this] 1(1) same_outside_trans [OF 1(2)] show ?case by auto
qed

text \<open>A port changes its set: its messages are taken out of the queue.\<close>

lemma inv_extract:
  assumes inv: "mq_inv (st, act) [] taken" and active: "ip_active (ports st p)"
    and st': "mqueues st' = (mqueues st)(chan st p := (mqueues st (chan st p))\<lparr>imq_messages := filter (\<lambda>k. remote st k \<noteq> p) (imq_messages (mqueues st (chan st p)))\<rparr>)"
      "threads st' = threads st" "kmsgs st' = kmsgs st" "log st' = log st"
      "ports st' = (ports st)(p := (ports st p)\<lparr>ip_pset := s\<rparr>)"
  shows "mq_inv (st', act) (messages_to st p (imq_messages (mqueues st (chan st p)))) taken"
proof -
  note r = recv_ok_inv [OF inv] and pl = place_okD [OF place_ok_inv [OF inv]]
  let ?ks = "imq_messages (mqueues st (chan st p))"
  have c: "q \<noteq> p \<Longrightarrow> chan st' q = chan st q" for q by (simp add: chan_def st')
  have h: "handed_to (st', act) y j = handed_to (st, act) y j" for y j by (simp add: handed_to_def st')
  have h': "handed (st', act) p = handed (st, act) p" for p by (simp add: handed_def h st')
  have s: "sends (st', act) y j \<longleftrightarrow> sends (st, act) y j" for y j by (simp add: sends_def)
  have in_chan: "j \<in> set (imq_messages (mqueues st q)) \<Longrightarrow> remote st j = p \<Longrightarrow> q = chan st p" for j q
    using pl(2) [of j q] by simp
  have mem: "j \<in> set (imq_messages (mqueues st' q)) \<longleftrightarrow> j \<in> set (imq_messages (mqueues st q)) \<and> remote st j \<noteq> p" for j q
    using in_chan [of j q] by (auto simp: st')
  have qd: "queued st' j \<longleftrightarrow> queued st j \<and> remote st j \<noteq> p" for j by (auto simp: queued_def mem)
  have none: "messages_to st p (imq_messages (mqueues st q)) = []" if "q \<noteq> chan st p" for q
    using in_chan [of _ q] that by (auto simp: filter_empty_conv)
  have m: "messages_to st p' (imq_messages (mqueues st' q)) = (if p' = p then [] else messages_to st p' (imq_messages (mqueues st q)))" for p' q
    using none [of q] by (auto simp: st' filter_empty_conv intro!: filter_cong)
  have ne: "imq_messages (mqueues st' q) \<noteq> [] \<Longrightarrow> imq_messages (mqueues st q) \<noteq> []" for q
    by (auto simp: st' split: if_splits)
  have "recv_ok (st', act)"
    by (rule recv_ok_frame [OF r]) (use recv_okD(1) [OF r] ne in \<open>auto simp: st'\<close>)
  moreover have "place_ok (st', act) (messages_to st p ?ks) taken"
  proof (rule place_okI)
    show "distinct (imq_messages (mqueues st' q'))" for q' using pl(1) by (simp add: st')
    show "chan st' (remote st' j) = q' \<and> ip_active (ports st' (remote st' j))" if "j \<in> set (imq_messages (mqueues st' q'))" for j q'
    proof -
      have "j \<in> set (imq_messages (mqueues st q'))" "remote st j \<noteq> p"
        using that by (auto simp: mem)
      then show ?thesis using pl(2) [of j q'] by (simp add: c st'(3,5))
    qed
    show "\<not> in_flight (st', act) j" if "j \<in> set (messages_to st p ?ks)" for j
    proof -
      have "queued st j" "remote st j = p" using that by (auto simp: queued_def)
      then show ?thesis using pl(3) [of _ j] pl(6) [of _ j] by (auto simp: in_flight_def qd h s)
    qed
    show "msgh_bits (kmsgs st' j) AND MACH_MSGH_BITS_CIRCULAR = 0"
      if "queued st' j \<or> (\<exists>th. handed_to (st', act) th j) \<or> j \<in> set (messages_to st p ?ks) \<or> j \<in> set taken" for j
      using that pl(10) [of j] by (auto simp: mem h st'(3) queued_def)
    show "\<not> queued st' j" if "sends (st', act) y j" for y j using that pl(3) [of y j] unfolding qd s by blast
    show "\<not> handed_to (st', act) z j" if "sends (st', act) y j" for y z j using that pl(4) unfolding h s by blast
    show "z = y" if "sends (st', act) y j" "sends (st', act) z j" for y z j using that pl(5) unfolding s by blast
    show "\<not> queued st' j" if "handed_to (st', act) y j" for y j using that pl(6) [of y j] unfolding h qd by blast
    show "z = y" if "handed_to (st', act) y j" "handed_to (st', act) z j" for y z j using that pl(7) unfolding h by blast
    show "distinct (messages_to st p ?ks)" using pl(1) by simp
  qed
  moreover have "count_ok (st', act) (messages_to st p ?ks) taken"
  proof (rule count_okI)
    fix p' assume "ip_active (ports st' p')"
    then have "ip_active (ports st p')" using active by (cases "p' = p") (auto simp: st')
    from count_okD [OF count_ok_inv [OF inv] this]
    show "unat (ip_msgcount (ports st' p')) = length (messages_to st' p' (imq_messages (mqueues st' (chan st' p')))) +
      length (messages_to st' p' (messages_to st p ?ks)) + length (messages_to st' p' taken) + card (handed (st', act) p')"
      by (cases "p' = p") (auto simp: h' m st'(3) c, auto simp: st' filter_empty_conv)
  qed
  moreover have "send_ok (st', act) (\<lambda>_. 0)"
    by (rule send_ok_frame [OF send_ok_inv [OF inv]]) (auto simp: st')
  moreover have "log_ok (st', act) (messages_to st p ?ks)"
  proof (rule log_okI)
    fix p' assume "ip_active (ports st' p')"
    then have "ip_active (ports st p')" using active by (cases "p' = p") (auto simp: st')
    from log_okD [OF log_ok_inv [OF inv] this]
    show "accepted p' (log st') = handed_over p' (log st') @ messages_to st' p' (imq_messages (mqueues st' (chan st' p'))) @
        messages_to st' p' (messages_to st p ?ks)"
      by (cases "p' = p") (auto simp: m st'(3,4) c filter_empty_conv)
  qed
  ultimately show ?thesis by (simp add: mq_inv_def)
qed

text \<open>Fields the invariant does not mention.\<close>

definition same_queues :: "mq_state \<Rightarrow> mq_state \<Rightarrow> bool" where
  "same_queues st st' \<longleftrightarrow> mqueues st' = mqueues st \<and> threads st' = threads st \<and> kmsgs st' = kmsgs st \<and>
     (\<forall>p. ip_active (ports st' p) = ip_active (ports st p) \<and> ip_pset (ports st' p) = ip_pset (ports st p) \<and>
       ip_msgcount (ports st' p) = ip_msgcount (ports st p) \<and> ip_qlimit (ports st' p) = ip_qlimit (ports st p) \<and>
       ip_blocked (ports st' p) = ip_blocked (ports st p)) \<and>
     (\<forall>p. accepted p (log st') = accepted p (log st) \<and> handed_over p (log st') = handed_over p (log st) \<and>
       discarded p (log st') = discarded p (log st))"

lemma same_queues_refl [simp]: "same_queues st st" by (simp add: same_queues_def)

lemma same_queues_trans: "same_queues st st' \<Longrightarrow> same_queues st' st'' \<Longrightarrow> same_queues st st''"
  by (simp add: same_queues_def)

lemma same_queues_inv:
  assumes "same_queues st st'" "mq_inv (st, act) pend taken"
  shows "mq_inv (st', act) pend taken"
proof -
  have same: "same_messages (st, act) (st', act)"
    using assms(1) by (simp add: same_queues_def same_messages_def handed_to_def sends_def)
  have "recv_ok (st', act)"
    by (rule recv_ok_frame [OF recv_ok_inv [OF assms(2)]])
      (use assms(1) recv_okD(1) [OF recv_ok_inv [OF assms(2)]] in \<open>auto simp: same_queues_def\<close>)
  moreover have "send_ok (st', act) (\<lambda>_. 0)"
    by (rule send_ok_frame [OF send_ok_inv [OF assms(2)]]) (use assms(1) in \<open>auto simp: same_queues_def\<close>)
  ultimately show ?thesis using assms(2) unfolding mq_inv_def same_messages_transfer [OF same] by simp
qed

lemma same_queues_simps [simp]:
  "same_queues st (upd_pset s f st)"
  "same_queues st (ip_release p st)" "same_queues st (ips_release s st)" "same_queues st (ips_reference s st)"
  "same_queues st (ip_check_unlock p st)" "same_queues st (ips_check_unlock s st)"
  "same_queues st (upd_port p (ip_references_update f') st)"
  "same_queues st (upd_port p (ip_mscount_update f') st)"
  "same_queues st (upd_port p (\<lambda>p. p\<lparr>ip_receiver := sp, ip_receiver_name := nm\<rparr>) st)"
  "same_queues st (emit (Kmsg_destroy k) st)" "same_queues st (emit (Kobject_server k) st)"
  by (simp_all add: same_queues_def upd_defs ip_check_unlock_def ips_check_unlock_def)

lemma same_queues_members: "same_queues st st' \<Longrightarrow> members_ok st' = members_ok st"
  by (simp add: same_queues_def members_ok_def)

text \<open>All receivers of a queue are woken with an error.\<close>

lemma wake_receivers_inv:
  assumes "mq_inv (st, act) pend taken" "imq_threads (mqueues st q) = ths"
    "mr \<in> {MACH_RCV_PORT_DIED, MACH_RCV_PORT_CHANGED}"
  shows "mq_inv (wake_receivers q mr ths st, act) pend taken \<and> same_outside q st (wake_receivers q mr ths st) \<and>
    mqueues (wake_receivers q mr ths st) q = (mqueues st q)\<lparr>imq_threads := []\<rparr>"
  using assms
proof (induction ths arbitrary: st)
  case Nil then show ?case by (simp add: same_outside_def)
next
  case (Cons th ths)
  define st1 where "st1 = wake mr th (upd_mqueue q (imq_threads_update (\<lambda>_. ths)) st)"
  have "mq_inv (st1, act) pend taken"
    by (rule inv_kick [OF Cons.prems(1,2), of mr _ "threads st1 th"]) (use Cons.prems(3) in \<open>auto simp: st1_def upd_defs\<close>)
  moreover have "imq_threads (mqueues st1 q) = ths" by (simp add: st1_def upd_defs)
  ultimately have ih: "mq_inv (wake_receivers q mr ths st1, act) pend taken" "same_outside q st1 (wake_receivers q mr ths st1)"
    "mqueues (wake_receivers q mr ths st1) q = (mqueues st1 q)\<lparr>imq_threads := []\<rparr>"
    using Cons.IH [of st1] Cons.prems(3) by auto
  have "same_outside q st st1" "(mqueues st1 q)\<lparr>imq_threads := []\<rparr> = (mqueues st q)\<lparr>imq_threads := []\<rparr>"
    by (simp_all add: st1_def same_outside_def upd_defs)
  then show ?case using ih same_outside_trans by (simp flip: st1_def)
qed

lemmas ipc_mqueue_changed_inv = wake_receivers_inv [OF _ refl, folded ipc_mqueue_changed_def]

lemma place_messages_no_threads:
  "ofold (place_message q) ks st = Some st' \<Longrightarrow> imq_threads (mqueues st q) = [] \<Longrightarrow> imq_threads (mqueues st' q) = []"
  by (induction ks arbitrary: st) (auto simp: place_message_def upd_defs)

text \<open>The move of a port's messages to the queue of its new set, or back.\<close>

lemma change_set_inv:
  assumes inv: "mq_inv (st, act) [] taken" and active: "ip_active (ports st p)"
    and st1: "same_queues (upd_port p (ip_pset_update (\<lambda>_. s)) st) st1"
    and q: "dest = chan st1 p" "dest \<noteq> chan st p"
  shows "\<exists>st'. ipc_mqueue_move dest (chan st p) p st1 = Some st' \<and> mq_inv (st', act) [] taken \<and>
    ports st' = ports st1 \<and> psets st' = psets st1 \<and> ipc_space_kernel st' = ipc_space_kernel st1 \<and>
    messages_to st p (imq_messages (mqueues st' (chan st p))) = [] \<and>
    (\<forall>q. q \<noteq> dest \<or> imq_threads (mqueues st q) = [] \<longrightarrow> imq_threads (mqueues st' q) = imq_threads (mqueues st q))"
proof -
  let ?src = "chan st p" let ?ks = "imq_messages (mqueues st ?src)"
  let ?keep = "filter (\<lambda>k. remote st k \<noteq> p) ?ks"
  let ?st0 = "upd_port p (ip_pset_update (\<lambda>_. s)) st"
  have k1: "kmsgs st1 = kmsgs st" "mqueues st1 = mqueues st" using st1 by (simp_all add: same_queues_def upd_defs)
  have move: "ipc_mqueue_move dest ?src p st1 = ofold (place_message dest) (messages_to st p ?ks) (set_messages ?src ?keep st1)"
    using mqueue_move_loop_eq [OF q(2), of st1 "[]" ?ks p] by (simp add: ipc_mqueue_move_def k1)
  have "mq_inv (set_messages ?src ?keep ?st0, act) (messages_to st p ?ks) taken"
    by (rule inv_extract [OF inv active, of _ s]) (simp_all add: set_messages_def upd_defs)
  moreover have "same_queues (set_messages ?src ?keep ?st0) (set_messages ?src ?keep st1)"
    using st1 by (simp add: same_queues_def set_messages_def upd_defs)
  ultimately have i: "mq_inv (set_messages ?src ?keep st1, act) (messages_to st p ?ks @ []) taken"
    using same_queues_inv by simp
  have "ip_active (ports st1 p)" using st1 active by (simp add: same_queues_def upd_defs)
  moreover have "chan (set_messages ?src ?keep st1) = chan st1" "ports (set_messages ?src ?keep st1) = ports st1"
    "kmsgs (set_messages ?src ?keep st1) = kmsgs st"
    by (simp_all add: set_messages_def upd_defs k1 chan_def fun_eq_iff)
  ultimately have "\<forall>k \<in> set (messages_to st p ?ks). chan (set_messages ?src ?keep st1) (remote (set_messages ?src ?keep st1) k) = dest \<and>
      ip_active (ports (set_messages ?src ?keep st1) (remote (set_messages ?src ?keep st1) k))"
    using q(1) by auto
  from place_messages_inv [OF i this] obtain st' where
    st': "ofold (place_message dest) (messages_to st p ?ks) (set_messages ?src ?keep st1) = Some st'"
    "same_outside dest (set_messages ?src ?keep st1) st'" "mq_inv (st', act) [] taken" by blast
  have d: "imq_threads (mqueues st dest) = [] \<Longrightarrow> imq_threads (mqueues st' dest) = []"
    using place_messages_no_threads [OF st'(1)] q(2) k1 by (simp add: set_messages_def upd_defs)
  have "q' \<noteq> dest \<or> imq_threads (mqueues st q') = [] \<Longrightarrow> imq_threads (mqueues st' q') = imq_threads (mqueues st q')" for q'
    using st'(2) d k1 by (cases "q' = dest") (simp_all add: same_outside_def set_messages_def upd_defs)
  then show ?thesis using st' q(2) k1
    by (auto simp: move same_outside_def set_messages_def upd_defs filter_empty_conv)
qed

definition mq_ok :: "mq_system \<Rightarrow> bool" where
  "mq_ok sys \<longleftrightarrow> mq_inv sys [] [] \<and> members_ok (fst sys)"

lemma same_queues_ok: "same_queues st st' \<Longrightarrow> mq_ok (st, act) \<Longrightarrow> mq_ok (st', act)"
  by (simp add: mq_ok_def same_queues_inv same_queues_members)

lemma chan_eq_simps [simp]:
  "chan st p = Port_messages p' \<longleftrightarrow> p' = p \<and> ip_pset (ports st p) = 0"
  "chan st p = Set_messages s \<longleftrightarrow> s = ip_pset (ports st p) \<and> s \<noteq> 0"
  by (auto simp: chan_def)

lemma ipc_pset_remove_ok:
  assumes ok: "mq_ok (st, act)" and p: "ip_active (ports st p)" "ip_pset (ports st p) = s" "s \<noteq> 0"
  shows "\<exists>st'. ipc_pset_remove s p st = Some st' \<and> mq_ok (st', act) \<and>
    ports st' = ports (upd_port p (ip_pset_update (\<lambda>_. 0)) st) \<and> psets st' = psets (ips_release s st) \<and>
    ipc_space_kernel st' = ipc_space_kernel st \<and> imq_threads (mqueues st' (Port_messages p)) = []"
proof -
  let ?st1 = "ips_release s (upd_port p (ip_pset_update (\<lambda>_. 0)) st)"
  have inv: "mq_inv (st, act) [] []" using ok by (simp add: mq_ok_def)
  have c: "chan st p = Set_messages s" using p by simp
  have c1: "Port_messages p = chan ?st1 p" by (simp add: chan_def upd_defs)
  obtain st' where st': "ipc_mqueue_move (Port_messages p) (Set_messages s) p ?st1 = Some st'" "mq_inv (st', act) [] []"
    "ports st' = ports ?st1" "psets st' = psets ?st1" "ipc_space_kernel st' = ipc_space_kernel ?st1"
    "\<forall>q. q \<noteq> Port_messages p \<or> imq_threads (mqueues st q) = [] \<longrightarrow> imq_threads (mqueues st' q) = imq_threads (mqueues st q)"
    using change_set_inv [OF inv p(1) same_queues_simps(3) c1, unfolded c] by auto
  have t: "imq_threads (mqueues st' (Port_messages p)) = []"
    using ok st'(6) p(2,3) by (simp add: mq_ok_def members_ok_def)
  have "members_ok st'"
    using ok st'(3,6) by (auto simp: mq_ok_def members_ok_def upd_defs)
  then show ?thesis using st'(1-5) p(1,2) t by (simp add: ipc_pset_remove_def Let_def mq_ok_def) (simp add: upd_defs)
qed

lemma ipc_pset_add_ok:
  assumes ok: "mq_ok (st, act)" and p: "ip_active (ports st p)" "ip_pset (ports st p) = 0" "s \<noteq> 0" "ips_active (psets st s)"
  shows "\<exists>st'. ipc_pset_add s p st = Some st' \<and> mq_ok (st', act) \<and> imq_threads (mqueues st' (Port_messages p)) = []"
proof -
  let ?st1 = "ips_reference s (upd_port p (ip_pset_update (\<lambda>_. s)) st)"
  have inv: "mq_inv (st, act) [] []" using ok by (simp add: mq_ok_def)
  have c: "chan st p = Port_messages p" using p by simp
  have c1: "Set_messages s = chan ?st1 p" using p(3) by (simp add: chan_def upd_defs)
  obtain st' where st': "ipc_mqueue_move (Set_messages s) (Port_messages p) p ?st1 = Some st'" "mq_inv (st', act) [] []"
    "ports st' = ports ?st1"
    "\<forall>q. q \<noteq> Set_messages s \<longrightarrow> imq_threads (mqueues st' q) = imq_threads (mqueues st q)"
    using change_set_inv [OF inv p(1) same_queues_simps(4) c1, unfolded c] by auto
  have "\<not> k \<in> set (imq_messages (mqueues st' (Port_messages p)))" for k
    using place_okD(2) [OF place_ok_inv [OF st'(2)], of k "Port_messages p"] st'(3) p(3) by (auto simp: upd_defs)
  then have empty: "imq_messages (mqueues st' (Port_messages p)) = []" by (meson last_in_set)
  let ?st2 = "ipc_mqueue_changed (Port_messages p) MACH_RCV_PORT_CHANGED st'"
  have i: "mq_inv (?st2, act) [] []" "same_outside (Port_messages p) st' ?st2" "imq_threads (mqueues ?st2 (Port_messages p)) = []"
    using ipc_mqueue_changed_inv [OF st'(2), of MACH_RCV_PORT_CHANGED "Port_messages p"] by auto
  have "members_ok ?st2" unfolding members_ok_def
  proof (intro allI impI)
    fix p' assume "ip_pset (ports ?st2 p') \<noteq> 0"
    then show "imq_threads (mqueues ?st2 (Port_messages p')) = []"
      using i(2,3) st'(3,4) ok by (cases "p' = p") (auto simp: same_outside_def mq_ok_def members_ok_def upd_defs)
  qed
  then show ?thesis using st' p i empty by (simp add: ipc_pset_add_def Let_def mq_ok_def)
qed

lemma ipc_pset_move_ok:
  assumes ok: "mq_ok (st, act)" and p: "ip_active (ports st p)" and s: "s = 0 \<or> ips_active (psets st s)"
  shows "\<exists>kr st'. ipc_pset_move p s st = Some (kr, st') \<and> mq_ok (st', act)"
proof -
  let ?o = "ip_pset (ports st p)"
  consider "?o = s" | "?o \<noteq> s" "?o = 0" | "?o \<noteq> 0" "s = 0" | "?o \<noteq> 0" "s \<noteq> 0" "?o \<noteq> s" by blast
  then show ?thesis
  proof cases
    case 1 then show ?thesis using ok p by (simp add: ipc_pset_move_def)
  next
    case 2
    then obtain st' where "ipc_pset_add s p st = Some st'" "mq_ok (st', act)"
      using ipc_pset_add_ok [OF ok p] s by auto
    then show ?thesis using 2 p s by (simp add: ipc_pset_move_def)
  next
    case 3
    then obtain st' where "ipc_pset_remove ?o p st = Some st'" "mq_ok (st', act)"
      using ipc_pset_remove_ok [OF ok p refl] by auto
    then show ?thesis using 3 p same_queues_ok [of st' "ips_check_unlock ?o st'" act] by (auto simp: ipc_pset_move_def Let_def)
  next
    case 4
    then obtain st1 where 1: "ipc_pset_remove ?o p st = Some st1" "mq_ok (st1, act)"
      "ports st1 = ports (upd_port p (ip_pset_update (\<lambda>_. 0)) st)" "psets st1 = psets (ips_release ?o st)"
      using ipc_pset_remove_ok [OF ok p refl] by auto
    have "ip_active (ports st1 p)" "ip_pset (ports st1 p) = 0" "ips_active (psets st1 s)"
      using 1(3,4) p s 4 by (simp_all add: upd_defs)
    then obtain st' where "ipc_pset_add s p st1 = Some st'" "mq_ok (st', act)"
      using ipc_pset_add_ok [OF 1(2)] 4 by blast
    then show ?thesis using 4 1(1) p s same_queues_ok [of st' "ips_check_unlock ?o st'" act] by (auto simp: ipc_pset_move_def Let_def)
  qed
qed

lemma ipc_pset_destroy_ok:
  assumes ok: "mq_ok (st, act)" and s: "ips_active (psets st s)"
  shows "\<exists>st'. ipc_pset_destroy s st = Some st' \<and> mq_ok (st', act)"
proof -
  let ?st1 = "upd_pset s (ips_active_update (\<lambda>_. False)) st"
  let ?st2 = "ipc_mqueue_changed (Set_messages s) MACH_RCV_PORT_DIED ?st1"
  have "mq_ok (?st1, act)" by (rule same_queues_ok [OF _ ok]) simp
  then have i: "mq_inv (?st1, act) [] []" "members_ok ?st1" by (simp_all add: mq_ok_def)
  have "mq_inv (?st2, act) [] [] \<and> same_outside (Set_messages s) ?st1 ?st2"
    using ipc_mqueue_changed_inv [OF i(1), of MACH_RCV_PORT_DIED "Set_messages s"] by blast
  then have "mq_ok (?st2, act)" using i(2) by (simp add: mq_ok_def members_ok_def same_outside_def)
  then have "mq_ok (ips_check_unlock s (ips_release s ?st2), act)"
    by (rule same_queues_ok [rotated]) (rule same_queues_trans [of _ "ips_release s ?st2"], simp_all)
  then show ?thesis using s by (simp add: ipc_pset_destroy_def Let_def)
qed

lemma ipc_port_clear_receiver_ok:
  assumes ok: "mq_ok (st, act)" and p: "ip_active (ports st p)"
  shows "\<exists>st'. ipc_port_clear_receiver p st = Some st' \<and> mq_ok (st', act) \<and> ip_active (ports st' p) \<and> ip_pset (ports st' p) = 0 \<and>
    ip_mscount (ports st' p) = 0 \<and> imq_threads (mqueues st' (Port_messages p)) = []"
proof (cases "ip_pset (ports st p) = 0")
  case True
  let ?st1 = "ipc_mqueue_changed (Port_messages p) MACH_RCV_PORT_DIED st"
  have 1: "mq_inv (?st1, act) [] [] \<and> same_outside (Port_messages p) st ?st1 \<and> imq_threads (mqueues ?st1 (Port_messages p)) = []"
    using ipc_mqueue_changed_inv [of st act "[]" "[]" MACH_RCV_PORT_DIED "Port_messages p"] ok by (simp add: mq_ok_def)
  then have "mq_ok (?st1, act)" using ok by (simp add: mq_ok_def members_ok_def same_outside_def) metis
  then have "mq_ok (upd_port p (ip_mscount_update (\<lambda>_. 0)) ?st1, act)" by (rule same_queues_ok [rotated]) simp
  then show ?thesis using True p 1 by (simp add: ipc_port_clear_receiver_def) (simp add: upd_defs same_outside_def)
next
  case False
  then obtain st1 where 1: "ipc_pset_remove (ip_pset (ports st p)) p st = Some st1" "mq_ok (st1, act)"
    "ports st1 = ports (upd_port p (ip_pset_update (\<lambda>_. 0)) st)" "imq_threads (mqueues st1 (Port_messages p)) = []"
    using ipc_pset_remove_ok [OF ok p refl] by auto
  let ?st2 = "ips_check_unlock (ip_pset (ports st p)) st1"
  have "mq_ok (upd_port p (ip_mscount_update (\<lambda>_. 0)) ?st2, act)"
    by (rule same_queues_ok [OF _ 1(2)]) (rule same_queues_trans [of _ ?st2], simp_all)
  then show ?thesis using False p 1(1,3,4)
    by (simp add: ipc_port_clear_receiver_def Let_def) (simp add: upd_defs ips_check_unlock_def)
qed

end
