(* ===== verification/Ipc_Mqueue_Ops.thy ===== *)
theory Ipc_Mqueue_Ops
  imports Ipc_Mqueue_Inv
begin

text \<open>
  The operations that wake senders, send, receive and destroy keep the invariant of message
  queues; the properties of every reachable state of a system of sending and receiving threads.
\<close>

subsection \<open>Waking senders\<close>

lemma inv_wake_sender:
  assumes inv: "mq_inv (st, act) pend taken" and b: "ip_blocked (ports st p) = th # ths"
    and st': "ports st' = (ports st)(p := (ports st p)\<lparr>ip_blocked := ths\<rparr>)"
      "threads st' = (threads st)(th := (threads st th)\<lparr>ith_state := MACH_MSG_SUCCESS\<rparr>)"
      "mqueues st' = mqueues st" "kmsgs st' = kmsgs st" "log st' = log st @ [Thread_go th]"
  shows "mq_inv (st', act) pend taken" and "card (woken (st', act) p) = Suc (card (woken (st, act) p))"
proof -
  note sd = send_okD [OF send_ok_inv [OF inv]]
  obtain k opt t where a: "act th = Sending k opt t" "remote st k = p" and w: "ith_state (threads st th) = MACH_SEND_IN_PROGRESS"
    using sd(2) [of th p] b by auto
  have same: "same_messages (st, act) (st', act)"
    using a by (auto simp: same_messages_def handed_to_def sends_def st')
  have "recv_ok (st', act)"
    by (rule recv_ok_frame [OF recv_ok_inv [OF inv]])
      (use a recv_okD(1) [OF recv_ok_inv [OF inv]] in \<open>auto simp: st'\<close>)
  moreover have wk: "woken (st', act) p' = (if p' = p then insert th (woken (st, act) p) else woken (st, act) p')" for p'
    using a by (auto simp: woken_def sends_def st')
  have new: "th \<notin> woken (st, act) p" using w by (simp add: woken_def)
  have only: "th \<in> set (ip_blocked (ports st p')) \<Longrightarrow> p' = p" for p' using sd(2) [of th p'] a by simp
  have bl: "y \<in> set (ip_blocked (ports st' p')) \<longleftrightarrow> y \<noteq> th \<and> y \<in> set (ip_blocked (ports st p'))" for y p'
  proof (cases "p' = p")
    case True then show ?thesis using b sd(1) [of p] by (auto simp: st'(1))
  next
    case False
    then have "th \<notin> set (ip_blocked (ports st p'))" using only by blast
    then show ?thesis using False by (auto simp: st'(1))
  qed
  have "send_ok (st', act) (\<lambda>_. 0)"
  proof (rule send_okI)
    show "distinct (ip_blocked (ports st' p'))" for p' using sd(1) [of p'] b by (auto simp: st')
    show "y \<in> set (ip_blocked (ports st' p')) \<longleftrightarrow> (\<exists>k opt t. act y = Sending k opt t \<and> remote st' k = p') \<and>
        ith_state (threads st' y) = MACH_SEND_IN_PROGRESS" for p' y
      unfolding bl sd(2) by (auto simp: st')
    show "ith_state (threads st' y) \<in> {MACH_MSG_SUCCESS, MACH_SEND_IN_PROGRESS}" if "act y = Sending k opt t" for y k opt t
      using sd(3) [OF that] by (simp add: st')
    show "ip_blocked (ports st' p') = []" if "\<not> ip_active (ports st' p')" for p'
      using that sd(4) [of p'] b by (auto simp: st' split: if_splits)
    show "unat (ip_qlimit (ports st' p')) \<le> unat (ip_msgcount (ports st' p')) + card (woken (st', act) p') + 0 + length (discarded p' (log st'))"
      if "ip_active (ports st' p')" "ip_blocked (ports st' p') \<noteq> []" for p'
      using sd(5) [of p'] that new b by (auto simp: st' wk split: if_splits)
  qed
  ultimately show "mq_inv (st', act) pend taken" using inv unfolding mq_inv_def same_messages_transfer [OF same] by simp
  show "card (woken (st', act) p) = Suc (card (woken (st, act) p))" using new by (simp add: wk)
qed

lemma wake_senders_inv:
  assumes "mq_inv (st, act) pend taken"
  shows "mq_inv (wake_senders p n st, act) pend taken \<and>
    mqueues (wake_senders p n st) = mqueues st \<and> kmsgs (wake_senders p n st) = kmsgs st \<and> psets (wake_senders p n st) = psets st \<and>
    (\<forall>p'. p' \<noteq> p \<longrightarrow> ports (wake_senders p n st) p' = ports st p') \<and>
    ports (wake_senders p n st) p = (ports st p)\<lparr>ip_blocked := drop n (ip_blocked (ports st p))\<rparr> \<and>
    discarded p (log (wake_senders p n st)) = discarded p (log st) \<and>
    card (woken (wake_senders p n st, act) p) = card (woken (st, act) p) + min n (length (ip_blocked (ports st p)))"
  using assms
proof (induction n arbitrary: st)
  case (Suc n)
  show ?case
  proof (cases "ip_blocked (ports st p)")
    case Nil then show ?thesis using Suc.prems by simp
  next
    case (Cons th ths)
    define st1 where "st1 = wake MACH_MSG_SUCCESS th (upd_port p (ip_blocked_update (\<lambda>_. ths)) st)"
    have 1: "mq_inv (st1, act) pend taken" "card (woken (st1, act) p) = Suc (card (woken (st, act) p))"
      by (rule inv_wake_sender [OF Suc.prems Cons]; simp add: st1_def upd_defs)+
    have "wake_senders p (Suc n) st = wake_senders p n st1" using Cons by (simp add: st1_def)
    with Suc.IH [OF 1(1)] 1(2) Cons show ?thesis by (simp add: st1_def upd_defs)
  qed
qed simp

text \<open>Changing the limit of a port.\<close>

lemma send_ok_qlimit:
  assumes "send_ok (st, act) x" 
    and "ip_blocked (ports st p) \<noteq> [] \<Longrightarrow> 
      unat l \<le> unat (ip_msgcount (ports st p)) + card (woken (st, act) p) + x p + length (discarded p (log st))"
  shows "send_ok (upd_port p (ip_qlimit_update (\<lambda>_. l)) st, act) x"
proof (rule send_okI)
  let ?st = "upd_port p (ip_qlimit_update (\<lambda>_. l)) st"
  note sd = send_okD [OF assms(1)]
  have w: "woken (?st, act) = woken (st, act)" by (simp add: woken_def sends_def upd_defs fun_eq_iff)
  have b: "ip_blocked (ports ?st p') = ip_blocked (ports st p')" for p' by (simp add: upd_defs)
  show "y \<in> set (ip_blocked (ports ?st p')) \<longleftrightarrow> (\<exists>k opt t. act y = Sending k opt t \<and> remote ?st k = p') \<and>
        ith_state (threads ?st y) = MACH_SEND_IN_PROGRESS" for p' y
    unfolding b sd(2) by (simp add: upd_defs)
  show "unat (ip_qlimit (ports ?st p')) \<le> unat (ip_msgcount (ports ?st p')) + card (woken (?st, act) p') + x p' + length (discarded p' (log ?st))"
    if "ip_active (ports ?st p')" "ip_blocked (ports ?st p') \<noteq> []" for p'
    using that sd(5) [of p'] assms(2) unfolding w b by (auto simp: upd_defs split: if_splits)
qed (use send_okD(1,3,4) [OF assms(1)] in \<open>auto simp: upd_defs\<close>)

lemma inv_qlimit:
  assumes inv: "mq_inv (st, act) pend taken"
    and "ip_blocked (ports st p) \<noteq> [] \<Longrightarrow> 
      unat l \<le> unat (ip_msgcount (ports st p)) + card (woken (st, act) p) + length (discarded p (log st))"
  shows "mq_inv (upd_port p (ip_qlimit_update (\<lambda>_. l)) st, act) pend taken"
proof -
  let ?st = "upd_port p (ip_qlimit_update (\<lambda>_. l)) st"
  have same: "same_messages (st, act) (?st, act)"
    by (simp add: same_messages_def handed_to_def sends_def upd_defs)
  have "recv_ok (?st, act)"
    by (rule recv_ok_frame [OF recv_ok_inv [OF inv]])
      (use recv_okD(1) [OF recv_ok_inv [OF inv]] in \<open>auto simp: upd_defs\<close>)
  then show ?thesis
    using inv send_ok_qlimit [OF send_ok_inv [OF inv], of p l] assms(2)
    unfolding mq_inv_def same_messages_transfer [OF same] by simp
qed

lemma ipc_port_set_qlimit_ok:
  assumes ok: "mq_ok (st, act)" and p: "ip_active (ports st p)" "l \<le> MACH_PORT_QLIMIT_MAX"
  shows "\<exists>st'. ipc_port_set_qlimit p l st = Some st' \<and> mq_ok (st', act)"
proof -
  have inv: "mq_inv (st, act) [] []" using ok by (simp add: mq_ok_def)
  note F = send_okD(5) [OF send_ok_inv [OF inv] p(1)]
  define st1 where "st1 = (if l > ip_qlimit (ports st p) then wake_senders p (unat (l - ip_qlimit (ports st p))) st else st)"
  have "mq_inv (upd_port p (ip_qlimit_update (\<lambda>_. l)) st1, act) [] [] \<and> members_ok st1"
  proof (cases "l > ip_qlimit (ports st p)")
    case True
    define n where "n = unat (l - ip_qlimit (ports st p))"
    have n: "unat (ip_qlimit (ports st p)) + n = unat l"
      using True unfolding n_def by (simp add: unat_sub_if' word_less_nat_alt less_imp_le)
    have s: "st1 = wake_senders p n st" using True by (simp add: st1_def n_def)
    note w = wake_senders_inv [OF inv, of p n, folded s]
    have "mq_inv (upd_port p (ip_qlimit_update (\<lambda>_. l)) st1, act) [] []"
    proof (rule inv_qlimit)
      assume ne: "ip_blocked (ports st1 p) \<noteq> []"
      then have "n < length (ip_blocked (ports st p))" "ip_blocked (ports st p) \<noteq> []" using w by auto
      then show "unat l \<le> unat (ip_msgcount (ports st1 p)) + card (woken (st1, act) p) + length (discarded p (log st1))"
        using w F n by auto
    qed (use w in simp)
    moreover have "ip_pset (ports st1 p') = ip_pset (ports st p')" for p' using w by (cases "p' = p") auto
    then have "members_ok st1" using ok w by (simp add: mq_ok_def members_ok_def)
    ultimately show ?thesis by simp
  next
    case False
    then have "unat l \<le> unat (ip_qlimit (ports st p))" by (simp add: word_less_nat_alt)
    then have "mq_inv (upd_port p (ip_qlimit_update (\<lambda>_. l)) st, act) [] []"
      using F by (intro inv_qlimit [OF inv]) auto
    then show ?thesis using False ok by (simp add: st1_def mq_ok_def)
  qed
  then have "mq_ok (upd_port p (ip_qlimit_update (\<lambda>_. l)) st1, act)" by (simp add: mq_ok_def members_ok_def upd_defs)
  then show ?thesis using p by (simp add: ipc_port_set_qlimit_def Let_def st1_def)
qed

subsection \<open>Destruction of a port\<close>

text \<open>A port with no blocked senders becomes inactive and its messages go.\<close>

lemma inv_deactivate:
  assumes inv: "mq_inv (st, act) [] []" and b: "ip_blocked (ports st p) = []"
    and st': "ports st' = (ports st)(p := p')" "\<not> ip_active p'" "ip_blocked p' = []" "ip_pset p' = 0"
      "mqueues st' = (mqueues st)(Port_messages p := (mqueues st (Port_messages p))\<lparr>imq_messages := []\<rparr>)"
      "threads st' = threads st" "log st' = log st @ es" "\<And>p. accepted p es = []" "\<And>p. handed_over p es = []" "\<And>p. discarded p es = []"
      "\<And>k. kmsgs st' k = (if k \<in> set (imq_messages (mqueues st (Port_messages p)))
         then (kmsgs st k)\<lparr>msgh_remote_port := 0\<rparr> else kmsgs st k)"
    and pset: "ip_pset (ports st p) = 0"
  shows "mq_inv (st', act) [] []"
proof -
  note r = recv_ok_inv [OF inv] and pl = place_okD [OF place_ok_inv [OF inv]] and sd = send_okD [OF send_ok_inv [OF inv]]
  let ?ks = "imq_messages (mqueues st (Port_messages p))"
  have c: "chan st' x = chan st x" for x using pset st'(4) by (simp add: chan_def st'(1))
  have ks: "queued st k" if "k \<in> set ?ks" for k using that by (auto simp: queued_def)
  have h: "handed_to (st', act) y j = handed_to (st, act) y j" for y j by (simp add: handed_to_def st'(6))
  have s: "sends (st', act) y j \<longleftrightarrow> sends (st, act) y j" for y j by (simp add: sends_def)
  have rh: "handed_to (st, act) y j \<Longrightarrow> kmsgs st' j = kmsgs st j" for y j using pl(6) [of y j] ks [of j] by (auto simp: st'(11))
  have rs: "sends (st, act) y j \<Longrightarrow> kmsgs st' j = kmsgs st j" for y j using pl(3) [of y j] ks [of j] by (auto simp: st'(11))
  have mem: "j \<in> set (imq_messages (mqueues st' q)) \<longleftrightarrow> j \<in> set (imq_messages (mqueues st q)) \<and> q \<noteq> Port_messages p" for j q
    by (simp add: st'(5))
  have other: "j \<in> set (imq_messages (mqueues st q)) \<Longrightarrow> q \<noteq> Port_messages p \<Longrightarrow> kmsgs st' j = kmsgs st j \<and> remote st j \<noteq> p" for j q
    using pl(2) [of j q] pl(2) [of j "Port_messages p"] pset by (auto simp: st'(11))
  have qd: "queued st' j \<Longrightarrow> queued st j \<and> kmsgs st' j = kmsgs st j" for j using other by (auto simp: queued_def mem)
  have h': "handed (st', act) x = handed (st, act) x" for x using rh by (auto simp: handed_def h)
  have mq: "x \<noteq> p \<Longrightarrow> messages_to st' x (imq_messages (mqueues st' (chan st' x))) = messages_to st x (imq_messages (mqueues st (chan st x)))" for x
  proof -
    assume "x \<noteq> p"
    then have n: "chan st x \<noteq> Port_messages p" by simp
    have "mqueues st' (chan st x) = mqueues st (chan st x)" unfolding st'(5) by (rule fun_upd_other [OF n])
    then show ?thesis unfolding c using other [OF _ n] by (simp cong: filter_cong)
  qed
  have "recv_ok (st', act)"
  proof (rule recv_ok_frame [OF r])
    show "msgh_size (kmsgs st' (ith_data (threads st th))) = msgh_size (kmsgs st (ith_data (threads st th)))" for th
      by (simp add: st'(11))
  qed (use recv_okD(1) [OF r] in \<open>auto simp: st'(5,6) split: if_splits\<close>)
  moreover have "place_ok (st', act) [] []"
  proof (rule place_okI)
    show "distinct (imq_messages (mqueues st' q))" for q using pl(1) by (simp add: st'(5))
    show "chan st' (remote st' j) = q \<and> ip_active (ports st' (remote st' j))" if "j \<in> set (imq_messages (mqueues st' q))" for j q
      using that other [of j q] pl(2) [of j q] by (auto simp: mem c st'(1))
    show "\<not> queued st' j" if "sends (st', act) y j" for y j using that pl(3) qd unfolding s by blast
    show "\<not> handed_to (st', act) z j" if "sends (st', act) y j" for y z j using that pl(4) unfolding h s by blast
    show "z = y" if "sends (st', act) y j" "sends (st', act) z j" for y z j using that pl(5) unfolding s by blast
    show "\<not> queued st' j" if "handed_to (st', act) y j" for y j using that pl(6) qd unfolding h by blast
    show "z = y" if "handed_to (st', act) y j" "handed_to (st', act) z j" for y z j using that pl(7) unfolding h by blast
    show "msgh_bits (kmsgs st' j) AND MACH_MSGH_BITS_CIRCULAR = 0"
      if "queued st' j \<or> (\<exists>th. handed_to (st', act) th j) \<or> j \<in> set [] \<or> j \<in> set []" for j
      using that pl(10) [of j] qd [of j] by (auto simp: h st'(11))
  qed auto
  moreover have "count_ok (st', act) [] []"
  proof (rule count_okI)
    fix x assume "ip_active (ports st' x)"
    then have "x \<noteq> p" "ip_active (ports st x)" using st'(2) by (auto simp: st'(1) split: if_splits)
    with count_okD [OF count_ok_inv [OF inv], of x] show "unat (ip_msgcount (ports st' x)) =
        length (messages_to st' x (imq_messages (mqueues st' (chan st' x)))) + length (messages_to st' x []) +
        length (messages_to st' x []) + card (handed (st', act) x)"
      by (simp add: mq h' st'(1))
  qed
  moreover have "send_ok (st', act) (\<lambda>_. 0)"
  proof (rule send_okI)
    have bl: "ip_blocked (ports st' x) = ip_blocked (ports st x)" for x using b st'(3) by (simp add: st'(1))
    have w: "woken (st', act) x = woken (st, act) x" for x using rs by (auto simp: woken_def s st'(6))
    have "(\<exists>k opt t. act y = Sending k opt t \<and> remote st' k = x) \<longleftrightarrow> (\<exists>k opt t. act y = Sending k opt t \<and> remote st k = x)" for x y
      using rs unfolding sends_def snd_conv by metis
    then show "y \<in> set (ip_blocked (ports st' x)) \<longleftrightarrow> (\<exists>k opt t. act y = Sending k opt t \<and> remote st' k = x) \<and>
        ith_state (threads st' y) = MACH_SEND_IN_PROGRESS" for x y
      unfolding bl sd(2) by (simp add: st'(6))
    show "unat (ip_qlimit (ports st' x)) \<le> unat (ip_msgcount (ports st' x)) + card (woken (st', act) x) + 0 + length (discarded x (log st'))"
      if "ip_active (ports st' x)" "ip_blocked (ports st' x) \<noteq> []" for x
      using that sd(5) [of x] st'(2) unfolding bl w by (auto simp: st'(1,7,10) split: if_splits)
    show "distinct (ip_blocked (ports st' x))" for x unfolding bl by (rule sd(1))
    show "ip_blocked (ports st' x) = []" if "\<not> ip_active (ports st' x)" for x
      using that sd(4) [of x] b unfolding bl by (cases "x = p") (auto simp: st'(1))
  qed (use sd(3) st'(6) in simp)
  moreover have "log_ok (st', act) []"
  proof (rule log_okI)
    fix x assume "ip_active (ports st' x)"
    then have "x \<noteq> p" "ip_active (ports st x)" using st'(2) by (auto simp: st'(1) split: if_splits)
    with log_okD [OF log_ok_inv [OF inv], of x] show "accepted x (log st') = handed_over x (log st') @
        messages_to st' x (imq_messages (mqueues st' (chan st' x))) @ messages_to st' x []"
      by (simp add: mq st'(7-9))
  qed
  ultimately show ?thesis by (simp add: mq_inv_def)
qed

lemma destroy_messages_eq:
  assumes "\<forall>k \<in> set ks. remote st k = p" "distinct ks" "imq_messages (mqueues st (Port_messages p)) = ks"
  shows "\<exists>st' es p'. destroy_messages p ks st = Some st' \<and> ports st' = (ports st)(p := p') \<and>
    ip_active p' = ip_active (ports st p) \<and> ip_blocked p' = ip_blocked (ports st p) \<and> ip_pset p' = ip_pset (ports st p) \<and>
    mqueues st' = (mqueues st)(Port_messages p := (mqueues st (Port_messages p))\<lparr>imq_messages := []\<rparr>) \<and>
    threads st' = threads st \<and> log st' = log st @ es \<and>
    (\<forall>p. accepted p es = [] \<and> handed_over p es = [] \<and> discarded p es = []) \<and>
    (\<forall>k. kmsgs st' k = (if k \<in> set ks then (kmsgs st k)\<lparr>msgh_remote_port := 0\<rparr> else kmsgs st k))"
  using assms
proof (induction ks arbitrary: st)
  case Nil
  then show ?case by (intro exI [of _ st] exI [of _ "[]"] exI [of _ "ports st p"]) (auto simp: fun_upd_idem)
next
  case (Cons k ks)
  define st0 where "st0 = ip_release p (upd_mqueue (Port_messages p) (imq_messages_update (\<lambda>_. ks)) st)"
  define st1 where "st1 = emit (Kmsg_destroy k) (upd_kmsg k (msgh_remote_port_update (\<lambda>_. 0)) (ip_check_unlock p st0))"
  obtain es1 where es1: "log st1 = log st @ es1" "\<forall>p. accepted p es1 = [] \<and> handed_over p es1 = [] \<and> discarded p es1 = []"
    by (cases "ip_references (ports st0 p) = 0") (auto simp: st1_def st0_def upd_defs ip_check_unlock_def)
  have f: "ports st1 = (ports st)(p := ip_references_update (\<lambda>n. n - 1) (ports st p))"
    "mqueues st1 = (mqueues st)(Port_messages p := (mqueues st (Port_messages p))\<lparr>imq_messages := ks\<rparr>)"
    "threads st1 = threads st" "kmsgs st1 = (kmsgs st)(k := (kmsgs st k)\<lparr>msgh_remote_port := 0\<rparr>)"
    by (simp_all add: st1_def st0_def upd_defs ip_check_unlock_def)
  have r: "\<forall>j \<in> set ks. remote st1 j = p" "distinct ks" "imq_messages (mqueues st1 (Port_messages p)) = ks"
    using Cons.prems(1,2) by (auto simp: f)
  from Cons.IH [OF r] obtain st' es p' where ih: "destroy_messages p ks st1 = Some st'" "ports st' = (ports st1)(p := p')"
    "ip_active p' = ip_active (ports st1 p)" "ip_blocked p' = ip_blocked (ports st1 p)" "ip_pset p' = ip_pset (ports st1 p)"
    "mqueues st' = (mqueues st1)(Port_messages p := (mqueues st1 (Port_messages p))\<lparr>imq_messages := []\<rparr>)"
    "threads st' = threads st1" "log st' = log st1 @ es"
    "\<forall>p. accepted p es = [] \<and> handed_over p es = [] \<and> discarded p es = []"
    "\<forall>j. kmsgs st' j = (if j \<in> set ks then (kmsgs st1 j)\<lparr>msgh_remote_port := 0\<rparr> else kmsgs st1 j)"
    by blast
  have "destroy_messages p (k # ks) st = destroy_messages p ks st1"
    using Cons.prems(1) by (simp add: st1_def st0_def Let_def) (simp add: upd_defs)
  then show ?case using ih es1 Cons.prems(2)
    by (intro exI [of _ st'] exI [of _ "es1 @ es"] exI [of _ p']) (auto simp: f)
qed

lemma port_queues_destroy_ok:
  assumes ok: "mq_ok (st, act)" and p: "ip_active (ports st p)" "ip_pset (ports st p) = 0" "ip_mscount (ports st p) = 0"
    "imq_threads (mqueues st (Port_messages p)) = []"
  shows "\<exists>st'. port_queues_destroy p st = Some st' \<and> mq_ok (st', act)"
proof -
  have inv: "mq_inv (st, act) [] []" using ok by (simp add: mq_ok_def)
  define st1 where "st1 = wake_senders p (length (ip_blocked (ports st p))) st"
  define ts where "ts = ipc_port_timestamp_data st1"
  define st2 where "st2 = upd_port p (\<lambda>x. x\<lparr>ip_active := False, ip_receiver := ts\<rparr>) (st1\<lparr>ipc_port_timestamp_data := ts + 1\<rparr>)"
  let ?ks = "imq_messages (mqueues st (Port_messages p))"
  note w = wake_senders_inv [OF inv, of p "length (ip_blocked (ports st p))", folded st1_def]
  have ks: "k \<in> set ?ks \<Longrightarrow> remote st k = p" for k
    using place_okD(2) [OF place_ok_inv [OF inv], of k "Port_messages p"] by simp
  have f: "mqueues st2 = mqueues st" "kmsgs st2 = kmsgs st" "log st2 = log st1" "threads st2 = threads st1"
    "ports st2 = (ports st1)(p := (ports st p)\<lparr>ip_blocked := [], ip_active := False, ip_receiver := ts\<rparr>)"
    using w by (simp_all add: st2_def upd_defs)
  have "distinct ?ks" by (rule place_okD(1) [OF place_ok_inv [OF inv]])
  with destroy_messages_eq [of ?ks st2 p] ks obtain st' es p' where d: "destroy_messages p ?ks st2 = Some st'"
    "ports st' = (ports st1)(p := p')" "\<not> ip_active p'" "ip_blocked p' = []" "ip_pset p' = 0"
    "mqueues st' = (mqueues st1)(Port_messages p := (mqueues st1 (Port_messages p))\<lparr>imq_messages := []\<rparr>)"
    "threads st' = threads st1" "log st' = log st1 @ es"
    "\<forall>p. accepted p es = [] \<and> handed_over p es = [] \<and> discarded p es = []"
    "\<forall>k. kmsgs st' k = (if k \<in> set ?ks then (kmsgs st1 k)\<lparr>msgh_remote_port := 0\<rparr> else kmsgs st1 k)"
    using p(2) w by (auto simp: f)
  have "mq_inv (st', act) [] []"
    by (rule inv_deactivate [of st1 act p st' p' es]) (use w d p(2) in auto)
  moreover have "members_ok st'"
  proof -
    have "ip_pset (ports st' x) \<noteq> 0 \<Longrightarrow> x \<noteq> p \<and> ip_pset (ports st x) \<noteq> 0" for x using d(2,5) w by (cases "x = p") auto
    moreover have "mqueues st1 = mqueues st" using w by simp
    ultimately show ?thesis using ok d(6) by (auto simp: mq_ok_def members_ok_def)
  qed
  moreover have "port_queues_destroy p st = Some st'"
    using p d(1) by (simp add: port_queues_destroy_def Let_def flip: st1_def) (simp add: f flip: st2_def ts_def)
  ultimately show ?thesis by (simp add: mq_ok_def)
qed

subsection \<open>Sending\<close>

text \<open>The invariant while a sender to \<open>p\<close> runs that may have been woken.\<close>

definition mq_inv1 :: "mq_system \<Rightarrow> addr \<Rightarrow> bool" where
  "mq_inv1 sys p \<longleftrightarrow>
     recv_ok sys \<and> place_ok sys [] [] \<and> count_ok sys [] [] \<and> send_ok sys ((\<lambda>_. 0)(p := 1)) \<and> log_ok sys []"

lemma send_ok_mono:
  assumes "send_ok (st, act) x"
    and "\<And>p. ip_active (ports st p) \<Longrightarrow> x p \<le> y p \<or> unat (ip_qlimit (ports st p)) \<le> unat (ip_msgcount (ports st p))"
  shows "send_ok (st, act) y"
proof (rule send_okI)
  note sd = send_okD [OF assms(1)]
  show "unat (ip_qlimit (ports st p)) \<le> unat (ip_msgcount (ports st p)) + card (woken (st, act) p) + y p + length (discarded p (log st))"
    if "ip_active (ports st p)" "ip_blocked (ports st p) \<noteq> []" for p
    using sd(5) [OF that] assms(2) [OF that(1)] by linarith
qed (rule send_okD [OF assms(1)]; assumption)+

lemma mq_inv1_weaken: "mq_inv (st, act) [] [] \<Longrightarrow> mq_inv1 (st, act) p"
  unfolding mq_inv_def mq_inv1_def using send_ok_mono [of st act "\<lambda>_. 0" "(\<lambda>_. 0)(p := 1)"] by simp

lemma mq_inv1_full:
  assumes "mq_inv1 (st, act) p" "ip_active (ports st p) \<Longrightarrow> unat (ip_qlimit (ports st p)) \<le> unat (ip_msgcount (ports st p))"
  shows "mq_inv (st, act) [] []"
proof -
  have "send_ok (st, act) (\<lambda>_. 0)"
    by (rule send_ok_mono [of st act "(\<lambda>_. 0)(p := 1)"]) (use assms in \<open>auto simp: mq_inv1_def\<close>)
  then show ?thesis using assms(1) by (simp add: mq_inv_def mq_inv1_def)
qed

text \<open>A sender that was woken runs again.\<close>

lemma inv_resume_woken:
  assumes inv: "mq_inv (st, act) [] []" and a: "act th = Sending k opt t" and w: "ith_state (threads st th) = MACH_MSG_SUCCESS"
  shows "mq_inv1 (st, act(th := Idle)) (remote st k)" and "\<not> in_flight (st, act(th := Idle)) k"
proof -
  let ?act = "act(th := Idle)"
  note pl = place_okD [OF place_ok_inv [OF inv]] and sd = send_okD [OF send_ok_inv [OF inv]]
  have h: "handed_to (st, ?act) y j = handed_to (st, act) y j" for y j using a by (auto simp: handed_to_def)
  have h': "handed (st, ?act) p = handed (st, act) p" for p by (simp add: handed_def h)
  have s: "sends (st, ?act) y j \<longleftrightarrow> y \<noteq> th \<and> sends (st, act) y j" for y j by (simp add: sends_def)
  have sk: "sends (st, act) th k" using a by (simp add: sends_def)
  show "\<not> in_flight (st, ?act) k"
    using pl(3-5) sk by (auto simp: in_flight_def h s)
  have "recv_ok (st, ?act)"
    by (rule recv_ok_frame [OF recv_ok_inv [OF inv]])
      (use a recv_okD(1) [OF recv_ok_inv [OF inv]] in auto)
  moreover have "place_ok (st, ?act) [] []"
  proof (rule place_okI)
    show "z = y" if "sends (st, ?act) y j" "sends (st, ?act) z j" for y z j using that pl(5) unfolding s by blast
    show "\<not> queued st j" if "sends (st, ?act) y j" for y j using that pl(3) unfolding s by blast
    show "\<not> handed_to (st, ?act) z j" if "sends (st, ?act) y j" for y z j using that pl(4) unfolding h s by blast
  qed (use pl(1,2,6,7,10) in \<open>auto simp: h\<close>)
  moreover have "count_ok (st, ?act) [] []" using count_ok_inv [OF inv] by (simp add: count_ok_def h')
  moreover have "log_ok (st, ?act) []" using log_ok_inv [OF inv] by (simp add: log_ok_def)
  moreover have "send_ok (st, ?act) ((\<lambda>_. 0)(remote st k := 1))"
  proof (rule send_okI)
    have wk: "woken (st, ?act) p = (if p = remote st k then woken (st, act) p - {th} else woken (st, act) p)" for p
      using a by (auto simp: woken_def sends_def)
    have "th \<in> woken (st, act) (remote st k)" using sk w by (auto simp: woken_def)
    then have card: "card (woken (st, act) (remote st k)) = Suc (card (woken (st, act) (remote st k) - {th}))"
      by (intro card.remove) simp_all
    show "y \<in> set (ip_blocked (ports st p)) \<longleftrightarrow> (\<exists>k opt t. ?act y = Sending k opt t \<and> remote st k = p) \<and>
        ith_state (threads st y) = MACH_SEND_IN_PROGRESS" for p y
      unfolding sd(2) using w by auto
    show "unat (ip_qlimit (ports st p)) \<le> unat (ip_msgcount (ports st p)) + card (woken (st, ?act) p) +
        ((\<lambda>_. 0)(remote st k := 1)) p + length (discarded p (log st))"
      if "ip_active (ports st p)" "ip_blocked (ports st p) \<noteq> []" for p
      using sd(5) [OF that] card by (auto simp: wk)
    show "ith_state (threads st y) \<in> {MACH_MSG_SUCCESS, MACH_SEND_IN_PROGRESS}" if "?act y = Sending k opt t" for y k opt t
      using that sd(3) by (simp split: if_splits)
  qed (use sd(1,4) in auto)
  ultimately show "mq_inv1 (st, ?act) (remote st k)" by (simp add: mq_inv1_def)
qed

text \<open>A sender that was not woken leaves the queue.\<close>

lemma inv_resume_blocked:
  assumes inv: "mq_inv (st, act) [] []" and a: "act th = Sending k opt t" and w: "ith_state (threads st th) = MACH_SEND_IN_PROGRESS"
  defines "p \<equiv> remote st k"
  shows "th \<in> set (ip_blocked (ports st p))"
    and "mq_inv (upd_port p (ip_blocked_update (remove1 th)) st, act(th := Idle)) [] []"
    and "\<not> in_flight (upd_port p (ip_blocked_update (remove1 th)) st, act(th := Idle)) k"
proof -
  let ?st = "upd_port p (ip_blocked_update (remove1 th)) st" let ?act = "act(th := Idle)"
  note pl = place_okD [OF place_ok_inv [OF inv]] and sd = send_okD [OF send_ok_inv [OF inv]]
  have f: "mqueues ?st = mqueues st" "threads ?st = threads st" "kmsgs ?st = kmsgs st" "log ?st = log st"
    "ip_active (ports ?st x) = ip_active (ports st x)" "ip_pset (ports ?st x) = ip_pset (ports st x)"
    "ip_msgcount (ports ?st x) = ip_msgcount (ports st x)" "ip_qlimit (ports ?st x) = ip_qlimit (ports st x)"
    "ip_blocked (ports ?st x) = (if x = p then remove1 th (ip_blocked (ports st p)) else ip_blocked (ports st x))" for x
    by (simp_all add: upd_defs)
  have c: "chan ?st = chan st" by (simp add: chan_def f fun_eq_iff)
  have q: "queued ?st = queued st" by (simp add: queued_def f fun_eq_iff)
  have h: "handed_to (?st, ?act) y j = handed_to (st, act) y j" for y j using a by (auto simp: handed_to_def f)
  have h': "handed (?st, ?act) p = handed (st, act) p" for p by (simp add: handed_def h f)
  have s: "sends (?st, ?act) y j \<longleftrightarrow> y \<noteq> th \<and> sends (st, act) y j" for y j by (simp add: sends_def)
  have sk: "sends (st, act) th k" using a by (simp add: sends_def)
  show "th \<in> set (ip_blocked (ports st p))" using sd(2) [of th p] a w by (simp add: p_def)
  show "\<not> in_flight (?st, ?act) k"
    using pl(3-5) sk by (auto simp: in_flight_def h s q)
  have "recv_ok (?st, ?act)"
    by (rule recv_ok_frame [OF recv_ok_inv [OF inv]])
      (use a recv_okD(1) [OF recv_ok_inv [OF inv]] in \<open>auto simp: f\<close>)
  moreover have "place_ok (?st, ?act) [] []"
  proof (rule place_okI)
    show "z = y" if "sends (?st, ?act) y j" "sends (?st, ?act) z j" for y z j using that pl(5) unfolding s by blast
    show "\<not> queued ?st j" if "sends (?st, ?act) y j" for y j using that pl(3) unfolding s q by blast
    show "\<not> handed_to (?st, ?act) z j" if "sends (?st, ?act) y j" for y z j using that pl(4) unfolding h s by blast
  qed (use pl(1,2,6,7,10) in \<open>auto simp: h f c q\<close>)
  moreover have "count_ok (?st, ?act) [] []" using count_ok_inv [OF inv] by (simp add: count_ok_def h' f c)
  moreover have "log_ok (?st, ?act) []" using log_ok_inv [OF inv] by (simp add: log_ok_def f c)
  moreover have "send_ok (?st, ?act) (\<lambda>_. 0)"
  proof (rule send_okI)
    have wk: "woken (?st, ?act) x = woken (st, act) x" for x
      using a w by (auto simp: woken_def s f)
    have bl: "y \<in> set (ip_blocked (ports ?st x)) \<longleftrightarrow> y \<noteq> th \<and> y \<in> set (ip_blocked (ports st x))" for x y
    proof (cases "x = p")
      case True then show ?thesis using sd(1) [of p] by (auto simp: f)
    next
      case False
      then have "th \<notin> set (ip_blocked (ports st x))" using sd(2) [of th x] a by (simp add: p_def)
      then show ?thesis using False by (auto simp: f)
    qed
    show "y \<in> set (ip_blocked (ports ?st x)) \<longleftrightarrow> (\<exists>k opt t. ?act y = Sending k opt t \<and> remote ?st k = x) \<and>
        ith_state (threads ?st y) = MACH_SEND_IN_PROGRESS" for x y
      unfolding bl unfolding sd(2) by (auto simp: f)
    show "unat (ip_qlimit (ports ?st x)) \<le> unat (ip_msgcount (ports ?st x)) + card (woken (?st, ?act) x) + 0 + length (discarded x (log ?st))"
      if "ip_active (ports ?st x)" "ip_blocked (ports ?st x) \<noteq> []" for x
    proof -
      have "ip_blocked (ports st x) \<noteq> []" using that(2) by (auto simp: f split: if_splits)
      then show ?thesis using sd(5) [of x] that(1) by (simp add: wk f)
    qed
    show "ith_state (threads ?st y) \<in> {MACH_MSG_SUCCESS, MACH_SEND_IN_PROGRESS}" if "?act y = Sending k opt t" for y k opt t
      using that sd(3) by (simp add: f split: if_splits)
    show "distinct (ip_blocked (ports ?st x))" for x using sd(1) by (simp add: f)
    show "ip_blocked (ports ?st x) = []" if "\<not> ip_active (ports ?st x)" for x using that sd(4) [of x] by (auto simp: f)
  qed
  ultimately show "mq_inv (?st, ?act) [] []" by (simp add: mq_inv_def)
qed

text \<open>The contents of a message that is not in flight do not matter.\<close>

lemma in_flightI:
  "k \<in> set (imq_messages (mqueues st q)) \<Longrightarrow> in_flight (st, act) k"
  "handed_to (st, act) th k \<Longrightarrow> in_flight (st, act) k"
  "sends (st, act) th k \<Longrightarrow> in_flight (st, act) k"
  by (auto simp: in_flight_def queued_def)

lemma write_message:
  fixes f
  assumes parts: "recv_ok (st, act)" "place_ok (st, act) [] []" "count_ok (st, act) [] []" "send_ok (st, act) x" "log_ok (st, act) []"
    and k: "\<not> in_flight (st, act) k"
  defines "st' \<equiv> upd_kmsg k f st"
  shows "recv_ok (st', act) \<and> place_ok (st', act) [] [] \<and> count_ok (st', act) [] [] \<and> send_ok (st', act) x \<and> log_ok (st', act) []"
    and "\<not> in_flight (st', act) k"
  unfolding st'_def
proof -
  let ?st = "upd_kmsg k f st"
  note pl = place_okD [OF parts(2)]
  have o: "mqueues ?st = mqueues st" "threads ?st = threads st" "ports ?st = ports st" "log ?st = log st"
    "j \<noteq> k \<Longrightarrow> kmsgs ?st j = kmsgs st j" for j by (simp_all add: upd_defs)
  have c: "chan ?st = chan st" by (simp add: chan_def o fun_eq_iff)
  have q: "queued ?st = queued st" by (simp add: queued_def o fun_eq_iff)
  have h: "handed_to (?st, act) y j = handed_to (st, act) y j" for y j by (simp add: handed_to_def o)
  have s: "sends (?st, act) y j = sends (st, act) y j" for y j by (simp add: sends_def)
  have qk: "j \<in> set (imq_messages (mqueues st x)) \<Longrightarrow> kmsgs ?st j = kmsgs st j" for j x
    using k in_flightI(1) [of j st x act] o(5) by metis
  have hk: "handed_to (st, act) y j \<Longrightarrow> kmsgs ?st j = kmsgs st j" for y j
    using k in_flightI(2) [of st act y j] o(5) by metis
  have sk: "sends (st, act) y j \<Longrightarrow> kmsgs ?st j = kmsgs st j" for y j
    using k in_flightI(3) [of st act y j] o(5) by metis
  have h': "handed (?st, act) x = handed (st, act) x" for x using hk by (auto simp: handed_def h)
  have m: "messages_to ?st x (imq_messages (mqueues st y)) = messages_to st x (imq_messages (mqueues st y))" for x y
    using qk [of _ y] by (simp cong: filter_cong)
  show "\<not> in_flight (?st, act) k" using k by (simp add: in_flight_def q h s)
  have "recv_ok (?st, act)"
  proof (rule recv_ok_frame [OF parts(1)])
    show "msgh_size (kmsgs ?st (ith_data (threads st th))) = msgh_size (kmsgs st (ith_data (threads st th)))"
      if "act th = Receiving q opt m t" "ith_state (threads st th) = MACH_MSG_SUCCESS" for th q opt m t
      using hk [of th "ith_data (threads st th)"] that by (auto simp: handed_to_def)
  qed (use recv_okD(1) [OF parts(1)] in \<open>auto simp: o\<close>)
  moreover have "place_ok (?st, act) [] []"
  proof (rule place_okI)
    show "chan ?st (remote ?st j) = x \<and> ip_active (ports ?st (remote ?st j))" if "j \<in> set (imq_messages (mqueues ?st x))" for j x
      using that pl(2) [of j x] qk [of j x] by (simp add: o c)
    show "msgh_bits (kmsgs ?st j) AND MACH_MSGH_BITS_CIRCULAR = 0"
      if "queued ?st j \<or> (\<exists>th. handed_to (?st, act) th j) \<or> j \<in> set [] \<or> j \<in> set []" for j
    proof -
      have "kmsgs ?st j = kmsgs st j" using that qk [of j] hk [of _ j] by (auto simp: queued_def h o)
      then show ?thesis using that pl(10) [of j] by (simp add: q h)
    qed
    show "z = y" if "sends (?st, act) y j" "sends (?st, act) z j" for y z j using that pl(5) unfolding s by blast
    show "\<not> queued ?st j" if "sends (?st, act) y j" for y j using that pl(3) unfolding s q by blast
    show "\<not> handed_to (?st, act) z j" if "sends (?st, act) y j" for y z j using that pl(4) unfolding h s by blast
    show "\<not> queued ?st j" if "handed_to (?st, act) y j" for y j using that pl(6) unfolding h q by blast
    show "z = y" if "handed_to (?st, act) y j" "handed_to (?st, act) z j" for y z j using that pl(7) unfolding h by blast
  qed (use pl(1) in \<open>auto simp: o\<close>)
  moreover have "count_ok (?st, act) [] []" using parts(3) by (simp add: count_ok_def h' o c m)
  moreover have "log_ok (?st, act) []" using parts(5) by (simp add: log_ok_def o c m)
  moreover have "send_ok (?st, act) x"
  proof (rule send_ok_frame [OF parts(4)])
    show "remote ?st j = remote st j" if "act th = Sending j opt t" for th j opt t
      using sk [of th j] that by (auto simp: sends_def)
  qed (simp_all add: o)
  ultimately show "recv_ok (?st, act) \<and> place_ok (?st, act) [] [] \<and> count_ok (?st, act) [] [] \<and> send_ok (?st, act) x \<and> log_ok (?st, act) []"
    by blast
qed

lemma inv1_write_message: "mq_inv1 (st, act) p \<Longrightarrow> \<not> in_flight (st, act) k \<Longrightarrow> mq_inv1 (upd_kmsg k f st, act) p"
  using write_message(1) [of st act "(\<lambda>_. 0)(p := 1)" k f] by (simp add: mq_inv1_def)

lemma inv_write_message: "mq_inv (st, act) [] [] \<Longrightarrow> \<not> in_flight (st, act) k \<Longrightarrow> mq_inv (upd_kmsg k f st, act) [] []"
  using write_message(1) [of st act "\<lambda>_. 0" k f] by (simp add: mq_inv_def)


text \<open>A message is counted.\<close>

lemma inv_accept:
  assumes inv: "mq_inv1 (st, act) p" and k: "\<not> in_flight (st, act) k" "remote st k = p"
    "msgh_bits (kmsgs st k) AND MACH_MSGH_BITS_CIRCULAR = 0"
    and cnt: "ip_msgcount (ports st p) + 1 > 0"
  shows "mq_inv (emit (Accept p k) (upd_port p (ip_msgcount_update (\<lambda>n. n + 1)) st), act) [k] []"
proof -
  let ?st = "emit (Accept p k) (upd_port p (ip_msgcount_update (\<lambda>n. n + 1)) st)"
  have parts: "recv_ok (st, act)" "place_ok (st, act) [] []" "count_ok (st, act) [] []" "send_ok (st, act) ((\<lambda>_. 0)(p := 1))" "log_ok (st, act) []"
    using inv by (simp_all add: mq_inv1_def)
  note pl = place_okD [OF parts(2)] and sd = send_okD [OF parts(4)]
  have o: "mqueues ?st = mqueues st" "threads ?st = threads st" "kmsgs ?st = kmsgs st" "log ?st = log st @ [Accept p k]"
    "ip_active (ports ?st x) = ip_active (ports st x)" "ip_pset (ports ?st x) = ip_pset (ports st x)"
    "ip_qlimit (ports ?st x) = ip_qlimit (ports st x)" "ip_blocked (ports ?st x) = ip_blocked (ports st x)" for x
    by (simp_all add: upd_defs)
  have n: "unat (ip_msgcount (ports ?st x)) = unat (ip_msgcount (ports st x)) + (if x = p then 1 else 0)" for x
    using cnt unatSuc [of "ip_msgcount (ports st p)"] by (simp add: upd_defs add.commute)
  have c: "chan ?st = chan st" by (simp add: chan_def o fun_eq_iff)
  have q: "queued ?st = queued st" by (simp add: queued_def o fun_eq_iff)
  have h: "handed_to (?st, act) = handed_to (st, act)" by (simp add: handed_to_def o fun_eq_iff)
  have s: "sends (?st, act) = sends (st, act)" by (simp add: sends_def fun_eq_iff)
  have w: "woken (?st, act) = woken (st, act)" by (simp add: woken_def s o fun_eq_iff)
  have "recv_ok (?st, act)"
    by (rule recv_ok_frame [OF parts(1)]) (use recv_okD(1) [OF parts(1)] in \<open>auto simp: o\<close>)
  moreover have "place_ok (?st, act) [k] []"
    using parts(2) k unfolding place_ok_def Let_def prod.case c q h s o by (auto simp: in_flight_def q h s)
  moreover have "count_ok (?st, act) [k] []"
    using parts(3) k(2) by (auto simp: count_ok_def n o c handed_def h)
  moreover have "log_ok (?st, act) [k]" using parts(5) k(2) by (auto simp: log_ok_def o c)
  moreover have "send_ok (?st, act) (\<lambda>_. 0)"
  proof (rule send_okI)
    show "unat (ip_qlimit (ports ?st x)) \<le> unat (ip_msgcount (ports ?st x)) + card (woken (?st, act) x) + 0 + length (discarded x (log ?st))"
      if "ip_active (ports ?st x)" "ip_blocked (ports ?st x) \<noteq> []" for x
      using sd(5) [of x] that by (auto simp: n w o split: if_splits)
    show "y \<in> set (ip_blocked (ports ?st x)) \<longleftrightarrow> (\<exists>k opt t. act y = Sending k opt t \<and> remote ?st k = x) \<and>
        ith_state (threads ?st y) = MACH_SEND_IN_PROGRESS" for x y
      unfolding o sd(2) ..
  qed (use sd(1,3,4) in \<open>auto simp: o\<close>)
  ultimately show ?thesis by (simp add: mq_inv_def)
qed

text \<open>A sender blocks.\<close>

lemma inv_block:
  assumes inv: "mq_inv1 (st, act) p" and k: "\<not> in_flight (st, act) k" "remote st k = p"
    and full: "ip_active (ports st p)" "unat (ip_qlimit (ports st p)) \<le> unat (ip_msgcount (ports st p))"
    and a: "act th = Idle"
    and st': "ports st' = (ports st)(p := ip_blocked_update (\<lambda>ths. ths @ [th]) (ports st p))"
      "threads st' = (threads st)(th := ith_state_update (\<lambda>_. MACH_SEND_IN_PROGRESS) (threads st th))"
      "mqueues st' = mqueues st" "kmsgs st' = kmsgs st" "log st' = log st"
  shows "mq_inv (st', act(th := Sending k opt t)) [] []"
proof -
  let ?act = "act(th := Sending k opt t)"
  have inv': "mq_inv (st, act) [] []" by (rule mq_inv1_full [OF inv full(2)])
  note pl = place_okD [OF place_ok_inv [OF inv']] and sd = send_okD [OF send_ok_inv [OF inv']]
  have o: "ip_active (ports st' x) = ip_active (ports st x)" "ip_pset (ports st' x) = ip_pset (ports st x)"
    "ip_msgcount (ports st' x) = ip_msgcount (ports st x)" "ip_qlimit (ports st' x) = ip_qlimit (ports st x)" for x
    by (simp_all add: st'(1))
  have c: "chan st' = chan st" by (simp add: chan_def o fun_eq_iff)
  have q: "queued st' = queued st" by (simp add: queued_def st' fun_eq_iff)
  have h: "handed_to (st', ?act) y j = handed_to (st, act) y j" for y j using a by (auto simp: handed_to_def st'(2))
  have h': "handed (st', ?act) x = handed (st, act) x" for x by (simp add: handed_def h st')
  have s: "sends (st', ?act) y j \<longleftrightarrow> (if y = th then j = k else sends (st, act) y j)" for y j by (auto simp: sends_def)
  have nb: "th \<notin> set (ip_blocked (ports st x))" for x using sd(2) [of th x] a by simp
  have "recv_ok (st', ?act)"
    by (rule recv_ok_frame [OF recv_ok_inv [OF inv']]) (use a recv_okD(1) [OF recv_ok_inv [OF inv']] in \<open>auto simp: st'\<close>)
  moreover have "place_ok (st', ?act) [] []"
  proof (rule place_okI)
    show "z = y" if "sends (st', ?act) y j" "sends (st', ?act) z j" for y z j
      using that pl(5) [of y j z] k(1) unfolding s by (auto simp: in_flight_def split: if_splits)
    show "\<not> queued st' j" if "sends (st', ?act) y j" for y j
      using that pl(3) [of y j] k(1) unfolding s q by (auto simp: in_flight_def split: if_splits)
    show "\<not> handed_to (st', ?act) z j" if "sends (st', ?act) y j" for y z j
      using that pl(4) [of y j z] k(1) unfolding h s by (auto simp: in_flight_def split: if_splits)
    show "\<not> queued st' j" if "handed_to (st', ?act) y j" for y j using that pl(6) unfolding h q by blast
    show "z = y" if "handed_to (st', ?act) y j" "handed_to (st', ?act) z j" for y z j using that pl(7) unfolding h by blast
  qed (use pl(1,2,10) in \<open>auto simp: h q c o(1) st'(3,4)\<close>)
  moreover have "count_ok (st', ?act) [] []" using count_ok_inv [OF inv'] by (simp add: count_ok_def h' o st' c)
  moreover have "log_ok (st', ?act) []" using log_ok_inv [OF inv'] by (simp add: log_ok_def o st' c)
  moreover have "send_ok (st', ?act) (\<lambda>_. 0)"
  proof (rule send_okI)
    have w: "woken (st', ?act) x = woken (st, act) x" for x using a by (auto simp: woken_def sends_def st'(2,4))
    show "distinct (ip_blocked (ports st' x))" for x using sd(1) [of x] nb [of p] by (auto simp: st'(1))
    show "y \<in> set (ip_blocked (ports st' x)) \<longleftrightarrow> (\<exists>k opt t. ?act y = Sending k opt t \<and> remote st' k = x) \<and>
        ith_state (threads st' y) = MACH_SEND_IN_PROGRESS" for x y
      using sd(2) [of y x] nb [of x] k(2) by (cases "y = th"; cases "x = p") (auto simp: st'(1,2,4))
    show "ith_state (threads st' y) \<in> {MACH_MSG_SUCCESS, MACH_SEND_IN_PROGRESS}" if "?act y = Sending j opt t" for y j opt t
      using that sd(3) [of y] by (auto simp: st'(2) split: if_splits)
    show "ip_blocked (ports st' x) = []" if "\<not> ip_active (ports st' x)" for x
      using that sd(4) [of x] full(1) by (auto simp: o(1) st'(1))
    show "unat (ip_qlimit (ports st' x)) \<le> unat (ip_msgcount (ports st' x)) + card (woken (st', ?act) x) + 0 + length (discarded x (log st'))"
      if "ip_active (ports st' x)" "ip_blocked (ports st' x) \<noteq> []" for x
      using sd(5) [of x] that full(2) unfolding o w st'(5) by (cases "x = p") (auto simp: st'(1))
  qed
  ultimately show ?thesis by (simp add: mq_inv_def)
qed

text \<open>A circular message is discarded.\<close>

lemma inv_discard:
  assumes inv: "mq_inv1 (st, act) p"
  shows "mq_inv (emit (Discard p k) st, act) [] []"
proof -
  let ?st = "emit (Discard p k) st"
  have parts: "recv_ok (st, act)" "place_ok (st, act) [] []" "count_ok (st, act) [] []" "send_ok (st, act) ((\<lambda>_. 0)(p := 1))" "log_ok (st, act) []"
    using inv by (simp_all add: mq_inv1_def)
  note sd = send_okD [OF parts(4)]
  have same: "same_messages (st, act) (?st, act)" by (simp add: same_messages_def handed_to_def sends_def upd_defs)
  have o: "ports ?st = ports st" "threads ?st = threads st" "kmsgs ?st = kmsgs st" "log ?st = log st @ [Discard p k]" by (simp_all add: upd_defs)
  have "recv_ok (?st, act)"
    by (rule recv_ok_frame [OF parts(1)]) (use recv_okD(1) [OF parts(1)] in \<open>auto simp: upd_defs\<close>)
  moreover have "send_ok (?st, act) (\<lambda>_. 0)"
  proof (rule send_okI)
    have w: "woken (?st, act) = woken (st, act)" by (simp add: woken_def sends_def upd_defs fun_eq_iff)
    show "unat (ip_qlimit (ports ?st x)) \<le> unat (ip_msgcount (ports ?st x)) + card (woken (?st, act) x) + 0 + length (discarded x (log ?st))"
      if "ip_active (ports ?st x)" "ip_blocked (ports ?st x) \<noteq> []" for x
      using sd(5) [of x] that by (auto simp: w o split: if_splits)
    show "y \<in> set (ip_blocked (ports ?st x)) \<longleftrightarrow> (\<exists>k opt t. act y = Sending k opt t \<and> remote ?st k = x) \<and>
        ith_state (threads ?st y) = MACH_SEND_IN_PROGRESS" for x y
      unfolding o sd(2) ..
  qed (use sd(1,3,4) in \<open>auto simp: o\<close>)
  ultimately show ?thesis using parts unfolding mq_inv_def same_messages_transfer [OF same] by simp
qed

lemma send_accept_ok:
  assumes inv: "mq_inv1 (st, act) p" "members_ok st" and k: "\<not> in_flight (st, act) k" "remote st k = p"
    "msgh_bits (kmsgs st k) AND MACH_MSGH_BITS_CIRCULAR = 0"
    and p: "ip_active (ports st p)" "ip_msgcount (ports st p) + 1 > 0"
  shows "\<exists>st'. send_accept k st = Some st' \<and> mq_ok (st', act)"
proof -
  let ?st = "emit (Accept p k) (upd_port p (ip_msgcount_update (\<lambda>n. n + 1)) st)"
  have i: "mq_inv (?st, act) [k] []" by (rule inv_accept [OF inv(1) k p(2)])
  have o: "remote ?st k = p" "ip_active (ports ?st p)" using k p by (simp_all add: upd_defs)
  obtain st' where st': "place_message (chan ?st p) k ?st = Some st'" "same_outside (chan ?st p) ?st st'" "mq_inv (st', act) [] []"
    using place_message_inv [OF i, unfolded o(1), OF refl o(2)] by blast
  have "members_ok st'" unfolding members_ok_def
  proof (intro allI impI)
    fix x assume "ip_pset (ports st' x) \<noteq> 0"
    then have x: "ip_pset (ports ?st x) \<noteq> 0" using st'(2) by (simp add: same_outside_def)
    then have "chan ?st p \<noteq> Port_messages x" by auto
    then have "mqueues st' (Port_messages x) = mqueues ?st (Port_messages x)" using st'(2) unfolding same_outside_def by metis
    then show "imq_threads (mqueues st' (Port_messages x)) = []" using inv(2) x by (simp add: members_ok_def upd_defs split: if_splits)
  qed
  moreover have "send_accept k st = Some st'"
    using st'(1) p k(2) by (simp add: send_accept_def Let_def chan_def) (simp add: upd_defs)
  ultimately show ?thesis using st'(3) by (simp add: mq_ok_def)
qed

lemma send_round_ok:
  assumes inv: "mq_inv1 (st, act) p" "members_ok st" and k: "\<not> in_flight (st, act) k" "remote st k = p"
    and a: "act self = Idle" and room: "ip_msgcount (ports st p) + 1 > 0 \<or> send_round self k opt t st \<noteq> None"
  shows "\<exists>r st'. send_round self k opt t st = Some (r, st') \<and> mq_ok (st', after_send self k opt act r)"
proof -
  have act: "act(self := Idle) = act" using a by auto
  let ?bits = "msgh_bits (kmsgs st k)"
  let ?full = "\<not> (ip_msgcount (ports st p) < ip_qlimit (ports st p) \<or> opt AND MACH_SEND_ALWAYS \<noteq> 0 \<or>
    MACH_MSGH_BITS_REMOTE ?bits = MACH_MSG_TYPE_PORT_SEND_ONCE)"
  consider "\<not> ip_active (ports st p)" | "ip_active (ports st p)" "\<not> ?full" "?bits AND MACH_MSGH_BITS_CIRCULAR \<noteq> 0"
    | "ip_active (ports st p)" "\<not> ?full" "?bits AND MACH_MSGH_BITS_CIRCULAR = 0"
    | "ip_active (ports st p)" "?full" "opt AND MACH_SEND_TIMEOUT \<noteq> 0 \<and> t = 0"
    | "ip_active (ports st p)" "?full" "\<not> (opt AND MACH_SEND_TIMEOUT \<noteq> 0 \<and> t = 0)" by blast
  then show ?thesis
  proof cases
    case 1
    let ?st1 = "upd_kmsg k (msgh_remote_port_update (\<lambda>_. 0)) st"
    let ?st' = "emit (Kmsg_destroy k) (upd_kmsg k (msgh_remote_port_update (\<lambda>_. 0)) (ip_check_unlock p (ip_release p st)))"
    have "mq_inv (?st1, act) [] []"
      by (rule mq_inv1_full [OF inv1_write_message [OF inv(1) k(1)]]) (use 1 in \<open>simp add: upd_defs\<close>)
    moreover have "same_queues ?st1 ?st'" by (simp add: same_queues_def upd_defs ip_check_unlock_def)
    moreover have "members_ok ?st1" using inv(2) by (simp add: members_ok_def upd_defs)
    ultimately have "mq_ok (?st', act)" using same_queues_ok [of ?st1 ?st' act] by (simp add: mq_ok_def)
    then show ?thesis using 1 k(2) act by (simp add: send_round_def Let_def)
  next
    case 2
    let ?st' = "emit (Kmsg_destroy k) (emit (Discard p k) st)"
    have "mq_inv (?st', act) [] []" by (rule same_queues_inv [OF same_queues_simps(10) inv_discard [OF inv(1)]])
    moreover have "members_ok ?st'" using inv(2) by (simp add: members_ok_def upd_defs)
    ultimately show ?thesis using 2 k(2) act by (simp add: send_round_def Let_def mq_ok_def)
  next
    case 3
    then have "ip_msgcount (ports st p) + 1 > 0"
      using room k(2) by (auto simp: send_round_def Let_def send_accept_def split: bind_splits) (simp_all add: upd_defs)
    then show ?thesis using send_accept_ok [OF inv k 3(3,1)] 3 k(2) act by (auto simp: send_round_def Let_def)
  next
    case 4
    then have "mq_inv (st, act) [] []" by (intro mq_inv1_full [OF inv(1)]) (simp add: word_less_nat_alt)
    then show ?thesis using 4 inv(2) k(2) act by (simp add: send_round_def Let_def mq_ok_def)
  next
    case 5
    let ?st' = "upd_thread self (ith_state_update (\<lambda>_. MACH_SEND_IN_PROGRESS)) (upd_port p (ip_blocked_update (\<lambda>ths. ths @ [self])) st)"
    have "mq_inv (?st', act(self := Sending k opt t)) [] []"
      by (rule inv_block [OF inv(1) k]) (use 5 a in \<open>auto simp: upd_defs word_less_nat_alt\<close>)
    moreover have "members_ok ?st'" using inv(2) by (simp add: members_ok_def upd_defs)
    ultimately show ?thesis using 5 k(2) by (auto simp: send_round_def Let_def mq_ok_def)
  qed
qed

lemma ipc_mqueue_send_ok:
  assumes ok: "mq_ok (st, act)" and k: "\<not> in_flight (st, act) k" and a: "act self = Idle"
    and p: "msgh_remote_port m \<noteq> 0" "msgh_remote_port m \<noteq> NOT 0"
      "ip_receiver (ports st (msgh_remote_port m)) = ipc_space_kernel st \<Longrightarrow> ip_active (ports st (msgh_remote_port m))"
      "ip_msgcount (ports st (msgh_remote_port m)) + 1 > 0 \<or> ipc_mqueue_send self k opt t (upd_kmsg k (\<lambda>_. m) st) \<noteq> None"
  shows "\<exists>r st'. ipc_mqueue_send self k opt t (upd_kmsg k (\<lambda>_. m) st) = Some (r, st') \<and> mq_ok (st', after_send self k opt act r)"
proof -
  let ?st = "upd_kmsg k (\<lambda>_. m) st" let ?p = "msgh_remote_port m"
  have f: "remote ?st k = ?p" "ports ?st = ports st" "ipc_space_kernel ?st = ipc_space_kernel st" by (simp_all add: upd_defs)
  have act: "act(self := Idle) = act" using a by auto
  have 0: "mq_inv (?st, act) [] []" using inv_write_message [OF _ k] ok by (simp add: mq_ok_def)
  then have 1: "mq_inv1 (?st, act) ?p" by (rule mq_inv1_weaken)
  have 2: "\<not> in_flight (?st, act) k" using k by (simp add: in_flight_def queued_def handed_to_def sends_def upd_defs)
  have 3: "members_ok ?st" using ok by (simp add: mq_ok_def members_ok_def upd_defs)
  show ?thesis
  proof (cases "ip_receiver (ports st ?p) = ipc_space_kernel st")
    case True
    let ?st' = "emit (Kobject_server k) ?st"
    have "mq_ok (?st', act)" using same_queues_ok [of ?st ?st' act] 0 3 by (simp add: mq_ok_def)
    then show ?thesis using True p f act by (simp add: ipc_mqueue_send_def Let_def)
  next
    case False
    then have e: "ipc_mqueue_send self k opt t ?st = send_round self k opt t ?st"
      using p f by (simp add: ipc_mqueue_send_def Let_def)
    show ?thesis unfolding e by (rule send_round_ok [OF 1 3 2 f(1) a]) (use p(4) e f in auto)
  qed
qed

lemma ipc_mqueue_send_resume_ok:
  assumes ok: "mq_ok (st, act)" and a: "act self = Sending k opt t"
    and room: "ip_msgcount (ports st (remote st k)) + 1 > 0 \<or> ipc_mqueue_send_resume self wr k opt t st \<noteq> None"
  shows "\<exists>r st'. ipc_mqueue_send_resume self wr k opt t st = Some (r, st') \<and> mq_ok (st', after_send self k opt act r)"
proof -
  have inv: "mq_inv (st, act) [] []" and mem: "members_ok st" using ok by (simp_all add: mq_ok_def)
  let ?act = "act(self := Idle)" let ?p = "remote st k"
  have after: "after_send self k opt ?act r = after_send self k opt act r" for r by (cases r) simp_all
  show ?thesis
  proof (cases "ith_state (threads st self) = MACH_MSG_SUCCESS")
    case True
    then have e: "ipc_mqueue_send_resume self wr k opt t st = send_round self k opt t st" by (simp add: ipc_mqueue_send_resume_def)
    have "\<exists>r st'. send_round self k opt t st = Some (r, st') \<and> mq_ok (st', after_send self k opt ?act r)"
      using inv_resume_woken [OF inv a True] mem room e by (intro send_round_ok) simp_all
    then show ?thesis by (simp add: e after)
  next
    case False
    then have w: "ith_state (threads st self) = MACH_SEND_IN_PROGRESS"
      using send_okD(3) [OF send_ok_inv [OF inv] a] by simp
    let ?st = "upd_port ?p (ip_blocked_update (remove1 self)) st"
    note b = inv_resume_blocked [OF inv a w]
    have f: "remote ?st k = ?p" "members_ok ?st" "ip_msgcount (ports ?st ?p) = ip_msgcount (ports st ?p)"
      using mem by (simp_all add: upd_defs members_ok_def)
    have ok': "mq_ok (?st, ?act)" using b(2) f(2) by (simp add: mq_ok_def)
    show ?thesis
    proof (cases "wr = THREAD_INTERRUPTED \<or> wr = THREAD_SHOULD_TERMINATE")
      case True then show ?thesis using False w b(1) ok' by (auto simp: ipc_mqueue_send_resume_def Let_def)
    next
      case go: False
      let ?t = "if wr = THREAD_TIMED_OUT then 0 else t"
      have e: "ipc_mqueue_send_resume self wr k opt t st = send_round self k opt ?t ?st"
        using go False w b(1) by (simp add: ipc_mqueue_send_resume_def Let_def)
      have "\<exists>r st'. send_round self k opt ?t ?st = Some (r, st') \<and> mq_ok (st', after_send self k opt ?act r)"
        by (rule send_round_ok [OF mq_inv1_weaken [OF b(2)] f(2) b(3) f(1)]) (use f room e in auto)
      then show ?thesis by (simp add: e after)
    qed
  qed
qed

subsection \<open>Receiving\<close>

text \<open>The first message of a queue is taken.\<close>

lemma inv_take:
  assumes inv: "mq_inv (st, act) [] []" and q: "imq_messages (mqueues st q) = k # rest"
    and st': "mqueues st' = (mqueues st)(q := (mqueues st q)\<lparr>imq_messages := rest\<rparr>)" "threads st' = threads st"
      "ports st' = ports st" "kmsgs st' = kmsgs st" "log st' = log st @ [Handover (remote st k) k]"
  shows "mq_inv (st', act) [] [k]" and "\<not> in_flight (st', act) k"
proof -
  note r = recv_ok_inv [OF inv] and pl = place_okD [OF place_ok_inv [OF inv]]
  have c: "chan st' = chan st" by (simp add: chan_def st' fun_eq_iff)
  have ck: "chan st (remote st k) = q" "ip_active (ports st (remote st k))" using pl(2) [of k q] q by auto
  have qk: "queued st k" using q by (auto simp: queued_def intro!: exI [of _ q])
  have mem: "j \<in> set (imq_messages (mqueues st' x)) \<longleftrightarrow> j \<noteq> k \<and> j \<in> set (imq_messages (mqueues st x))" for j x
  proof (cases "x = q")
    case True then show ?thesis using pl(1) [of q] q by (auto simp: st'(1))
  next
    case False
    then have "k \<notin> set (imq_messages (mqueues st x))" using pl(2) [of k x] ck(1) by blast
    then show ?thesis using False by (auto simp: st'(1))
  qed
  have qd: "queued st' j \<longleftrightarrow> j \<noteq> k \<and> queued st j" for j by (auto simp: queued_def mem)
  have h: "handed_to (st', act) = handed_to (st, act)" by (simp add: handed_to_def st' fun_eq_iff)
  have s: "sends (st', act) = sends (st, act)" by (simp add: sends_def fun_eq_iff)
  have m: "messages_to st x (imq_messages (mqueues st (chan st x))) =
    (if x = remote st k then [k] else []) @ messages_to st x (imq_messages (mqueues st' (chan st x)))" for x
    using q ck(1) by (auto simp: st'(1))
  show "\<not> in_flight (st', act) k" using pl(3) [of _ k] pl(6) [of _ k] qk by (auto simp: in_flight_def qd h s)
  have "recv_ok (st', act)"
    by (rule recv_ok_frame [OF r]) (use recv_okD(1) [OF r] q in \<open>auto simp: st' split: if_splits\<close>)
  moreover have "place_ok (st', act) [] [k]"
  proof (rule place_okI)
    show "distinct (imq_messages (mqueues st' x))" for x using pl(1) [of x] q by (auto simp: st'(1))
    show "chan st' (remote st' j) = x \<and> ip_active (ports st' (remote st' j))" if "j \<in> set (imq_messages (mqueues st' x))" for j x
      using that pl(2) [of j x] by (simp add: mem c st'(3,4))
    show "msgh_bits (kmsgs st' j) AND MACH_MSGH_BITS_CIRCULAR = 0"
      if "queued st' j \<or> (\<exists>th. handed_to (st', act) th j) \<or> j \<in> set [] \<or> j \<in> set [k]" for j
      using that pl(10) [of j] qk by (auto simp: qd h st'(4))
  qed (use pl(3-7) in \<open>auto simp: qd h s\<close>)
  moreover have "count_ok (st', act) [] [k]"
  proof (rule count_okI)
    fix x assume "ip_active (ports st' x)"
    with count_okD [OF count_ok_inv [OF inv], of x] m [of x]
    show "unat (ip_msgcount (ports st' x)) = length (messages_to st' x (imq_messages (mqueues st' (chan st' x)))) +
      length (messages_to st' x []) + length (messages_to st' x [k]) + card (handed (st', act) x)"
      by (auto simp: c st'(3,4) handed_def h)
  qed
  moreover have "send_ok (st', act) (\<lambda>_. 0)"
    by (rule send_ok_frame [OF send_ok_inv [OF inv]]) (auto simp: st')
  moreover have "log_ok (st', act) []"
  proof (rule log_okI)
    fix x assume "ip_active (ports st' x)"
    with log_okD [OF log_ok_inv [OF inv], of x] m [of x]
    show "accepted x (log st') = handed_over x (log st') @ messages_to st' x (imq_messages (mqueues st' (chan st' x))) @ messages_to st' x []"
      by (auto simp: c st'(3-5))
  qed
  ultimately show "mq_inv (st', act) [] [k]" by (simp add: mq_inv_def)
qed

text \<open>A thread picks up the message it was given.\<close>

lemma inv_pick_up:
  assumes inv: "mq_inv (st, act) [] []" and a: "act th = Receiving q opt m t" and w: "ith_state (threads st th) = MACH_MSG_SUCCESS"
  defines "k \<equiv> ith_data (threads st th)"
  shows "mq_inv (st, act(th := Idle)) [] [k]" and "\<not> in_flight (st, act(th := Idle)) k"
proof -
  let ?act = "act(th := Idle)"
  note r = recv_ok_inv [OF inv] and pl = place_okD [OF place_ok_inv [OF inv]]
  have hk: "handed_to (st, act) th j \<longleftrightarrow> j = k" for j using a w by (auto simp: handed_to_def k_def)
  have h: "handed_to (st, ?act) y j \<longleftrightarrow> y \<noteq> th \<and> handed_to (st, act) y j" for y j by (simp add: handed_to_def)
  have s: "sends (st, ?act) = sends (st, act)" using a by (auto simp: sends_def fun_eq_iff)
  have h': "handed (st, act) x = (if x = remote st k then insert th (handed (st, ?act) x) else handed (st, ?act) x)" for x
    using hk by (auto simp: handed_def h)
  have n: "th \<notin> handed (st, ?act) x" for x by (simp add: handed_def h)
  show "\<not> in_flight (st, ?act) k"
    using pl(4) [of _ k th] pl(6) [of th k] pl(7) [of th k] hk by (auto simp: in_flight_def h s)
  have "recv_ok (st, ?act)"
  proof (rule recv_okI)
    show "y \<in> set (imq_threads (mqueues st x)) \<longleftrightarrow>
      (\<exists>opt m t. ?act y = Receiving x opt m t) \<and> ith_state (threads st y) = MACH_RCV_IN_PROGRESS" for x y
      unfolding recv_okD(3) [OF r] using w by auto
    show "ith_state (threads st y) \<in> {MACH_MSG_SUCCESS, MACH_RCV_IN_PROGRESS, MACH_RCV_TOO_LARGE,
          MACH_RCV_PORT_DIED, MACH_RCV_PORT_CHANGED} \<and>
        (ith_state (threads st y) = MACH_RCV_IN_PROGRESS \<longrightarrow> ith_data (threads st y) = m) \<and>
        (ith_state (threads st y) = MACH_MSG_SUCCESS \<longrightarrow> msgh_size (kmsgs st (ith_data (threads st y))) \<le> m)"
      if "?act y = Receiving q opt m t" for y q opt m t
      using that recv_okD(4-6) [OF r, of y q opt m t] by (simp split: if_splits)
  qed (use recv_okD(1,2) [OF r] in auto)
  moreover have "place_ok (st, ?act) [] [k]"
  proof (rule place_okI)
    show "msgh_bits (kmsgs st j) AND MACH_MSGH_BITS_CIRCULAR = 0"
      if "queued st j \<or> (\<exists>th. handed_to (st, ?act) th j) \<or> j \<in> set [] \<or> j \<in> set [k]" for j
      using that pl(10) [of j] hk [of j] by (auto simp: h)
    show "z = y" if "handed_to (st, ?act) y j" "handed_to (st, ?act) z j" for y z j using that pl(7) unfolding h by blast
  qed (use pl(1-6) in \<open>auto simp: h s\<close>)
  moreover have "count_ok (st, ?act) [] [k]"
    by (rule count_okI) (use count_okD [OF count_ok_inv [OF inv]] n in \<open>auto simp: h'\<close>)
  moreover have "send_ok (st, ?act) (\<lambda>_. 0)"
    by (rule send_ok_frame [OF send_ok_inv [OF inv]]) (use a in auto)
  moreover have "log_ok (st, ?act) []" using log_ok_inv [OF inv] by (simp add: log_ok_def)
  ultimately show "mq_inv (st, ?act) [] [k]" by (simp add: mq_inv_def)
qed

text \<open>The count of the port is decreased.\<close>

lemma inv_decrement:
  assumes inv: "mq_inv (st, act) [] [k]" and p: "remote st k = p" "ip_active (ports st p)"
    and w: "ip_blocked (ports st p) = [] \<or> unat (ip_qlimit (ports st p)) < unat (ip_msgcount (ports st p)) + card (woken (st, act) p) + length (discarded p (log st))"
  shows "ip_msgcount (ports st p) > 0"
    and "mq_inv (upd_port p (ip_msgcount_update (\<lambda>n. n - 1)) st, act) [] []"
proof -
  let ?st = "upd_port p (ip_msgcount_update (\<lambda>n. n - 1)) st"
  note r = recv_ok_inv [OF inv] and sd = send_okD [OF send_ok_inv [OF inv]]
  have cnt: "unat (ip_msgcount (ports st p)) > 0" using count_okD [OF count_ok_inv [OF inv] p(2)] p(1) by simp
  then show pos: "ip_msgcount (ports st p) > 0" by (simp add: word_less_nat_alt)
  have o: "mqueues ?st = mqueues st" "threads ?st = threads st" "kmsgs ?st = kmsgs st" "log ?st = log st"
    "ip_active (ports ?st x) = ip_active (ports st x)" "ip_pset (ports ?st x) = ip_pset (ports st x)"
    "ip_qlimit (ports ?st x) = ip_qlimit (ports st x)" "ip_blocked (ports ?st x) = ip_blocked (ports st x)" for x
    by (simp_all add: upd_defs)
  have n: "unat (ip_msgcount (ports ?st x)) = unat (ip_msgcount (ports st x)) - (if x = p then 1 else 0)" for x
    using pos by (auto simp: upd_defs unat_minus_one)
  have c: "chan ?st = chan st" by (simp add: chan_def o fun_eq_iff)
  have q: "queued ?st = queued st" by (simp add: queued_def o fun_eq_iff)
  have h: "handed_to (?st, act) = handed_to (st, act)" by (simp add: handed_to_def o fun_eq_iff)
  have s: "sends (?st, act) = sends (st, act)" by (simp add: sends_def fun_eq_iff)
  have wk: "woken (?st, act) = woken (st, act)" by (simp add: woken_def s o fun_eq_iff)
  have "recv_ok (?st, act)"
    by (rule recv_ok_frame [OF r]) (use recv_okD(1) [OF r] in \<open>auto simp: o\<close>)
  moreover have "place_ok (?st, act) [] []"
    using place_ok_inv [OF inv] unfolding place_ok_def Let_def prod.case c q h s o by (auto simp: in_flight_def)
  moreover have "count_ok (?st, act) [] []"
  proof (rule count_okI)
    fix x assume "ip_active (ports ?st x)"
    with count_okD [OF count_ok_inv [OF inv], of x] p(1)
    show "unat (ip_msgcount (ports ?st x)) = length (messages_to ?st x (imq_messages (mqueues ?st (chan ?st x)))) +
      length (messages_to ?st x []) + length (messages_to ?st x []) + card (handed (?st, act) x)"
      by (auto simp: n o c handed_def h split: if_splits)
  qed
  moreover have "log_ok (?st, act) []" using log_ok_inv [OF inv] by (simp add: log_ok_def o c)
  moreover have "send_ok (?st, act) (\<lambda>_. 0)"
  proof (rule send_okI)
    show "unat (ip_qlimit (ports ?st x)) \<le> unat (ip_msgcount (ports ?st x)) + card (woken (?st, act) x) + 0 + length (discarded x (log ?st))"
      if "ip_active (ports ?st x)" "ip_blocked (ports ?st x) \<noteq> []" for x
      using sd(5) [of x] that w cnt by (auto simp: n wk o split: if_splits)
    show "y \<in> set (ip_blocked (ports ?st x)) \<longleftrightarrow> (\<exists>k opt t. act y = Sending k opt t \<and> remote ?st k = x) \<and>
        ith_state (threads ?st y) = MACH_SEND_IN_PROGRESS" for x y
      unfolding o sd(2) ..
  qed (use sd(1,3,4) in \<open>auto simp: o\<close>)
  ultimately show "mq_inv (?st, act) [] []" by (simp add: mq_inv_def)
qed

lemma inv_marequest:
  assumes inv: "mq_inv (st, act) pend taken"
  shows "mq_inv (upd_kmsg k (ikm_marequest_update f) (emit (Marequest_destroy x) st), act) pend taken"
proof -
  let ?st = "upd_kmsg k (ikm_marequest_update f) (emit (Marequest_destroy x) st)"
  have same: "same_messages (st, act) (?st, act)" by (simp add: same_messages_def handed_to_def sends_def upd_defs)
  have "recv_ok (?st, act)"
    by (rule recv_ok_frame [OF recv_ok_inv [OF inv]]) (use recv_okD(1) [OF recv_ok_inv [OF inv]] in \<open>auto simp: upd_defs\<close>)
  moreover have "send_ok (?st, act) (\<lambda>_. 0)"
    by (rule send_ok_frame [OF send_ok_inv [OF inv]]) (auto simp: upd_defs)
  ultimately show ?thesis using inv unfolding mq_inv_def same_messages_transfer [OF same] by simp
qed

lemma receive_finish_ok:
  assumes inv: "mq_inv (st, act) [] [k]" "members_ok st" and size: "msgh_size (kmsgs st k) \<le> m"
  shows "\<exists>st'. receive_finish k m st = Some (Rcv_return MACH_MSG_SUCCESS k, st') \<and> mq_ok (st', act)"
proof -
  define st1 where "st1 = (if ikm_marequest (kmsgs st k) \<noteq> 0
    then upd_kmsg k (ikm_marequest_update (\<lambda>_. 0)) (emit (Marequest_destroy (ikm_marequest (kmsgs st k))) st) else st)"
  have i1: "mq_inv (st1, act) [] [k]" "members_ok st1" using inv inv_marequest by (auto simp: st1_def members_ok_def upd_defs)
  have circ: "msgh_bits (kmsgs st1 k) AND MACH_MSGH_BITS_CIRCULAR = 0"
    using place_okD(10) [OF place_ok_inv [OF i1(1)], of k] by simp
  let ?p = "remote st1 k"
  have unfold: "receive_finish k m st = (if ip_active (ports st1 ?p) then
         do {
           kassert (ip_msgcount (ports st1 ?p) > 0);
           let st = upd_port ?p (ip_msgcount_update (\<lambda>n. n - 1)) st1;
           let senders = ip_blocked (ports st ?p);
           let st = (if senders \<noteq> [] \<and> ip_msgcount (ports st ?p) < ip_qlimit (ports st ?p)
                     then wake MACH_MSG_SUCCESS (hd senders) (upd_port ?p (ip_blocked_update tl) st)
                     else st);
           Some (Rcv_return MACH_MSG_SUCCESS k, st)
         }
       else Some (Rcv_return MACH_MSG_SUCCESS k, st1))"
    using size circ by (simp add: receive_finish_def Let_def flip: st1_def)
  show ?thesis
  proof (cases "ip_active (ports st1 ?p)")
    case False
    have "mq_inv (st1, act) [] []"
      using i1(1) False unfolding mq_inv_def count_ok_def place_ok_def Let_def prod.case by (auto simp: in_flight_def)
    then show ?thesis using False i1(2) by (simp add: unfold mq_ok_def)
  next
    case True
    let ?dec = "upd_port ?p (ip_msgcount_update (\<lambda>n. n - 1))"
    let ?wake = "ip_blocked (ports st1 ?p) \<noteq> [] \<and> ip_msgcount (ports st1 ?p) - 1 < ip_qlimit (ports st1 ?p)"
    note F = send_okD(5) [OF send_ok_inv [OF i1(1)] True]
    show ?thesis
    proof (cases ?wake)
      case wake: True
      then obtain th ths where b: "ip_blocked (ports st1 ?p) = th # ths" by (cases "ip_blocked (ports st1 ?p)") auto
      define st2 where "st2 = wake MACH_MSG_SUCCESS th (upd_port ?p (ip_blocked_update (\<lambda>_. ths)) st1)"
      have w: "mq_inv (st2, act) [] [k]" "card (woken (st2, act) ?p) = Suc (card (woken (st1, act) ?p))"
        by (rule inv_wake_sender [OF i1(1) b]; simp add: st2_def upd_defs)+
      have o: "remote st2 k = ?p" "ip_active (ports st2 ?p)" "ip_qlimit (ports st2 ?p) = ip_qlimit (ports st1 ?p)"
        "ip_msgcount (ports st2 ?p) = ip_msgcount (ports st1 ?p)" "discarded ?p (log st2) = discarded ?p (log st1)"
        using True by (simp_all add: st2_def upd_defs)
      have "ip_msgcount (ports st2 ?p) > 0" "mq_inv (?dec st2, act) [] []"
        using inv_decrement [OF w(1) o(1,2)] F w(2) b o by auto
      moreover have "?dec st2 = wake MACH_MSG_SUCCESS th (upd_port ?p (ip_blocked_update tl) (?dec st1))"
        using b by (cases "ports st1 ?p") (simp add: st2_def upd_defs)
      moreover have "members_ok (?dec st2)" using i1(2) by (simp add: members_ok_def st2_def upd_defs)
      ultimately show ?thesis using True wake b o(4) by (simp add: unfold Let_def mq_ok_def) (simp add: upd_defs)
    next
      case nowake: False
      have pos: "unat (ip_msgcount (ports st1 ?p)) > 0"
        using count_okD [OF count_ok_inv [OF i1(1)] True] by simp
      then have e: "unat (ip_msgcount (ports st1 ?p) - 1) = unat (ip_msgcount (ports st1 ?p)) - 1"
        by (intro unat_minus_one) auto
      have "ip_blocked (ports st1 ?p) = [] \<or> unat (ip_qlimit (ports st1 ?p)) < unat (ip_msgcount (ports st1 ?p))"
        using nowake pos unfolding word_less_nat_alt e by linarith
      then have "ip_msgcount (ports st1 ?p) > 0" "mq_inv (?dec st1, act) [] []"
        using inv_decrement [OF i1(1) refl True] by auto
      moreover have "members_ok (?dec st1)" using i1(2) by (simp add: members_ok_def upd_defs)
      ultimately show ?thesis using True nowake by (auto simp: unfold Let_def mq_ok_def) (auto simp: upd_defs)
    qed
  qed
qed

text \<open>A receiver blocks.\<close>

lemma inv_wait:
  assumes inv: "mq_inv (st, act) [] []" and a: "act th = Idle" and q: "imq_messages (mqueues st q) = []"
    and st': "mqueues st' = (mqueues st)(q := imq_threads_update (\<lambda>ths. ths @ [th]) (mqueues st q))"
      "threads st' = (threads st)(th := (threads st th)\<lparr>ith_state := MACH_RCV_IN_PROGRESS, ith_data := m\<rparr>)"
      "ports st' = ports st" "kmsgs st' = kmsgs st" "log st' = log st"
  shows "mq_inv (st', act(th := Receiving q opt m t)) [] []"
proof -
  let ?act = "act(th := Receiving q opt m t)"
  note r = recv_ok_inv [OF inv]
  have nw: "th \<notin> set (imq_threads (mqueues st x))" for x using recv_okD(3) [OF r, of th x] a by simp
  have same: "same_messages (st, act) (st', ?act)"
    using a by (auto simp: same_messages_def handed_to_def sends_def st')
  have "recv_ok (st', ?act)"
  proof (rule recv_okI)
    show "imq_messages (mqueues st' x) \<noteq> [] \<Longrightarrow> imq_threads (mqueues st' x) = []" for x
      using recv_okD(1) [OF r, of x] q by (auto simp: st'(1) split: if_splits)
    show "distinct (imq_threads (mqueues st' x))" for x using recv_okD(2) [OF r, of x] nw by (auto simp: st'(1))
    show "y \<in> set (imq_threads (mqueues st' x)) \<longleftrightarrow>
      (\<exists>opt m t. ?act y = Receiving x opt m t) \<and> ith_state (threads st' y) = MACH_RCV_IN_PROGRESS" for x y
      using recv_okD(3) [OF r, of y x] nw [of x] by (cases "y = th"; cases "x = q") (auto simp: st'(1,2))
    show "ith_state (threads st' y) \<in> {MACH_MSG_SUCCESS, MACH_RCV_IN_PROGRESS, MACH_RCV_TOO_LARGE,
          MACH_RCV_PORT_DIED, MACH_RCV_PORT_CHANGED} \<and>
        (ith_state (threads st' y) = MACH_RCV_IN_PROGRESS \<longrightarrow> ith_data (threads st' y) = m') \<and>
        (ith_state (threads st' y) = MACH_MSG_SUCCESS \<longrightarrow> msgh_size (kmsgs st' (ith_data (threads st' y))) \<le> m')"
      if "?act y = Receiving q' opt' m' t'" for y q' opt' m' t'
      using that recv_okD(4-6) [OF r, of y q' opt' m' t'] by (auto simp: st'(2,4) split: if_splits)
  qed
  moreover have "send_ok (st', ?act) (\<lambda>_. 0)"
    by (rule send_ok_frame [OF send_ok_inv [OF inv]]) (use a in \<open>auto simp: st'\<close>)
  ultimately show ?thesis using inv unfolding mq_inv_def same_messages_transfer [OF same] by simp
qed

lemma receive_round_ok:
  assumes ok: "mq_ok (st, act)" and a: "act self = Idle"
    and mq: "\<And>p. mq = Port_messages p \<Longrightarrow> ip_pset (ports st p) = 0"
  shows "\<exists>r st'. receive_round self mq opt m t st = Some (r, st') \<and> mq_ok (st', after_receive self mq opt m act r)"
proof -
  have inv: "mq_inv (st, act) [] []" and mem: "members_ok st" using ok by (simp_all add: mq_ok_def)
  have act: "act(self := Idle) = act" using a by auto
  show ?thesis
  proof (cases "imq_messages (mqueues st mq)")
    case (Cons k rest)
    let ?st = "emit (Handover (remote st k) k) (upd_mqueue mq (imq_messages_update (\<lambda>_. rest)) st)"
    have i: "mq_inv (?st, act) [] [k]" by (rule inv_take(1) [OF inv Cons]) (simp_all add: upd_defs)
    have mem': "members_ok ?st" using mem by (auto simp: members_ok_def upd_defs)
    show ?thesis
    proof (cases "msgh_size (kmsgs st k) \<le> m")
      case True
      then obtain st' where "receive_finish k m ?st = Some (Rcv_return MACH_MSG_SUCCESS k, st')" "mq_ok (st', act)"
        using receive_finish_ok [OF i mem', of m] by (auto simp: upd_defs)
      then show ?thesis using Cons True act by (auto simp: receive_round_def Let_def)
    next
      case False then show ?thesis using Cons ok act by (auto simp: receive_round_def)
    qed
  next
    case Nil
    let ?st = "upd_thread self (\<lambda>t. t\<lparr>ith_state := MACH_RCV_IN_PROGRESS, ith_data := m\<rparr>)
      (upd_mqueue mq (imq_threads_update (\<lambda>ths. ths @ [self])) st)"
    have "mq_inv (?st, act(self := Receiving mq opt m t)) [] []"
      by (rule inv_wait [OF inv a Nil]) (simp_all add: upd_defs)
    moreover have "members_ok ?st" using mem mq by (auto simp: members_ok_def upd_defs)
    ultimately show ?thesis using Nil ok act by (simp add: receive_round_def mq_ok_def)
  qed
qed

text \<open>A receiver leaves the queue, or returns with an error.\<close>

lemma inv_give_up:
  assumes ok: "mq_ok (st, act)" and a: "act th = Receiving q opt m t"
    and w: "ith_state (threads st th) \<noteq> MACH_MSG_SUCCESS" "ith_state (threads st th) \<noteq> MACH_RCV_IN_PROGRESS"
  shows "mq_ok (st, act(th := Idle))"
proof -
  let ?act = "act(th := Idle)"
  have inv: "mq_inv (st, act) [] []" using ok by (simp add: mq_ok_def)
  note r = recv_ok_inv [OF inv]
  have same: "same_messages (st, act) (st, ?act)" using a w by (auto simp: same_messages_def handed_to_def sends_def)
  have "recv_ok (st, ?act)"
  proof (rule recv_okI)
    show "y \<in> set (imq_threads (mqueues st x)) \<longleftrightarrow>
      (\<exists>opt m t. ?act y = Receiving x opt m t) \<and> ith_state (threads st y) = MACH_RCV_IN_PROGRESS" for x y
      unfolding recv_okD(3) [OF r] using w by auto
    show "ith_state (threads st y) \<in> {MACH_MSG_SUCCESS, MACH_RCV_IN_PROGRESS, MACH_RCV_TOO_LARGE,
          MACH_RCV_PORT_DIED, MACH_RCV_PORT_CHANGED} \<and>
        (ith_state (threads st y) = MACH_RCV_IN_PROGRESS \<longrightarrow> ith_data (threads st y) = m) \<and>
        (ith_state (threads st y) = MACH_MSG_SUCCESS \<longrightarrow> msgh_size (kmsgs st (ith_data (threads st y))) \<le> m)"
      if "?act y = Receiving q opt m t" for y q opt m t
      using that recv_okD(4-6) [OF r, of y q opt m t] by (simp split: if_splits)
  qed (use recv_okD(1,2) [OF r] in auto)
  moreover have "send_ok (st, ?act) (\<lambda>_. 0)"
    by (rule send_ok_frame [OF send_ok_inv [OF inv]]) (use a in auto)
  ultimately show ?thesis using ok unfolding mq_ok_def mq_inv_def same_messages_transfer [OF same] by simp
qed

lemma inv_leave:
  assumes ok: "mq_ok (st, act)" and a: "act th = Receiving q opt m t" and w: "ith_state (threads st th) = MACH_RCV_IN_PROGRESS"
  shows "th \<in> set (imq_threads (mqueues st q))"
    and "mq_ok (upd_mqueue q (imq_threads_update (remove1 th)) st, act(th := Idle))"
proof -
  let ?act = "act(th := Idle)" let ?st = "upd_mqueue q (imq_threads_update (remove1 th)) st"
  have inv: "mq_inv (st, act) [] []" using ok by (simp add: mq_ok_def)
  note r = recv_ok_inv [OF inv]
  show mem: "th \<in> set (imq_threads (mqueues st q))" using recv_okD(3) [OF r, of th q] a w by simp
  obtain ths ths' where ths: "imq_threads (mqueues st q) = ths @ th # ths'" using mem by (auto simp: in_set_conv_decomp)
  then have rm: "remove1 th (ths @ th # ths') = ths @ ths'" using recv_okD(2) [OF r, of q] by (simp add: remove1_append)
  have same: "same_messages (st, act) (?st, ?act)" using a w by (auto simp: same_messages_def handed_to_def sends_def upd_defs)
  have "recv_ok (?st, ?act)"
    by (rule recv_ok_dequeue [OF r ths, of _ "threads st th"]) (use rm ths in \<open>auto simp: upd_defs\<close>)
  moreover have "send_ok (?st, ?act) (\<lambda>_. 0)"
    by (rule send_ok_frame [OF send_ok_inv [OF inv]]) (use a in \<open>auto simp: upd_defs\<close>)
  moreover have "members_ok ?st" using ok by (auto simp: mq_ok_def members_ok_def upd_defs)
  ultimately show "mq_ok (?st, ?act)" using inv unfolding mq_ok_def mq_inv_def same_messages_transfer [OF same] by simp
qed

lemma ipc_mqueue_receive_resume_ok:
  assumes ok: "mq_ok (st, act)" and a: "act self = Receiving mq opt m t"
  shows "\<exists>r st'. ipc_mqueue_receive_resume self wr mq opt m t st = Some (r, st') \<and> mq_ok (st', after_receive self mq opt m act r)"
proof -
  have inv: "mq_inv (st, act) [] []" and mem: "members_ok st" using ok by (simp_all add: mq_ok_def)
  have after: "after_receive self mq opt m (act(self := Idle)) r = after_receive self mq opt m act r" for r by (cases r) simp_all
  consider "ith_state (threads st self) = MACH_MSG_SUCCESS" | "ith_state (threads st self) = MACH_RCV_IN_PROGRESS"
    | "ith_state (threads st self) \<in> {MACH_RCV_TOO_LARGE, MACH_RCV_PORT_DIED, MACH_RCV_PORT_CHANGED}"
    using recv_okD(4) [OF recv_ok_inv [OF inv] a] by blast
  then show ?thesis
  proof cases
    case 1
    have "msgh_size (kmsgs st (ith_data (threads st self))) \<le> m" using recv_okD(6) [OF recv_ok_inv [OF inv] a 1] .
    from receive_finish_ok [OF inv_pick_up(1) [OF inv a 1] mem this] 1 show ?thesis
      by (auto simp: ipc_mqueue_receive_resume_def)
  next
    case 2
    let ?st = "upd_mqueue mq (imq_threads_update (remove1 self)) st"
    note l = inv_leave [OF ok a 2]
    have "\<exists>r st'. receive_round self mq opt m t' ?st = Some (r, st') \<and> mq_ok (st', after_receive self mq opt m (act(self := Idle)) r)" for t'
    proof (rule receive_round_ok [OF l(2)])
      show "ip_pset (ports ?st p) = 0" if "mq = Port_messages p" for p
        using mem l(1) that by (auto simp: members_ok_def upd_defs)
    qed simp
    then show ?thesis using 2 l by (auto simp: ipc_mqueue_receive_resume_def Let_def after)
  next
    case 3
    then have "mq_ok (st, act(self := Idle))" by (intro inv_give_up [OF ok a]) auto
    then show ?thesis using 3 by (auto simp: ipc_mqueue_receive_resume_def)
  qed
qed

lemma ipc_mqueue_copyin_ok:
  assumes ok: "mq_ok (st, act)" and "ipc_mqueue_copyin space name entry st = Some (Inr mq, st')"
  shows "mq_ok (st', act)" and "\<And>p. mq = Port_messages p \<Longrightarrow> ip_pset (ports st' p) = 0"
proof -
  obtain bits obj where e: "entry = Some (bits, obj)" using assms(2) by (auto simp: ipc_mqueue_copyin_def split: option.splits)
  have "mq_ok (st', act) \<and> (\<forall>p. mq = Port_messages p \<longrightarrow> ip_pset (ports st' p) = 0)"
  proof (cases "bits AND MACH_PORT_TYPE_RECEIVE \<noteq> 0")
    case True
    let ?s = "ip_pset (ports st obj)" let ?ref = "upd_port obj (ip_references_update (\<lambda>n. n + 1))"
    have p: "ip_active (ports st obj)" using assms(2) True by (simp add: e ipc_mqueue_copyin_def)
    show ?thesis
    proof (cases "?s = 0")
      case s: True
      then have "mq = Port_messages obj" "st' = ?ref st" using assms(2) True by (auto simp: e ipc_mqueue_copyin_def Let_def)
      moreover have "mq_ok (?ref st, act)" by (rule same_queues_ok [OF _ ok]) simp
      ultimately show ?thesis using s by (simp add: upd_defs)
    next
      case s: False
      obtain st1 where 1: "ipc_pset_remove ?s obj st = Some st1" "mq_ok (st1, act)"
        "ports st1 = ports (upd_port obj (ip_pset_update (\<lambda>_. 0)) st)"
        using ipc_pset_remove_ok [OF ok p refl s] by blast
      then have "mq = Port_messages obj" "st' = ?ref (ips_check_unlock ?s st1)"
        using assms(2) True s by (auto simp: e ipc_mqueue_copyin_def Let_def split: if_splits)
      moreover have "mq_ok (?ref (ips_check_unlock ?s st1), act)"
        by (rule same_queues_ok [OF _ 1(2)]) (rule same_queues_trans [of _ "ips_check_unlock ?s st1"], simp_all)
      ultimately show ?thesis using 1(3) by (simp add: upd_defs ips_check_unlock_def)
    qed
  next
    case False
    then have "mq = Set_messages obj" "st' = ips_reference obj st"
      using assms(2) by (auto simp: e ipc_mqueue_copyin_def split: if_splits)
    moreover have "mq_ok (ips_reference obj st, act)" by (rule same_queues_ok [OF _ ok]) simp
    ultimately show ?thesis by simp
  qed
  then show "mq_ok (st', act)" "\<And>p. mq = Port_messages p \<Longrightarrow> ip_pset (ports st' p) = 0" by auto
qed

subsection \<open>Every step keeps the invariant\<close>

lemma mq_step_ok: "mq_step sys sys' \<Longrightarrow> mq_ok sys \<Longrightarrow> mq_ok sys'"
proof (induction rule: mq_step.induct)
  case (send act self st kmsg option timeout m r st')
  have "msgh_remote_port m \<noteq> 0" "msgh_remote_port m \<noteq> NOT 0"
    "ip_receiver (ports st (msgh_remote_port m)) = ipc_space_kernel st \<Longrightarrow> ip_active (ports st (msgh_remote_port m))"
    using send.hyps(3) by (auto simp: ipc_mqueue_send_def Let_def upd_defs split: if_splits)
  from ipc_mqueue_send_ok [OF send.prems send.hyps(2,1) this, of option timeout] send.hyps(3) show ?case by auto
next
  case (send_resume act self kmsg option timeout wr st r st')
  then show ?case using ipc_mqueue_send_resume_ok [OF send_resume.prems send_resume.hyps(1), of wr] by auto
next
  case (receive act self space name entry st mq st1 option max_size timeout r st')
  note c = ipc_mqueue_copyin_ok [OF receive.prems receive.hyps(2)]
  from receive_round_ok [OF c(1) receive.hyps(1) c(2), of mq option max_size timeout] receive.hyps(3)
  show ?case by (auto simp: ipc_mqueue_receive_def)
next
  case (receive_resume act self mq option max_size timeout wr st r st')
  then show ?case using ipc_mqueue_receive_resume_ok [OF receive_resume.prems receive_resume.hyps(1), of wr] by auto
next
  case (pset_move port nset st kr st' act)
  show ?case
  proof (cases "ip_pset (ports st port) = nset")
    case True then show ?thesis using pset_move by (auto simp: ipc_pset_move_def Let_def)
  next
    case False
    then have "ip_active (ports st port)" "nset = 0 \<or> ips_active (psets st nset)"
      using pset_move.hyps by (auto simp: ipc_pset_move_def Let_def split: if_splits)
    from ipc_pset_move_ok [OF pset_move.prems this] pset_move.hyps show ?thesis by auto
  qed
next
  case (pset_destroy pset st st' act)
  then have "ips_active (psets st pset)" by (auto simp: ipc_pset_destroy_def)
  from ipc_pset_destroy_ok [OF pset_destroy.prems this] pset_destroy.hyps show ?case by auto
next
  case (set_qlimit port qlimit st st' act)
  then have "ip_active (ports st port)" "qlimit \<le> MACH_PORT_QLIMIT_MAX" by (auto simp: ipc_port_set_qlimit_def)
  from ipc_port_set_qlimit_ok [OF set_qlimit.prems this] set_qlimit.hyps show ?case by auto
next
  case (clear_receiver port st st' act)
  then have "ip_active (ports st port)" by (auto simp: ipc_port_clear_receiver_def)
  from ipc_port_clear_receiver_ok [OF clear_receiver.prems this] clear_receiver.hyps show ?case by auto
next
  case (queues_destroy port st st' act)
  have "mq_inv (st, act) [] []" using queues_destroy.prems by (simp add: mq_ok_def)
  from wake_senders_inv [OF this, of port "length (ip_blocked (ports st port))"] queues_destroy.hyps
  have "ip_active (ports st port)" "ip_pset (ports st port) = 0" "ip_mscount (ports st port) = 0"
    "imq_threads (mqueues st (Port_messages port)) = []"
    by (auto simp: port_queues_destroy_def Let_def upd_port_def)
  from port_queues_destroy_ok [OF queues_destroy.prems this] queues_destroy.hyps show ?case by auto
next
  case (change_receiver st act port space name)
  then show ?case by (rule same_queues_ok [rotated]) simp
qed

lemma mq_start_ok:
  assumes "\<forall>q. mqueues st q = ipc_mqueue_init"
    "\<forall>p. ip_pset (ports st p) = 0 \<and> ip_msgcount (ports st p) = 0 \<and> ip_blocked (ports st p) = []" "log st = []"
  shows "mq_ok (st, \<lambda>_. Idle)"
proof -
  have "\<not> queued st k" for k using assms(1) by (simp add: queued_def ipc_mqueue_init_def)
  moreover have "\<not> handed_to (st, \<lambda>_. Idle) th k" "\<not> sends (st, \<lambda>_. Idle) th k" for th k
    by (simp_all add: handed_to_def sends_def)
  ultimately show ?thesis using assms
    by (simp add: mq_ok_def mq_inv_def recv_ok_def place_ok_def count_ok_def send_ok_def log_ok_def members_ok_def handed_def ipc_mqueue_init_def)
qed

lemma mq_reachable_ok: "mq_reachable sys \<Longrightarrow> mq_ok sys"
  by (induction rule: mq_reachable.induct) (auto intro: mq_start_ok mq_step_ok)

lemma mq_reachable_inv: "mq_reachable (st, act) \<Longrightarrow> mq_inv (st, act) [] []"
  using mq_reachable_ok by (fastforce simp: mq_ok_def)

subsection \<open>Runs\<close>

text \<open>A state with one port and empty queues, whose limit is one message.\<close>

definition run_start :: mq_state where
  "run_start =
     \<lparr>ports = (\<lambda>_. \<lparr>ip_references = 9, ip_active = True, ip_receiver = 64, ip_receiver_name = 0x101, ip_mscount = 0,
        ip_pset = 0, ip_msgcount = 0, ip_qlimit = 1, ip_blocked = []\<rparr>),
      psets = (\<lambda>_. \<lparr>ips_references = 1, ips_active = True, ips_local_name = 0x201\<rparr>),
      mqueues = (\<lambda>_. \<lparr>imq_messages = [], imq_threads = []\<rparr>),
      threads = (\<lambda>_. \<lparr>ith_state = MACH_MSG_SUCCESS, ith_data = 0\<rparr>),
      kmsgs = (\<lambda>_. \<lparr>msgh_bits = 0x13, msgh_size = 24, msgh_remote_port = 4, ikm_marequest = 0\<rparr>),
      ipc_space_kernel = 128, ipc_port_timestamp_data = 0, log = []\<rparr>"

lemma run_start_reachable: "mq_reachable (run_start, \<lambda>_. Idle)"
  by (rule mq_reachable.start) (simp_all add: run_start_def ipc_mqueue_init_def)

lemmas run_simps = ipc_mqueue_send_def send_round_def send_accept_def place_message_def Let_def
  MACH_SEND_ALWAYS_def MACH_SEND_TIMEOUT_def MACH_RCV_TIMEOUT_def MACH_MSGH_BITS_REMOTE_def
  MACH_MSG_TYPE_PORT_SEND_ONCE_def MACH_MSGH_BITS_CIRCULAR_def ipc_mqueue_copyin_def ipc_mqueue_receive_def
  receive_round_def receive_finish_def ipc_mqueue_receive_resume_def ipc_mqueue_send_resume_def MACH_PORT_TYPE_values
  ipc_port_clear_receiver_def ipc_mqueue_changed_def

definition run_kmsg :: "u32 \<Rightarrow> ipc_kmsg" where
  "run_kmsg bits = \<lparr>msgh_bits = bits, msgh_size = 24, msgh_remote_port = 4, ikm_marequest = 0\<rparr>"

text \<open>Thread 20 sends message 8, which is queued; thread 24 sends message 12 and blocks.\<close>

definition run_queued :: mq_state where
  "run_queued = upd_mqueue (Port_messages 4) (imq_messages_update (\<lambda>_. [8]))
     (emit (Accept 4 8) (upd_port 4 (ip_msgcount_update (\<lambda>_. 1)) (upd_kmsg 8 (\<lambda>_. run_kmsg 0x13) run_start)))"

definition run_blocked :: mq_state where
  "run_blocked = upd_thread 24 (ith_state_update (\<lambda>_. MACH_SEND_IN_PROGRESS))
     (upd_port 4 (ip_blocked_update (\<lambda>_. [24])) (upd_kmsg 12 (\<lambda>_. run_kmsg 0x13) run_queued))"

lemma run_queued_reachable: "mq_reachable (run_queued, \<lambda>_. Idle)"
proof -
  have "mq_step (run_start, \<lambda>_. Idle) (run_queued, after_send 20 8 0 (\<lambda>_. Idle) (Send_return MACH_MSG_SUCCESS))"
    by (rule mq_step.send [where m = "run_kmsg 0x13" and timeout = 0])
      (simp_all add: run_simps run_start_def run_queued_def run_kmsg_def upd_defs in_flight_def queued_def handed_to_def sends_def)
  moreover have "after_send 20 8 0 (\<lambda>_. Idle) (Send_return MACH_MSG_SUCCESS) = (\<lambda>_. Idle)" by auto
  ultimately show ?thesis using mq_reachable.step [OF run_start_reachable] by simp
qed

lemma run_blocked_reachable: "mq_reachable (run_blocked, (\<lambda>_. Idle)(24 := Sending 12 0 0))"
proof -
  have "mq_step (run_queued, \<lambda>_. Idle) (run_blocked, after_send 24 12 0 (\<lambda>_. Idle) (Send_block 0))"
    by (rule mq_step.send [where m = "run_kmsg 0x13" and timeout = 0])
      (simp_all add: run_simps run_start_def run_queued_def run_blocked_def run_kmsg_def upd_defs in_flight_def queued_def handed_to_def sends_def)
  then show ?thesis using mq_reachable.step [OF run_queued_reachable] by simp
qed

text \<open>A run that loses a wakeup.  Thread 32 waits at port 4; thread 20 sends message 8, which is
  given to thread 32.  Before that runs, the receive right is put into message 12 to the port
  itself, which is thereby circular.  Thread 24 sends it and blocks, thread 28 blocks with message
  16.  Thread 32 runs and wakes thread 24, which discards its message.\<close>

definition run_waiting :: mq_state where
  "run_waiting = upd_thread 32 (\<lambda>t. t\<lparr>ith_state := MACH_RCV_IN_PROGRESS, ith_data := 100\<rparr>)
     (upd_mqueue (Port_messages 4) (imq_threads_update (\<lambda>_. [32]))
       (upd_port 4 (ip_references_update (\<lambda>_. 10)) run_start))"

definition run_handed :: mq_state where
  "run_handed = wake MACH_MSG_SUCCESS 32 (upd_thread 32 (ith_data_update (\<lambda>_. 8))
     (emit (Handover 4 8) (upd_mqueue (Port_messages 4) (imq_threads_update (\<lambda>_. []))
       (emit (Accept 4 8) (upd_port 4 (ip_msgcount_update (\<lambda>_. 1)) (upd_kmsg 8 (\<lambda>_. run_kmsg 0x13) run_waiting))))))"

definition run_two_blocked :: mq_state where
  "run_two_blocked =
     upd_thread 28 (ith_state_update (\<lambda>_. MACH_SEND_IN_PROGRESS)) (upd_port 4 (ip_blocked_update (\<lambda>_. [24, 28]))
       (upd_kmsg 16 (\<lambda>_. run_kmsg 0x13)
         (upd_thread 24 (ith_state_update (\<lambda>_. MACH_SEND_IN_PROGRESS)) (upd_port 4 (ip_blocked_update (\<lambda>_. [24]))
           (upd_kmsg 12 (\<lambda>_. run_kmsg 0x40000013) run_handed)))))"

definition run_discarded :: mq_state where
  "run_discarded = emit (Kmsg_destroy 12) (emit (Discard 4 12)
     (wake MACH_MSG_SUCCESS 24 (upd_port 4 (ip_blocked_update (\<lambda>_. [28])) (upd_port 4 (ip_msgcount_update (\<lambda>_. 0)) run_two_blocked))))"

lemmas run_defs = run_start_def run_kmsg_def run_waiting_def run_handed_def run_two_blocked_def run_discarded_def
  in_flight_def queued_def handed_to_def sends_def






subsection \<open>Properties\<close>

text \<open>C37. In every state that sending, receiving and other operations reach: receivers wait only at
  empty queues; a message is queued at its own port, or at the set that port is in; and the count
  of a port, which is compared with its limit, is the number of its messages that are queued or
  have been given to a receiver that has not yet run.\<close>

theorem mqueue_counts_exact:
  assumes "mq_reachable (st, act)"
  shows "(\<forall>q. imq_messages (mqueues st q) \<noteq> [] \<longrightarrow> imq_threads (mqueues st q) = []) \<and>
    (\<forall>q. \<forall>k \<in> set (imq_messages (mqueues st q)). chan st (remote st k) = q) \<and>
    (\<forall>p. ip_active (ports st p) \<longrightarrow> unat (ip_msgcount (ports st p)) =
       length (messages_to st p (imq_messages (mqueues st (chan st p)))) + card (handed (st, act) p))"
  using recv_okD(1) [OF recv_ok_inv [OF mq_reachable_inv [OF assms]]]
    place_okD(2) [OF place_ok_inv [OF mq_reachable_inv [OF assms]]]
    count_okD [OF count_ok_inv [OF mq_reachable_inv [OF assms]]] by auto

theorem mqueue_counts_exact_witness:
  "mq_reachable (run_blocked, (\<lambda>_. Idle)(24 := Sending 12 0 0)) \<and>
   card (handed (run_blocked, (\<lambda>_. Idle)(24 := Sending 12 0 0)) 4) = 0"
  using mqueue_counts_exact [OF run_blocked_reachable] run_blocked_reachable
  by (auto simp: run_blocked_def run_queued_def run_defs upd_defs chan_def dest!: spec [of _ "4 :: addr"])

text \<open>C36. The messages of a live port are handed out in the order in which they were accepted,
  whatever sets the port was moved through: those accepted so far are those handed to receivers
  followed by those still queued.\<close>

theorem mqueue_fifo:
  assumes "mq_reachable (st, act)" "ip_active (ports st p)"
  shows "accepted p (log st) = handed_over p (log st) @ messages_to st p (imq_messages (mqueues st (chan st p)))"
  using log_okD [OF log_ok_inv [OF mq_reachable_inv [OF assms(1)]] assms(2)] by simp

theorem mqueue_fifo_witness:
  "mq_reachable (run_blocked, (\<lambda>_. Idle)(24 := Sending 12 0 0)) \<and> ip_active (ports run_blocked 4) \<and>
   accepted 4 (log run_blocked) = [8]"
  using mqueue_fifo [OF run_blocked_reachable, of 4] run_blocked_reachable
  by (simp add: run_blocked_def run_queued_def run_defs upd_defs chan_def)

text \<open>C35. No wakeup is lost: while a sender is blocked at a live port, the queued messages and the
  senders that were woken and have not yet run fill the limit of the port.  The exception is a
  port for which a circular message was discarded.\<close>

theorem mqueue_no_lost_wakeup:
  assumes "mq_reachable (st, act)" "ip_active (ports st p)" "ip_blocked (ports st p) \<noteq> []" "discarded p (log st) = []"
  shows "unat (ip_qlimit (ports st p)) \<le> unat (ip_msgcount (ports st p)) + card (woken (st, act) p)"
  using send_okD(5) [OF send_ok_inv [OF mq_reachable_inv [OF assms(1)]] assms(2,3)] assms(4) by simp

theorem mqueue_no_lost_wakeup_witness:
  "mq_reachable (run_blocked, (\<lambda>_. Idle)(24 := Sending 12 0 0)) \<and> ip_blocked (ports run_blocked 4) = [24] \<and>
   1 \<le> (1 :: nat) + card (woken (run_blocked, (\<lambda>_. Idle)(24 := Sending 12 0 0)) 4)"
  using mqueue_no_lost_wakeup [OF run_blocked_reachable, of 4] run_blocked_reachable
  by (simp add: run_blocked_def run_queued_def run_defs upd_defs)





lemma destroy_messages_receiver:
  "destroy_messages p ks st = Some st' \<Longrightarrow> ip_receiver (ports st' x) = ip_receiver (ports st x) \<and>
     ip_active (ports st' x) = ip_active (ports st x) \<and> ipc_space_kernel st' = ipc_space_kernel st"
proof (induction ks arbitrary: st)
  case (Cons k ks)
  define st1 where "st1 = emit (Kmsg_destroy k) (upd_kmsg k (msgh_remote_port_update (\<lambda>_. 0))
    (ip_check_unlock p (ip_release p (upd_mqueue (Port_messages p) (imq_messages_update (\<lambda>_. ks)) st))))"
  have "destroy_messages p ks st1 = Some st'" using Cons.prems by (auto simp: st1_def Let_def)
  from Cons.IH [OF this] show ?case by (simp add: st1_def upd_defs ip_check_unlock_def split: if_splits)
qed simp

lemma wake_senders_globals:
  "ipc_port_timestamp_data (wake_senders p n st) = ipc_port_timestamp_data st \<and>
   ipc_space_kernel (wake_senders p n st) = ipc_space_kernel st"
  by (induction p n st rule: wake_senders.induct) (auto simp: upd_defs split: list.splits)

text \<open>The time of death of a port is stored where its receiver was, and \<open>ipc_mqueue_send\<close> looks at the
  receiver before it tests whether the port is alive.  A port that dies when the clock shows the
  address of the kernel's space is taken for a port of the kernel.\<close>

theorem dead_port_taken_for_kernel_port:
  assumes "port_queues_destroy p st = Some st'" "ipc_port_timestamp_data st = ipc_space_kernel st" "remote st' k = p"
  shows "ipc_mqueue_send self k opt t st' = None"
proof -
  have "ip_receiver (ports st' p) = ipc_space_kernel st'" "\<not> ip_active (ports st' p)"
    using assms(1,2) by (auto simp: port_queues_destroy_def Let_def wake_senders_globals dest!: destroy_messages_receiver [where x = p])
      (simp_all add: upd_defs wake_senders_globals)
  then show ?thesis using assms(3) by (simp add: ipc_mqueue_send_def Let_def)
qed

end
