(* ===== verification/Kern_Lock.thy ===== *)
theory Kern_Lock
  imports Mach_Prelude
begin

text \<open>
  The readers/writer locks of kern/lock.c on a uniprocessor (\<open>NCPUS == 1\<close>: \<open>lock_wait_time\<close> is 0
  and the interlock is no code).  A thread gives up the processor only where the code calls
  \<open>thread_sleep\<close>, so each routine is cut there: a routine runs up to its return or up to the
  place where it sleeps, and a thread that wakes up runs on from that place.  Where a lock may
  not sleep, the loops spin.  The step relation of the second part interleaves the routines of
  any number of threads on one lock, and keeps track of what each thread holds.
\<close>

subsection \<open>The code\<close>

text \<open>\<open>read_count\<close> is a bit field of 16 bits.  The fields are those of \<open>struct lock\<close>.\<close>

record lock_data =
  read_count :: "16 word"
  want_upgrade :: bool
  want_write :: bool
  waiting :: bool
  can_sleep :: bool
  lock_thread :: addr
  recursion_depth :: int

text \<open>The loops in which a routine waits: for \<open>want_write\<close> and for the readers in \<open>lock_write\<close>,
  in \<open>lock_read\<close>, in \<open>lock_read_to_write\<close>, and in \<open>lock_try_read_to_write\<close>.\<close>

datatype wait_loop = Want_write | Drain_write | Wait_read | Drain_upgrade | Drain_try

datatype outcome = Return bool | Sleep wait_loop | Spin wait_loop

text \<open>A routine gives the new lock, whether it called \<open>thread_wakeup\<close>, and how it came to an end.
  A routine without a result returns \<open>False\<close>.\<close>

type_synonym lock_result = "lock_data \<times> bool \<times> outcome"

definition no_thread :: addr where
  "no_thread = -1"

definition lock_init :: "bool \<Rightarrow> lock_data" where
  "lock_init sleepable =
     \<lparr>read_count = 0, want_upgrade = False, want_write = False, waiting = False, can_sleep = sleepable,
      lock_thread = no_thread, recursion_depth = 0\<rparr>"

definition lock_sleepable :: "bool \<Rightarrow> lock_data \<Rightarrow> lock_result" where
  "lock_sleepable sleepable l = (l\<lparr>can_sleep := sleepable\<rparr>, False, Return False)"

definition wait_in :: "wait_loop \<Rightarrow> lock_data \<Rightarrow> lock_result" where
  "wait_in p l = (if can_sleep l then (l\<lparr>waiting := True\<rparr>, False, Sleep p) else (l, False, Spin p))"

definition lock_write_drain :: "lock_data \<Rightarrow> lock_result" where
  "lock_write_drain l =
     (if read_count l \<noteq> 0 \<or> want_upgrade l then wait_in Drain_write l else (l, False, Return False))"

definition lock_write_want :: "lock_data \<Rightarrow> lock_result" where
  "lock_write_want l =
     (if want_write l then wait_in Want_write l else lock_write_drain (l\<lparr>want_write := True\<rparr>))"

definition lock_write :: "addr \<Rightarrow> lock_data \<Rightarrow> lock_result" where
  "lock_write self l =
     (if lock_thread l = self then (l\<lparr>recursion_depth := recursion_depth l + 1\<rparr>, False, Return False)
      else lock_write_want l)"

definition wake_waiting :: "lock_data \<Rightarrow> lock_data \<times> bool" where
  "wake_waiting l = (if waiting l then (l\<lparr>waiting := False\<rparr>, True) else (l, False))"

definition lock_done :: "lock_data \<Rightarrow> lock_result" where
  "lock_done l =
     (let l = (if read_count l \<noteq> 0 then l\<lparr>read_count := read_count l - 1\<rparr>
               else if recursion_depth l \<noteq> 0 then l\<lparr>recursion_depth := recursion_depth l - 1\<rparr>
               else if want_upgrade l then l\<lparr>want_upgrade := False\<rparr>
               else l\<lparr>want_write := False\<rparr>);
          (l, woken) = wake_waiting l
      in (l, woken, Return False))"

definition lock_read_wait :: "lock_data \<Rightarrow> lock_result" where
  "lock_read_wait l =
     (if want_write l \<or> want_upgrade l then wait_in Wait_read l
      else (l\<lparr>read_count := read_count l + 1\<rparr>, False, Return False))"

definition lock_read :: "addr \<Rightarrow> lock_data \<Rightarrow> lock_result" where
  "lock_read self l =
     (if lock_thread l = self then (l\<lparr>read_count := read_count l + 1\<rparr>, False, Return False)
      else lock_read_wait l)"

definition lock_upgrade_drain :: "lock_data \<Rightarrow> lock_result" where
  "lock_upgrade_drain l = (if read_count l \<noteq> 0 then wait_in Drain_upgrade l else (l, False, Return False))"

definition lock_read_to_write :: "addr \<Rightarrow> lock_data \<Rightarrow> lock_result" where
  "lock_read_to_write self l =
     (let l = l\<lparr>read_count := read_count l - 1\<rparr> in
      if lock_thread l = self then (l\<lparr>recursion_depth := recursion_depth l + 1\<rparr>, False, Return False)
      else if want_upgrade l then let (l, woken) = wake_waiting l in (l, woken, Return True)
      else lock_upgrade_drain (l\<lparr>want_upgrade := True\<rparr>))"

definition lock_write_to_read :: "lock_data \<Rightarrow> lock_result" where
  "lock_write_to_read l =
     (let l = l\<lparr>read_count := read_count l + 1\<rparr>;
          l = (if recursion_depth l \<noteq> 0 then l\<lparr>recursion_depth := recursion_depth l - 1\<rparr>
               else if want_upgrade l then l\<lparr>want_upgrade := False\<rparr>
               else l\<lparr>want_write := False\<rparr>);
          (l, woken) = wake_waiting l
      in (l, woken, Return False))"

definition lock_try_write :: "addr \<Rightarrow> lock_data \<Rightarrow> lock_result" where
  "lock_try_write self l =
     (if lock_thread l = self then (l\<lparr>recursion_depth := recursion_depth l + 1\<rparr>, False, Return True)
      else if want_write l \<or> want_upgrade l \<or> read_count l \<noteq> 0 then (l, False, Return False)
      else (l\<lparr>want_write := True\<rparr>, False, Return True))"

definition lock_try_read :: "addr \<Rightarrow> lock_data \<Rightarrow> lock_result" where
  "lock_try_read self l =
     (if lock_thread l = self then (l\<lparr>read_count := read_count l + 1\<rparr>, False, Return True)
      else if want_write l \<or> want_upgrade l then (l, False, Return False)
      else (l\<lparr>read_count := read_count l + 1\<rparr>, False, Return True))"

text \<open>This loop sleeps whether or not the lock may sleep.\<close>

definition lock_try_drain :: "lock_data \<Rightarrow> lock_result" where
  "lock_try_drain l =
     (if read_count l \<noteq> 0 then (l\<lparr>waiting := True\<rparr>, False, Sleep Drain_try) else (l, False, Return True))"

definition lock_try_read_to_write :: "addr \<Rightarrow> lock_data \<Rightarrow> lock_result" where
  "lock_try_read_to_write self l =
     (if lock_thread l = self then
        (l\<lparr>read_count := read_count l - 1, recursion_depth := recursion_depth l + 1\<rparr>, False, Return True)
      else if want_upgrade l then (l, False, Return False)
      else lock_try_drain (l\<lparr>want_upgrade := True, read_count := read_count l - 1\<rparr>))"

text \<open>The panics of the last two routines are \<open>None\<close>.\<close>

definition lock_set_recursive :: "addr \<Rightarrow> lock_data \<Rightarrow> lock_result option" where
  "lock_set_recursive self l =
     do { kassert (want_write l); Some (l\<lparr>lock_thread := self\<rparr>, False, Return False) }"

definition lock_clear_recursive :: "addr \<Rightarrow> lock_data \<Rightarrow> lock_result option" where
  "lock_clear_recursive self l =
     do {
       kassert (lock_thread l = self);
       let l = (if recursion_depth l = 0 then l\<lparr>lock_thread := no_thread\<rparr> else l);
       Some (l, False, Return False)
     }"

subsection \<open>Threads\<close>

datatype lock_routine = Sleepable bool | Write | Done | Read | Read_to_write | Write_to_read
  | Try_write | Try_read | Try_read_to_write | Set_recursive | Clear_recursive

fun lock_call :: "lock_routine \<Rightarrow> addr \<Rightarrow> lock_data \<Rightarrow> lock_result option" where
  "lock_call (Sleepable b) self l = Some (lock_sleepable b l)"
| "lock_call Write self l = Some (lock_write self l)"
| "lock_call Done self l = Some (lock_done l)"
| "lock_call Read self l = Some (lock_read self l)"
| "lock_call Read_to_write self l = Some (lock_read_to_write self l)"
| "lock_call Write_to_read self l = Some (lock_write_to_read l)"
| "lock_call Try_write self l = Some (lock_try_write self l)"
| "lock_call Try_read self l = Some (lock_try_read self l)"
| "lock_call Try_read_to_write self l = Some (lock_try_read_to_write self l)"
| "lock_call Set_recursive self l = lock_set_recursive self l"
| "lock_call Clear_recursive self l = lock_clear_recursive self l"

text \<open>Where a thread runs on when it left \<open>thread_sleep\<close> or goes round a loop again.\<close>

fun lock_resume :: "wait_loop \<Rightarrow> lock_data \<Rightarrow> lock_result" where
  "lock_resume Want_write l = lock_write_want l"
| "lock_resume Drain_write l = lock_write_drain l"
| "lock_resume Wait_read l = lock_read_wait l"
| "lock_resume Drain_upgrade l = lock_upgrade_drain l"
| "lock_resume Drain_try l = lock_try_drain l"

datatype thread_state = Running | Awake wait_loop | Asleep wait_loop

text \<open>What a thread holds: the lock for writing, by \<open>lock_write\<close> or by an upgrade, how often
  again for writing, and how often for reading.\<close>

datatype exclusive = Not_exclusive | By_write | By_upgrade

record hold =
  excl :: exclusive
  depth :: nat
  reads :: nat

definition nothing :: hold where
  "nothing = \<lparr>excl = Not_exclusive, depth = 0, reads = 0\<rparr>"

fun hold_call :: "lock_routine \<Rightarrow> bool \<Rightarrow> outcome \<Rightarrow> hold \<Rightarrow> hold" where
  "hold_call Write recursive (Return b) h = (if recursive then h\<lparr>depth := depth h + 1\<rparr> else h\<lparr>excl := By_write\<rparr>)"
| "hold_call Done recursive (Return b) h =
     (if reads h \<noteq> 0 then h\<lparr>reads := reads h - 1\<rparr>
      else if depth h \<noteq> 0 then h\<lparr>depth := depth h - 1\<rparr>
      else h\<lparr>excl := Not_exclusive\<rparr>)"
| "hold_call Read recursive (Return b) h = h\<lparr>reads := reads h + 1\<rparr>"
| "hold_call Read_to_write recursive (Return False) h =
     (if recursive then h\<lparr>reads := reads h - 1, depth := depth h + 1\<rparr>
      else h\<lparr>reads := reads h - 1, excl := By_upgrade\<rparr>)"
| "hold_call Read_to_write recursive r h = h\<lparr>reads := reads h - 1\<rparr>"
| "hold_call Write_to_read recursive (Return b) h =
     (if depth h \<noteq> 0 then h\<lparr>reads := reads h + 1, depth := depth h - 1\<rparr>
      else h\<lparr>reads := reads h + 1, excl := Not_exclusive\<rparr>)"
| "hold_call Try_write recursive (Return True) h =
     (if recursive then h\<lparr>depth := depth h + 1\<rparr> else h\<lparr>excl := By_write\<rparr>)"
| "hold_call Try_read recursive (Return True) h = h\<lparr>reads := reads h + 1\<rparr>"
| "hold_call Try_read_to_write recursive (Return True) h =
     (if recursive then h\<lparr>reads := reads h - 1, depth := depth h + 1\<rparr>
      else h\<lparr>reads := reads h - 1, excl := By_upgrade\<rparr>)"
| "hold_call Try_read_to_write recursive (Sleep p) h = h\<lparr>reads := reads h - 1\<rparr>"
| "hold_call c recursive r h = h"

fun hold_resume :: "wait_loop \<Rightarrow> outcome \<Rightarrow> hold \<Rightarrow> hold" where
  "hold_resume Wait_read (Return b) h = h\<lparr>reads := reads h + 1\<rparr>"
| "hold_resume Want_write (Return b) h = h\<lparr>excl := By_write\<rparr>"
| "hold_resume Drain_write (Return b) h = h\<lparr>excl := By_write\<rparr>"
| "hold_resume p (Return b) h = h\<lparr>excl := By_upgrade\<rparr>"
| "hold_resume p r h = h"

text \<open>A lock with the threads that use it.\<close>

record lock_sys =
  lk :: lock_data
  ts :: "addr \<Rightarrow> thread_state"
  holds :: "addr \<Rightarrow> hold"

text \<open>The rules that the callers keep: a lock is not taken again except by the thread that may
  take it recursively, only what is held is released, upgraded or downgraded, and the lock is
  not recursive any more when it is given up for writing.\<close>

fun allowed :: "lock_routine \<Rightarrow> bool \<Rightarrow> hold \<Rightarrow> bool" where
  "allowed (Sleepable b) recursive h \<longleftrightarrow> True"
| "allowed Write recursive h \<longleftrightarrow> h = nothing \<or> recursive"
| "allowed Done recursive h \<longleftrightarrow> h \<noteq> nothing \<and> (recursive \<longrightarrow> depth h \<noteq> 0 \<or> reads h \<noteq> 0)"
| "allowed Read recursive h \<longleftrightarrow> h = nothing \<or> recursive"
| "allowed Read_to_write recursive h \<longleftrightarrow> h = nothing\<lparr>reads := 1\<rparr> \<or> recursive \<and> reads h \<noteq> 0"
| "allowed Write_to_read recursive h \<longleftrightarrow> excl h \<noteq> Not_exclusive \<and> (recursive \<longrightarrow> depth h \<noteq> 0)"
| "allowed Try_write recursive h \<longleftrightarrow> h = nothing \<or> recursive"
| "allowed Try_read recursive h \<longleftrightarrow> h = nothing \<or> recursive"
| "allowed Try_read_to_write recursive h \<longleftrightarrow> h = nothing\<lparr>reads := 1\<rparr> \<or> recursive \<and> reads h \<noteq> 0"
| "allowed Set_recursive recursive h \<longleftrightarrow> excl h = By_write"
| "allowed Clear_recursive recursive h \<longleftrightarrow> recursive"

definition total_reads :: "(addr \<Rightarrow> hold) \<Rightarrow> nat" where
  "total_reads hs = (\<Sum>t\<in>UNIV. reads (hs t))"

fun end_state :: "outcome \<Rightarrow> thread_state" where
  "end_state (Return b) = Running"
| "end_state (Sleep p) = Asleep p"
| "end_state (Spin p) = Awake p"

text \<open>\<open>thread_wakeup\<close> wakes all threads that sleep on the lock.\<close>

fun woken_up :: "thread_state \<Rightarrow> thread_state" where
  "woken_up (Asleep p) = Awake p"
| "woken_up x = x"

definition after :: "addr \<Rightarrow> lock_result \<Rightarrow> hold \<Rightarrow> lock_sys \<Rightarrow> lock_sys" where
  "after t r h s =
     (let (l, woken, res) = r in
      \<lparr>lk = l, ts = (\<lambda>v. if v = t then end_state res else if woken then woken_up (ts s v) else ts s v),
       holds = (holds s)(t := h)\<rparr>)"

definition initial :: "bool \<Rightarrow> lock_sys" where
  "initial sleepable = \<lparr>lk = lock_init sleepable, ts = (\<lambda>_. Running), holds = (\<lambda>_. nothing)\<rparr>"

text \<open>One thread starts a routine, or runs on in one.  There is room for one more reader in the
  16 bits of \<open>read_count\<close>.\<close>

inductive lock_step :: "lock_sys \<Rightarrow> lock_sys \<Rightarrow> bool" where
  call: "ts s t = Running \<Longrightarrow> t \<noteq> no_thread \<Longrightarrow> allowed c (lock_thread (lk s) = t) (holds s t) \<Longrightarrow>
    total_reads (holds s) < 2 ^ 16 - 1 \<Longrightarrow> lock_call c t (lk s) = Some r \<Longrightarrow>
    lock_step s (after t r (hold_call c (lock_thread (lk s) = t) (snd (snd r)) (holds s t)) s)"
| resume: "ts s t = Awake p \<Longrightarrow> total_reads (holds s) < 2 ^ 16 - 1 \<Longrightarrow> lock_resume p (lk s) = r \<Longrightarrow>
    lock_step s (after t r (hold_resume p (snd (snd r)) (holds s t)) s)"

inductive lock_reachable :: "lock_sys \<Rightarrow> bool" where
  start: "lock_reachable (initial sleepable)"
| step: "lock_reachable s \<Longrightarrow> lock_step s s' \<Longrightarrow> lock_reachable s'"

subsection \<open>The invariant\<close>

text \<open>The condition of each loop.\<close>

fun blocked :: "wait_loop \<Rightarrow> lock_data \<Rightarrow> bool" where
  "blocked Want_write l \<longleftrightarrow> want_write l"
| "blocked Drain_write l \<longleftrightarrow> read_count l \<noteq> 0 \<or> want_upgrade l"
| "blocked Wait_read l \<longleftrightarrow> want_write l \<or> want_upgrade l"
| "blocked Drain_upgrade l \<longleftrightarrow> read_count l \<noteq> 0"
| "blocked Drain_try l \<longleftrightarrow> read_count l \<noteq> 0"

definition at_loop :: "thread_state \<Rightarrow> wait_loop \<Rightarrow> bool" where
  "at_loop x p \<longleftrightarrow> x = Awake p \<or> x = Asleep p"

text \<open>\<open>w\<close> is the thread that has set \<open>want_write\<close>, \<open>u\<close> the one that has set \<open>want_upgrade\<close>, and
  \<open>n\<close> the number of reads that are held.\<close>

definition thread_inv :: "addr option \<Rightarrow> addr option \<Rightarrow> nat \<Rightarrow> lock_data \<Rightarrow> addr \<Rightarrow> thread_state \<Rightarrow> hold \<Rightarrow> bool" where
  "thread_inv w u n l t x h \<longleftrightarrow>
     (excl h = By_write \<or> at_loop x Drain_write \<longleftrightarrow> w = Some t) \<and>
     (excl h = By_upgrade \<or> at_loop x Drain_upgrade \<or> at_loop x Drain_try \<longleftrightarrow> u = Some t) \<and>
     (x \<noteq> Running \<longrightarrow> h = nothing) \<and>
     (excl h \<noteq> Not_exclusive \<longrightarrow> reads h = n \<and> int (depth h) = recursion_depth l) \<and>
     (excl h = Not_exclusive \<longrightarrow> depth h = 0) \<and>
     (excl h = By_write \<longrightarrow> u = None) \<and>
     (lock_thread l = t \<and> t \<noteq> no_thread \<longrightarrow> excl h \<noteq> Not_exclusive) \<and>
     (\<forall>p. x = Asleep p \<longrightarrow> waiting l \<and> blocked p l) \<and>
     (t = no_thread \<longrightarrow> x = Running \<and> h = nothing)"

definition lock_inv :: "addr option \<Rightarrow> addr option \<Rightarrow> lock_sys \<Rightarrow> bool" where
  "lock_inv w u s \<longleftrightarrow>
     (want_write (lk s) \<longleftrightarrow> w \<noteq> None) \<and> (want_upgrade (lk s) \<longleftrightarrow> u \<noteq> None) \<and>
     unat (read_count (lk s)) = total_reads (holds s) \<and>
     (recursion_depth (lk s) \<noteq> 0 \<longrightarrow> lock_thread (lk s) \<noteq> no_thread) \<and>
     (\<forall>t. thread_inv w u (total_reads (holds s)) (lk s) t (ts s t) (holds s t))"

definition lock_ok :: "lock_sys \<Rightarrow> bool" where
  "lock_ok s \<longleftrightarrow> (\<exists>w u. lock_inv w u s)"

lemma lock_okI [intro]: "lock_inv w u s \<Longrightarrow> lock_ok s"
  by (auto simp: lock_ok_def)

lemma total_reads_split: "total_reads hs = reads (hs t) + (\<Sum>v\<in>UNIV - {t}. reads (hs v))"
  unfolding total_reads_def by (rule sum.remove) simp_all

lemma total_reads_upd [simp]: "total_reads (hs(t := h)) = total_reads hs - reads (hs t) + reads h"
proof -
  have "(\<Sum>v\<in>UNIV - {t}. reads ((hs(t := h)) v)) = (\<Sum>v\<in>UNIV - {t}. reads (hs v))"
    by (rule sum.cong) auto
  then show ?thesis using total_reads_split [of hs t] total_reads_split [of "hs(t := h)" t] by simp
qed

lemma total_reads_two: "t \<noteq> v \<Longrightarrow> reads (hs t) + reads (hs v) \<le> total_reads hs"
  using total_reads_split [of hs t] member_le_sum [of v "UNIV - {t}" "\<lambda>v. reads (hs v)"] by simp

lemma total_reads_le: "reads (hs t) \<le> total_reads hs"
  using total_reads_split [of hs t] by simp

lemma count_up: "unat (c :: 16 word) < 2 ^ 16 - 1 \<Longrightarrow> unat (c + 1) = unat c + 1 \<and> c + 1 \<noteq> 0"
proof -
  assume c: "unat c < 2 ^ 16 - 1"
  then have "unat (c + 1) = unat c + 1" by (simp add: unat_word_ariths)
  moreover from this have "c + 1 \<noteq> 0" by (metis Suc_eq_plus1 nat.distinct(1) unat_0)
  ultimately show ?thesis by blast
qed

lemma count_down: "c \<noteq> (0 :: 16 word) \<Longrightarrow> unat (c - 1) = unat c - 1"
  by (rule unat_minus_one)

lemma woken_up_at [simp]: "at_loop (woken_up x) p = at_loop x p"
  by (cases x) (auto simp: at_loop_def)

lemma woken_up_simps [simp]: "woken_up x \<noteq> Asleep p" "woken_up x = Running \<longleftrightarrow> x = Running"
  by (cases x; simp)+

text \<open>What a step of \<open>t\<close> has to leave alone for the other threads.\<close>

lemma other_inv:
  assumes "thread_inv w u n l v x h" "t \<noteq> v"
    and "\<And>v. v \<noteq> t \<Longrightarrow> w' = Some v \<longleftrightarrow> w = Some v" "\<And>v. v \<noteq> t \<Longrightarrow> u' = Some v \<longleftrightarrow> u = Some v"
    and "excl h \<noteq> Not_exclusive \<Longrightarrow> n' = n \<and> recursion_depth l' = recursion_depth l \<and> (u = None \<longrightarrow> u' = None)"
    and "lock_thread l' = lock_thread l \<or> lock_thread l' = t \<or> lock_thread l' = no_thread"
    and "wk \<or> \<not> waiting l \<or> waiting l' \<and> (\<forall>p. x = Asleep p \<longrightarrow> blocked p l \<longrightarrow> blocked p l')"
  shows "thread_inv w' u' n' l' v (if wk then woken_up x else x) h"
  using assms unfolding thread_inv_def by (cases wk) auto

lemma after_inv:
  assumes "lock_inv w u s"
    and "want_write l \<longleftrightarrow> w' \<noteq> None" "want_upgrade l \<longleftrightarrow> u' \<noteq> None"
    and "n' = total_reads (holds s) - reads (holds s t) + reads h" "unat (read_count l) = n'"
    and "recursion_depth l \<noteq> 0 \<longrightarrow> lock_thread l \<noteq> no_thread"
    and "thread_inv w' u' n' l t (end_state res) h"
    and "\<And>v. v \<noteq> t \<Longrightarrow> w' = Some v \<longleftrightarrow> w = Some v" "\<And>v. v \<noteq> t \<Longrightarrow> u' = Some v \<longleftrightarrow> u = Some v"
    and "\<And>v. v \<noteq> t \<Longrightarrow> excl (holds s v) \<noteq> Not_exclusive \<Longrightarrow>
      n' = total_reads (holds s) \<and> recursion_depth l = recursion_depth (lk s) \<and> (u = None \<longrightarrow> u' = None)"
    and "lock_thread l = lock_thread (lk s) \<or> lock_thread l = t \<or> lock_thread l = no_thread"
    and "\<And>v. v \<noteq> t \<Longrightarrow>
      wk \<or> \<not> waiting (lk s) \<or> waiting l \<and> (\<forall>p. ts s v = Asleep p \<longrightarrow> blocked p (lk s) \<longrightarrow> blocked p l)"
  shows "lock_inv w' u' (after t (l, wk, res) h s)"
proof -
  have "thread_inv w' u' n' l v (if wk then woken_up (ts s v) else ts s v) (holds s v)" if "v \<noteq> t" for v
    by (rule other_inv [OF _ that [symmetric] assms(8,9) assms(10) [OF that] assms(11) assms(12) [OF that]])
      (use assms(1) in \<open>simp add: lock_inv_def\<close>)
  then show ?thesis using assms(2-7) by (auto simp: lock_inv_def after_def)
qed

lemma lock_invD:
  assumes "lock_inv w u s"
  shows "want_write (lk s) \<longleftrightarrow> w \<noteq> None" "want_upgrade (lk s) \<longleftrightarrow> u \<noteq> None"
    "unat (read_count (lk s)) = total_reads (holds s)"
    "recursion_depth (lk s) \<noteq> 0 \<Longrightarrow> lock_thread (lk s) \<noteq> no_thread"
    "thread_inv w u (total_reads (holds s)) (lk s) t (ts s t) (holds s t)"
    "read_count (lk s) = 0 \<longleftrightarrow> total_reads (holds s) = 0"
  using assms by (auto simp: lock_inv_def unat_eq_zero [symmetric] simp del: unat_eq_zero)

lemma hold_eqI: "excl h = Not_exclusive \<Longrightarrow> depth h = 0 \<Longrightarrow> reads h = 0 \<Longrightarrow> h = nothing"
  by (simp add: nothing_def)

lemma nothing_sel [simp]: "excl nothing = Not_exclusive" "depth nothing = 0" "reads nothing = 0"
  by (simp_all add: nothing_def)


text \<open>While a thread holds the lock for writing, no other thread holds anything.\<close>

lemma exclusive_alone:
  assumes i: "lock_inv w u s" and "excl (holds s v) \<noteq> Not_exclusive" "t \<noteq> v"
  shows "holds s t = nothing"
proof -
  have v: "thread_inv w u (total_reads (holds s)) (lk s) v (ts s v) (holds s v)"
    and t: "thread_inv w u (total_reads (holds s)) (lk s) t (ts s t) (holds s t)"
    using lock_invD(5) [OF i] by blast+
  have "reads (holds s t) = 0" using total_reads_two [OF assms(3), of "holds s"] v assms(2) by (simp add: thread_inv_def)
  moreover have "excl (holds s t) = Not_exclusive"
    using v t assms(2,3) by (cases "excl (holds s v)"; cases "excl (holds s t)") (auto simp: thread_inv_def)
  ultimately show ?thesis using t by (intro hold_eqI) (auto simp: thread_inv_def)
qed



lemmas after_rule = after_inv [OF _ _ _ refl]

text \<open>An unchanged set of flags blocks the same threads.\<close>

lemma blocked_same:
  "want_write l' = want_write l \<Longrightarrow> want_upgrade l' = want_upgrade l \<Longrightarrow> read_count l' = read_count l \<Longrightarrow>
   blocked p l' = blocked p l"
  by (cases p) simp_all

lemma thread_inv_nothing:
  "thread_inv w u n l t x nothing \<longleftrightarrow>
     (at_loop x Drain_write \<longleftrightarrow> w = Some t) \<and> (at_loop x Drain_upgrade \<or> at_loop x Drain_try \<longleftrightarrow> u = Some t) \<and>
     (lock_thread l = t \<longrightarrow> t = no_thread) \<and> (\<forall>p. x = Asleep p \<longrightarrow> waiting l \<and> blocked p l) \<and>
     (t = no_thread \<longrightarrow> x = Running)"
  by (auto simp: thread_inv_def)

lemma at_loop_simps [simp]:
  "at_loop Running p \<longleftrightarrow> False" "at_loop (Awake q) p \<longleftrightarrow> q = p" "at_loop (Asleep q) p \<longleftrightarrow> q = p"
  by (auto simp: at_loop_def)

lemma wait_in_inv:
  assumes i: "lock_inv w u s" and h: "holds s t = nothing" and t: "t \<noteq> no_thread"
    and p: "ts s t = Running \<and> p \<in> {Want_write, Wait_read} \<or> ts s t = Awake p" and b: "blocked p (lk s)"
  shows "lock_inv w u (after t (wait_in p (lk s)) nothing s)"
proof -
  note d = lock_invD(1-4) [OF i] 
  have ti: "thread_inv w u (total_reads (holds s)) (lk s) t (ts s t) nothing" using lock_invD(5) [OF i, of t] h by simp
  have same: "blocked q ((lk s)\<lparr>waiting := True\<rparr>) = blocked q (lk s)" for q by (cases q) simp_all
  show ?thesis
  proof (cases "can_sleep (lk s)")
    case True
    have "lock_inv w u (after t ((lk s)\<lparr>waiting := True\<rparr>, False, Sleep p) nothing s)"
      by (rule after_rule [OF i]) (use d ti h t p b in \<open>auto simp: thread_inv_nothing same\<close>)
    then show ?thesis using True by (simp add: wait_in_def)
  next
    case False
    have "lock_inv w u (after t (lk s, False, Spin p) nothing s)"
      by (rule after_rule [OF i]) (use d ti h t p b in \<open>auto simp: thread_inv_nothing\<close>)
    then show ?thesis using False by (simp add: wait_in_def)
  qed
qed


lemma thread_inv_running:
  "thread_inv w u n l t Running h \<longleftrightarrow>
     (excl h = By_write \<longleftrightarrow> w = Some t) \<and> (excl h = By_upgrade \<longleftrightarrow> u = Some t) \<and>
     (excl h \<noteq> Not_exclusive \<longrightarrow> reads h = n \<and> int (depth h) = recursion_depth l) \<and>
     (excl h = Not_exclusive \<longrightarrow> depth h = 0) \<and> (excl h = By_write \<longrightarrow> u = None) \<and>
     (lock_thread l = t \<and> t \<noteq> no_thread \<longrightarrow> excl h \<noteq> Not_exclusive) \<and> (t = no_thread \<longrightarrow> h = nothing)"
  by (auto simp: thread_inv_def)

text \<open>Without a thread that holds the lock for writing, nothing is recursive.\<close>

lemma depth_zero:
  assumes i: "lock_inv w u s" and "\<And>v. excl (holds s v) = Not_exclusive"
  shows "recursion_depth (lk s) = 0" "lock_thread (lk s) = no_thread"
proof -
  show "lock_thread (lk s) = no_thread"
    using lock_invD(5) [OF i, of "lock_thread (lk s)"] assms(2) by (auto simp: thread_inv_def)
  then show "recursion_depth (lk s) = 0" using lock_invD(4) [OF i] by blast
qed

lemma not_exclusive:
  assumes i: "lock_inv w u s" and "u = Some t \<or> u = None \<and> (w = None \<or> w = Some t)" "holds s t = nothing"
  shows "excl (holds s v) = Not_exclusive"
proof (cases "v = t")
  case False
  have "thread_inv w u (total_reads (holds s)) (lk s) v (ts s v) (holds s v)" using lock_invD(5) [OF i] .
  then show ?thesis using False assms(2) by (cases "excl (holds s v)") (auto simp: thread_inv_def)
qed (use assms(3) in simp)

lemma write_drain_inv:
  assumes i: "lock_inv w u s" and h: "holds s t = nothing" and x: "ts s t = Awake Drain_write"
  shows "lock_inv w u (after t (lock_write_drain (lk s))
    (hold_resume Drain_write (snd (snd (lock_write_drain (lk s)))) nothing) s)"
proof -
  note d = lock_invD(1-4,6) [OF i]
  have ti: "thread_inv w u (total_reads (holds s)) (lk s) t (Awake Drain_write) nothing"
    using lock_invD(5) [OF i, of t] h x by simp
  show ?thesis
  proof (cases "blocked Drain_write (lk s)")
    case True
    have "lock_inv w u (after t (wait_in Drain_write (lk s)) nothing s)"
      by (rule wait_in_inv [OF i h]) (use ti x True in \<open>auto simp: thread_inv_nothing\<close>)
    moreover have "hold_resume Drain_write (snd (snd (wait_in Drain_write (lk s)))) nothing = nothing"
      by (simp add: wait_in_def)
    ultimately show ?thesis using True by (simp add: lock_write_drain_def)
  next
    case False
    have w: "w = Some t" "u = None" using ti False d(2) by (auto simp: thread_inv_nothing)
    have "recursion_depth (lk s) = 0" "lock_thread (lk s) = no_thread"
      using depth_zero [OF i] not_exclusive [OF i _ h] w by blast+
    moreover have "total_reads (holds s) = 0" using False d(5) by simp
    moreover have "excl (holds s v) = Not_exclusive" for v using not_exclusive [OF i _ h] w by blast
    ultimately have "lock_inv w u (after t (lk s, False, Return False) (nothing\<lparr>excl := By_write\<rparr>) s)"
      by (intro after_rule [OF i]) (use d ti w h in \<open>auto simp: thread_inv_nothing thread_inv_running\<close>)
    then show ?thesis using False by (simp add: lock_write_drain_def)
  qed
qed

text \<open>The state in which \<open>t\<close> has set \<open>want_write\<close> and is about to wait for the readers.\<close>

lemma want_write_set:
  assumes i: "lock_inv w u s" and h: "holds s t = nothing" and t: "t \<noteq> no_thread"
    and x: "ts s t = Running \<and> u \<noteq> Some t \<or> ts s t = Awake Want_write" and w: "w = None"
  shows "lock_inv (Some t) u (after t ((lk s)\<lparr>want_write := True\<rparr>, False, Spin Drain_write) nothing s)"
proof -
  note d = lock_invD(1-4) [OF i] 
  have ti: "thread_inv w u (total_reads (holds s)) (lk s) t (ts s t) nothing" using lock_invD(5) [OF i, of t] h by simp
  have keeps: "blocked p (lk s) \<Longrightarrow> blocked p ((lk s)\<lparr>want_write := True\<rparr>)" for p by (cases p) auto
  show ?thesis
    by (rule after_rule [OF i]) (use d ti h t x w keeps in \<open>auto simp: thread_inv_nothing\<close>)
qed


lemma after_after [simp]: "after t r h (after t (l, False, res) h' s) = after t r h s"
  by (simp add: after_def Let_def fun_eq_iff split: prod.splits)

lemma after_sel [simp]:
  "lk (after t (l, wk, res) h s) = l" "ts (after t (l, wk, res) h s) t = end_state res"
  "holds (after t (l, wk, res) h s) = (holds s)(t := h)"
  by (simp_all add: after_def)

lemma write_want_inv:
  assumes i: "lock_inv w u s" and h: "holds s t = nothing" and t: "t \<noteq> no_thread"
    and x: "ts s t = Running \<or> ts s t = Awake Want_write"
  shows "lock_ok (after t (lock_write_want (lk s))
    (hold_resume Want_write (snd (snd (lock_write_want (lk s)))) nothing) s)"
proof (cases "want_write (lk s)")
  case True
  have "lock_inv w u (after t (wait_in Want_write (lk s)) nothing s)"
    by (rule wait_in_inv [OF i h t]) (use x True in auto)
  moreover have "hold_resume Want_write (snd (snd (wait_in Want_write (lk s)))) nothing = nothing"
    by (simp add: wait_in_def)
  ultimately show ?thesis using True by (auto simp: lock_write_want_def)
next
  case False
  let ?l = "(lk s)\<lparr>want_write := True\<rparr>" let ?s = "after t (?l, False, Spin Drain_write) nothing s"
  have "w = None" using False lock_invD(1) [OF i] by auto
  moreover have "ts s t = Running \<and> u \<noteq> Some t \<or> ts s t = Awake Want_write"
    using x lock_invD(5) [OF i, of t] h by (auto simp: thread_inv_nothing)
  ultimately have "lock_inv (Some t) u ?s" using want_write_set [OF i h t] by blast
  from write_drain_inv [OF this, of t]
  have "lock_inv (Some t) u (after t (lock_write_drain ?l) (hold_resume Drain_write (snd (snd (lock_write_drain ?l))) nothing) s)"
    by simp
  moreover have "hold_resume Drain_write r nothing = hold_resume Want_write r nothing" for r by (cases r) simp_all
  ultimately show ?thesis using False by (auto simp: lock_write_want_def)
qed

lemma read_wait_inv:
  assumes i: "lock_inv w u s" and h: "holds s t = nothing" and t: "t \<noteq> no_thread"
    and n: "total_reads (holds s) < 2 ^ 16 - 1" and x: "ts s t = Running \<or> ts s t = Awake Wait_read"
  shows "lock_inv w u (after t (lock_read_wait (lk s))
    (hold_resume Wait_read (snd (snd (lock_read_wait (lk s)))) nothing) s)"
proof (cases "blocked Wait_read (lk s)")
  case True
  have "lock_inv w u (after t (wait_in Wait_read (lk s)) nothing s)"
    by (rule wait_in_inv [OF i h t]) (use x True in auto)
  moreover have "hold_resume Wait_read (snd (snd (wait_in Wait_read (lk s)))) nothing = nothing"
    by (simp add: wait_in_def)
  ultimately show ?thesis using True by (auto simp: lock_read_wait_def)
next
  case False
  note d = lock_invD(1-4) [OF i] 
  have ti: "thread_inv w u (total_reads (holds s)) (lk s) t (ts s t) nothing" using lock_invD(5) [OF i, of t] h by simp
  have wu: "w = None" "u = None" using False d by auto
  have c: "unat (read_count (lk s) + 1) = total_reads (holds s) + 1" "read_count (lk s) + 1 \<noteq> 0"
    using count_up n d(3) by metis+
  have e: "excl (holds s v) = Not_exclusive" for v using not_exclusive [OF i _ h] wu by blast
  have keeps: "blocked p (lk s) \<Longrightarrow> blocked p ((lk s)\<lparr>read_count := read_count (lk s) + 1\<rparr>)" for p
    using c(2) by (cases p) auto
  have "lock_inv w u (after t ((lk s)\<lparr>read_count := read_count (lk s) + 1\<rparr>, False, Return False)
      (nothing\<lparr>reads := 1\<rparr>) s)"
    by (rule after_rule [OF i]) (use d ti h t wu c e keeps in \<open>auto simp: thread_inv_nothing thread_inv_running\<close>)
  then show ?thesis using False by (simp add: lock_read_wait_def)
qed

text \<open>The two loops in which an upgrade waits for the readers.\<close>

lemma upgrade_drain_inv:
  assumes i: "lock_inv w u s" and h: "holds s t = nothing" and x: "ts s t = Awake p"
    and p: "p = Drain_upgrade \<and> r = lock_upgrade_drain (lk s) \<or> p = Drain_try \<and> r = lock_try_drain (lk s)"
  shows "lock_inv w u (after t r (hold_resume p (snd (snd r)) nothing) s)"
proof -
  note d = lock_invD(1-4,6) [OF i] 
  have ti: "thread_inv w u (total_reads (holds s)) (lk s) t (Awake p) nothing" using lock_invD(5) [OF i, of t] h x by simp
  have u: "u = Some t" "t \<noteq> no_thread" using ti p by (auto simp: thread_inv_nothing)
  have same: "blocked q ((lk s)\<lparr>waiting := True\<rparr>) = blocked q (lk s)" for q by (cases q) simp_all
  show ?thesis
  proof (cases "read_count (lk s) = 0")
    case False
    have sleep: "lock_inv w u (after t ((lk s)\<lparr>waiting := True\<rparr>, False, Sleep p) nothing s)"
      by (rule after_rule [OF i]) (use d ti h u p False in \<open>auto simp: thread_inv_nothing same\<close>)
    show ?thesis
    proof (cases "r = wait_in p (lk s)")
      case True
      have "lock_inv w u (after t (wait_in p (lk s)) nothing s)"
        by (rule wait_in_inv [OF i h u(2)]) (use x p False in auto)
      moreover have "hold_resume p (snd (snd (wait_in p (lk s)))) nothing = nothing"
        using p by (auto simp add: wait_in_def)
      ultimately show ?thesis using True by simp
    next
      case False': False
      then have "r = ((lk s)\<lparr>waiting := True\<rparr>, False, Sleep p)"
        using p False by (auto simp: lock_upgrade_drain_def lock_try_drain_def)
      then show ?thesis using sleep p by auto
    qed
  next
    case True
    have e: "excl (holds s v) = Not_exclusive" for v using not_exclusive [OF i _ h] u by blast
    have "recursion_depth (lk s) = 0" "lock_thread (lk s) = no_thread" using depth_zero [OF i] e by blast+
    then have "lock_inv w u (after t (lk s, False, Return b) (nothing\<lparr>excl := By_upgrade\<rparr>) s)" for b
      by (intro after_rule [OF i]) (use d ti u p h e True in \<open>auto simp: thread_inv_nothing thread_inv_running\<close>)
    then show ?thesis using True p by (auto simp: lock_upgrade_drain_def lock_try_drain_def)
  qed
qed


text \<open>A release wakes all sleepers, so that it may change any flag.\<close>

lemma wake_inv:
  assumes "lock_inv w u s" "waiting l = waiting (lk s)"
    and "want_write l \<longleftrightarrow> w' \<noteq> None" "want_upgrade l \<longleftrightarrow> u' \<noteq> None"
    and "unat (read_count l) = total_reads (holds s) - reads (holds s t) + reads h"
    and "recursion_depth l \<noteq> 0 \<longrightarrow> lock_thread l \<noteq> no_thread" "lock_thread l = lock_thread (lk s)"
    and "thread_inv w' u' (total_reads (holds s) - reads (holds s t) + reads h) l t Running h"
    and "\<And>v. v \<noteq> t \<Longrightarrow> w' = Some v \<longleftrightarrow> w = Some v" "\<And>v. v \<noteq> t \<Longrightarrow> u' = Some v \<longleftrightarrow> u = Some v"
    and "holds s t \<noteq> nothing"
  shows "lock_inv w' u' (after t (fst (wake_waiting l), snd (wake_waiting l), Return b) h s)"
proof (rule after_rule [OF assms(1)])
  have sel: "want_write (fst (wake_waiting l)) = want_write l" "want_upgrade (fst (wake_waiting l)) = want_upgrade l"
    "read_count (fst (wake_waiting l)) = read_count l" "recursion_depth (fst (wake_waiting l)) = recursion_depth l"
    "lock_thread (fst (wake_waiting l)) = lock_thread l"
    by (simp_all add: wake_waiting_def)
  fix v assume "v \<noteq> t" "excl (holds s v) \<noteq> Not_exclusive"
  then have "holds s t = nothing" using exclusive_alone [OF assms(1)] by metis
  then show "total_reads (holds s) - reads (holds s t) + reads h = total_reads (holds s) \<and>
      recursion_depth (fst (wake_waiting l)) = recursion_depth (lk s) \<and> (u = None \<longrightarrow> u' = None)"
    using assms(11) by blast
qed (use assms in \<open>auto simp: wake_waiting_def thread_inv_running\<close>)

lemma done_inv:
  assumes i: "lock_inv w u s" and t: "ts s t = Running" "t \<noteq> no_thread"
    and a: "allowed Done (lock_thread (lk s) = t) (holds s t)"
  shows "lock_ok (after t (lock_done (lk s)) (hold_call Done b (Return False) (holds s t)) s)"
proof -
  let ?h = "holds s t"
  note d = lock_invD(1-4,6) [OF i]
  have ti: "thread_inv w u (total_reads (holds s)) (lk s) t Running ?h" using lock_invD(5) [OF i, of t] t by simp
  have h: "?h \<noteq> nothing" using a by simp
  have le: "reads ?h \<le> total_reads (holds s)" by (rule total_reads_le)
  have run: "lock_done (lk s) = (fst (wake_waiting l), snd (wake_waiting l), Return False)"
    if "l = (if read_count (lk s) \<noteq> 0 then (lk s)\<lparr>read_count := read_count (lk s) - 1\<rparr>
      else if recursion_depth (lk s) \<noteq> 0 then (lk s)\<lparr>recursion_depth := recursion_depth (lk s) - 1\<rparr>
      else if want_upgrade (lk s) then (lk s)\<lparr>want_upgrade := False\<rparr> else (lk s)\<lparr>want_write := False\<rparr>)" for l
    unfolding that by (simp add: lock_done_def Let_def split: prod.splits)
  consider (read) "reads ?h \<noteq> 0" | (depth) "reads ?h = 0" "depth ?h \<noteq> 0" | (excl) "reads ?h = 0" "depth ?h = 0" "excl ?h \<noteq> Not_exclusive"
    using h hold_eqI by blast
  then show ?thesis
  proof cases
    case read
    then have nz: "read_count (lk s) \<noteq> 0" using le d(5) by auto
    let ?l = "(lk s)\<lparr>read_count := read_count (lk s) - 1\<rparr>"
    have "lock_inv w u (after t (fst (wake_waiting ?l), snd (wake_waiting ?l), Return False) (?h\<lparr>reads := reads ?h - 1\<rparr>) s)"
      by (rule wake_inv [OF i]) (use d ti h t le read nz a in \<open>auto simp: thread_inv_running count_down\<close>)
    then show ?thesis using run [of ?l] read nz by auto
  next
    case depth
    then have nz: "read_count (lk s) = 0" "recursion_depth (lk s) \<noteq> 0" using ti d(5) by (auto simp: thread_inv_running)
    let ?l = "(lk s)\<lparr>recursion_depth := recursion_depth (lk s) - 1\<rparr>"
    have "lock_inv w u (after t (fst (wake_waiting ?l), snd (wake_waiting ?l), Return False) (?h\<lparr>depth := depth ?h - 1\<rparr>) s)"
      by (rule wake_inv [OF i]) (use d ti h t le depth nz a in \<open>auto simp: thread_inv_running\<close>)
    then show ?thesis using run [of ?l] depth nz by auto
  next
    case excl
    then have nz: "read_count (lk s) = 0" "recursion_depth (lk s) = 0" using ti d(5) by (auto simp: thread_inv_running)
    have nt: "lock_thread (lk s) \<noteq> t" using a excl by auto
    show ?thesis
    proof (cases "want_upgrade (lk s)")
      case True
      have up: "excl ?h = By_upgrade" "u = Some t" using excl ti True d(2) by (cases "excl ?h"; auto simp: thread_inv_running)+
      let ?l = "(lk s)\<lparr>want_upgrade := False\<rparr>"
      have "lock_inv w None (after t (fst (wake_waiting ?l), snd (wake_waiting ?l), Return False) (?h\<lparr>excl := Not_exclusive\<rparr>) s)"
        by (rule wake_inv [OF i]) (use d ti h t le excl nz nt up in \<open>auto simp: thread_inv_running\<close>)
      then show ?thesis using run [of ?l] excl nz True by auto
    next
      case False
      have wr: "excl ?h = By_write" "w = Some t" "u = None" using excl ti False d(2) by (cases "excl ?h"; auto simp: thread_inv_running)+
      let ?l = "(lk s)\<lparr>want_write := False\<rparr>"
      have "lock_inv None u (after t (fst (wake_waiting ?l), snd (wake_waiting ?l), Return False) (?h\<lparr>excl := Not_exclusive\<rparr>) s)"
        by (rule wake_inv [OF i]) (use d ti h t le excl nz nt wr in \<open>auto simp: thread_inv_running\<close>)
      then show ?thesis using run [of ?l] excl nz False by auto
    qed
  qed
qed


lemma write_to_read_inv:
  assumes i: "lock_inv w u s" and t: "ts s t = Running" "t \<noteq> no_thread"
    and a: "allowed Write_to_read (lock_thread (lk s) = t) (holds s t)" and n: "total_reads (holds s) < 2 ^ 16 - 1"
  shows "lock_ok (after t (lock_write_to_read (lk s)) (hold_call Write_to_read b (Return False) (holds s t)) s)"
proof -
  let ?h = "holds s t"
  note d = lock_invD(1-4,6) [OF i]
  have ti: "thread_inv w u (total_reads (holds s)) (lk s) t Running ?h" using lock_invD(5) [OF i, of t] t by simp
  have e: "excl ?h \<noteq> Not_exclusive" using a by simp
  then have h: "?h \<noteq> nothing" by auto
  have le: "reads ?h \<le> total_reads (holds s)" by (rule total_reads_le)
  have c: "unat (read_count (lk s) + 1) = total_reads (holds s) + 1" using count_up n d(3) by metis
  have run: "lock_write_to_read (lk s) = (fst (wake_waiting l), snd (wake_waiting l), Return False)"
    if "l = (let l = (lk s)\<lparr>read_count := read_count (lk s) + 1\<rparr> in
      if recursion_depth l \<noteq> 0 then l\<lparr>recursion_depth := recursion_depth l - 1\<rparr>
      else if want_upgrade l then l\<lparr>want_upgrade := False\<rparr> else l\<lparr>want_write := False\<rparr>)" for l
    unfolding that by (simp add: lock_write_to_read_def Let_def split: prod.splits)
  have depth: "int (depth ?h) = recursion_depth (lk s)" using ti e by (simp add: thread_inv_running)
  show ?thesis
  proof (cases "depth ?h = 0")
    case False
    let ?l = "(lk s)\<lparr>read_count := read_count (lk s) + 1, recursion_depth := recursion_depth (lk s) - 1\<rparr>"
    have "lock_inv w u (after t (fst (wake_waiting ?l), snd (wake_waiting ?l), Return False)
        (?h\<lparr>reads := reads ?h + 1, depth := depth ?h - 1\<rparr>) s)"
      by (rule wake_inv [OF i]) (use d ti h t le e c False depth in \<open>auto simp: thread_inv_running\<close>)
    then show ?thesis using run [of ?l] False depth by (auto simp: Let_def)
  next
    case True
    have nt: "lock_thread (lk s) \<noteq> t" using a True by auto
    show ?thesis
    proof (cases "want_upgrade (lk s)")
      case up: True
      have u: "excl ?h = By_upgrade" "u = Some t" using e ti up d(2) by (cases "excl ?h"; auto simp: thread_inv_running)+
      let ?l = "(lk s)\<lparr>read_count := read_count (lk s) + 1, want_upgrade := False\<rparr>"
      have "lock_inv w None (after t (fst (wake_waiting ?l), snd (wake_waiting ?l), Return False)
          (?h\<lparr>reads := reads ?h + 1, excl := Not_exclusive\<rparr>) s)"
        by (rule wake_inv [OF i]) (use d ti h t le c nt u True depth in \<open>auto simp: thread_inv_running\<close>)
      then show ?thesis using run [of ?l] True depth up by (auto simp: Let_def)
    next
      case up: False
      have wr: "excl ?h = By_write" "w = Some t" "u = None" using e ti up d(2) by (cases "excl ?h"; auto simp: thread_inv_running)+
      let ?l = "(lk s)\<lparr>read_count := read_count (lk s) + 1, want_write := False\<rparr>"
      have "lock_inv None u (after t (fst (wake_waiting ?l), snd (wake_waiting ?l), Return False)
          (?h\<lparr>reads := reads ?h + 1, excl := Not_exclusive\<rparr>) s)"
        by (rule wake_inv [OF i]) (use d ti h t le c nt wr True depth in \<open>auto simp: thread_inv_running\<close>)
      then show ?thesis using run [of ?l] True depth up by (auto simp: Let_def)
    qed
  qed
qed

text \<open>The thread that may take the lock recursively.\<close>

lemma recursive_inv:
  assumes i: "lock_inv w u s" and t: "ts s t = Running" "t \<noteq> no_thread" "lock_thread (lk s) = t"
    and n: "total_reads (holds s) < 2 ^ 16 - 1"
  shows "lock_inv w u (after t ((lk s)\<lparr>recursion_depth := recursion_depth (lk s) + 1\<rparr>, False, Return b)
      ((holds s t)\<lparr>depth := depth (holds s t) + 1\<rparr>) s)"
    and "lock_inv w u (after t ((lk s)\<lparr>read_count := read_count (lk s) + 1\<rparr>, False, Return b)
      ((holds s t)\<lparr>reads := reads (holds s t) + 1\<rparr>) s)"
    and "reads (holds s t) \<noteq> 0 \<Longrightarrow> lock_inv w u
      (after t ((lk s)\<lparr>read_count := read_count (lk s) - 1, recursion_depth := recursion_depth (lk s) + 1\<rparr>, False, Return b)
        ((holds s t)\<lparr>reads := reads (holds s t) - 1, depth := depth (holds s t) + 1\<rparr>) s)"
proof -
  let ?h = "holds s t"
  note d = lock_invD(1-4,6) [OF i]
  have ti: "thread_inv w u (total_reads (holds s)) (lk s) t Running ?h" using lock_invD(5) [OF i, of t] t by simp
  have e: "excl ?h \<noteq> Not_exclusive" using ti t by (simp add: thread_inv_running)
  have alone: "excl (holds s v) = Not_exclusive" if "v \<noteq> t" for v
    using exclusive_alone [OF i e] that by simp
  have le: "reads ?h \<le> total_reads (holds s)" by (rule total_reads_le)
  have c: "unat (read_count (lk s) + 1) = total_reads (holds s) + 1" "read_count (lk s) + 1 \<noteq> 0"
    using count_up n d(3) by metis+
  have set: "w \<noteq> None \<or> u \<noteq> None" using e ti by (cases "excl ?h") (auto simp: thread_inv_running)
  have b1: "blocked p ((lk s)\<lparr>recursion_depth := x\<rparr>) = blocked p (lk s)" for p x by (cases p) simp_all
  have b2: "blocked p (lk s) \<Longrightarrow> blocked p ((lk s)\<lparr>read_count := read_count (lk s) + 1\<rparr>)" for p
    using c(2) by (cases p) auto
  show "lock_inv w u (after t ((lk s)\<lparr>recursion_depth := recursion_depth (lk s) + 1\<rparr>, False, Return b)
      (?h\<lparr>depth := depth ?h + 1\<rparr>) s)"
    by (rule after_rule [OF i]) (use d ti t e alone le in \<open>auto simp: thread_inv_running b1\<close>)
  show "lock_inv w u (after t ((lk s)\<lparr>read_count := read_count (lk s) + 1\<rparr>, False, Return b)
      (?h\<lparr>reads := reads ?h + 1\<rparr>) s)"
    by (rule after_rule [OF i]) (use d ti t e alone le c b2 in \<open>auto simp: thread_inv_running\<close>)
  assume r: "reads ?h \<noteq> 0"
  have b3: "blocked p ((lk s)\<lparr>read_count := read_count (lk s) - 1, recursion_depth := x\<rparr>)"
    if v: "v \<noteq> t" "ts s v = Asleep p" "blocked p (lk s)" for v p x
  proof -
    have "thread_inv w u (total_reads (holds s)) (lk s) v (Asleep p) (holds s v)"
      using lock_invD(5) [OF i, of v] v(2) by simp
    then show ?thesis using v(1,3) ti e d(2) by (cases p; cases "excl ?h") (auto simp: thread_inv_def)
  qed
  show "lock_inv w u
      (after t ((lk s)\<lparr>read_count := read_count (lk s) - 1, recursion_depth := recursion_depth (lk s) + 1\<rparr>, False, Return b)
        (?h\<lparr>reads := reads ?h - 1, depth := depth ?h + 1\<rparr>) s)"
    by (rule after_rule [OF i]) (use d ti t e alone le r b3 in \<open>auto simp: thread_inv_running count_down\<close>)
qed

text \<open>The state in which \<open>t\<close> has set \<open>want_upgrade\<close> and is about to wait for the other readers.\<close>

lemma want_upgrade_set:
  assumes i: "lock_inv w u s" and t: "ts s t = Running" "t \<noteq> no_thread"
    and h: "holds s t = nothing\<lparr>reads := 1\<rparr>" and u: "u = None"
    and p: "p = Drain_upgrade \<or> p = Drain_try"
  shows "lock_inv w (Some t)
    (after t ((lk s)\<lparr>read_count := read_count (lk s) - 1, want_upgrade := True\<rparr>, False, Spin p) nothing s)"
proof -
  let ?h = "holds s t"
  note d = lock_invD(1-4,6) [OF i]
  have ti: "thread_inv w u (total_reads (holds s)) (lk s) t Running ?h" using lock_invD(5) [OF i, of t] t by simp
  have le: "reads ?h \<le> total_reads (holds s)" by (rule total_reads_le)
  have "?h \<noteq> nothing" using h by (auto simp: nothing_def)
  then have alone: "excl (holds s v) = Not_exclusive" if "v \<noteq> t" for v
    using exclusive_alone [OF i] that by metis
  have b: "blocked q ((lk s)\<lparr>read_count := read_count (lk s) - 1, want_upgrade := True\<rparr>)"
    if v: "v \<noteq> t" "ts s v = Asleep q" "blocked q (lk s)" for v q
  proof -
    have "thread_inv w u (total_reads (holds s)) (lk s) v (Asleep q) (holds s v)"
      using lock_invD(5) [OF i, of v] v(2) by simp
    then show ?thesis using v(3) u by (cases q) (auto simp: thread_inv_def)
  qed
  show ?thesis
    by (rule after_rule [OF i])
      (use d ti t h le u p b alone in \<open>auto simp: thread_inv_nothing thread_inv_running count_down\<close>)
qed

lemma upgrade_update:
  "(l :: lock_data)\<lparr>want_upgrade := a, read_count := b\<rparr> = l\<lparr>read_count := b, want_upgrade := a\<rparr>"
  by (cases l) simp

lemma after_return: "after t (l, wk, Return True) x s = after t (l, wk, Return False) x s"
  by (auto simp: after_def fun_eq_iff)

lemma read_to_write_inv:
  assumes i: "lock_inv w u s" and t: "ts s t = Running" "t \<noteq> no_thread" "lock_thread (lk s) \<noteq> t"
    and h: "holds s t = nothing\<lparr>reads := 1\<rparr>"
  shows "lock_ok (after t (lock_read_to_write t (lk s))
    (hold_call Read_to_write False (snd (snd (lock_read_to_write t (lk s)))) (holds s t)) s)"
proof (cases "want_upgrade (lk s)")
  case True
  let ?l = "(lk s)\<lparr>read_count := read_count (lk s) - 1\<rparr>"
  note d = lock_invD(1-4,6) [OF i]
  have ti: "thread_inv w u (total_reads (holds s)) (lk s) t Running (holds s t)" using lock_invD(5) [OF i, of t] t by simp
  have le: "reads (holds s t) \<le> total_reads (holds s)" by (rule total_reads_le)
  have n: "holds s t \<noteq> nothing" using h by (auto simp: nothing_def)
  have "lock_inv w u (after t (fst (wake_waiting ?l), snd (wake_waiting ?l), Return True) nothing s)"
    by (rule wake_inv [OF i]) (use d ti t h n le in \<open>auto simp: thread_inv_running count_down\<close>)
  moreover have "lock_read_to_write t (lk s) = (fst (wake_waiting ?l), snd (wake_waiting ?l), Return True)"
    using True t by (simp add: lock_read_to_write_def Let_def split: prod.splits)
  moreover have "hold_call Read_to_write False (Return True) (holds s t) = nothing" using h by (simp add: nothing_def)
  ultimately show ?thesis by auto
next
  case False
  let ?l = "(lk s)\<lparr>read_count := read_count (lk s) - 1, want_upgrade := True\<rparr>"
  let ?s = "after t (?l, False, Spin Drain_upgrade) nothing s"
  have "lock_inv w (Some t) ?s" using want_upgrade_set [OF i t(1,2) h] False lock_invD(2) [OF i] by blast
  from upgrade_drain_inv [OF this, of t Drain_upgrade]
  have "lock_inv w (Some t) (after t (lock_upgrade_drain ?l) (hold_resume Drain_upgrade (snd (snd (lock_upgrade_drain ?l))) nothing) s)"
    by simp
  moreover have "lock_read_to_write t (lk s) = lock_upgrade_drain ?l" using False t(3) by (simp add: lock_read_to_write_def Let_def)
  moreover have "hold_call Read_to_write False (snd (snd (lock_upgrade_drain ?l))) (holds s t) =
      hold_resume Drain_upgrade (snd (snd (lock_upgrade_drain ?l))) nothing"
    using h by (simp add: lock_upgrade_drain_def wait_in_def nothing_def)
  ultimately show ?thesis by auto
qed

lemma try_read_to_write_inv:
  assumes i: "lock_inv w u s" and t: "ts s t = Running" "t \<noteq> no_thread" "lock_thread (lk s) \<noteq> t"
    and h: "holds s t = nothing\<lparr>reads := 1\<rparr>"
  shows "lock_ok (after t (lock_try_read_to_write t (lk s))
    (hold_call Try_read_to_write False (snd (snd (lock_try_read_to_write t (lk s)))) (holds s t)) s)"
proof (cases "want_upgrade (lk s)")
  case True
  note d = lock_invD(1-4,6) [OF i]
  have ti: "thread_inv w u (total_reads (holds s)) (lk s) t Running (holds s t)" using lock_invD(5) [OF i, of t] t by simp
  have le: "reads (holds s t) \<le> total_reads (holds s)" by (rule total_reads_le)
  have "lock_inv w u (after t (lk s, False, Return False) (holds s t) s)"
    by (rule after_rule [OF i]) (use d ti t le in auto)
  then show ?thesis using True t h by (auto simp: lock_try_read_to_write_def Let_def)
next
  case False
  let ?l = "(lk s)\<lparr>read_count := read_count (lk s) - 1, want_upgrade := True\<rparr>"
  let ?s = "after t (?l, False, Spin Drain_try) nothing s"
  have "lock_inv w (Some t) ?s" using want_upgrade_set [OF i t(1,2) h] False lock_invD(2) [OF i] by blast
  from upgrade_drain_inv [OF this, of t Drain_try]
  have "lock_inv w (Some t) (after t (lock_try_drain ?l) (hold_resume Drain_try (snd (snd (lock_try_drain ?l))) nothing) s)"
    by simp
  moreover have "lock_try_read_to_write t (lk s) = lock_try_drain ?l" using False t(3) by (simp add: lock_try_read_to_write_def upgrade_update)
  moreover have "hold_call Try_read_to_write False (snd (snd (lock_try_drain ?l))) (holds s t) =
      hold_resume Drain_try (snd (snd (lock_try_drain ?l))) nothing"
    using h by (simp add: lock_try_drain_def nothing_def)
  ultimately show ?thesis by auto
qed

lemma try_write_inv:
  assumes i: "lock_inv w u s" and t: "ts s t = Running" "t \<noteq> no_thread" "lock_thread (lk s) \<noteq> t"
    and h: "holds s t = nothing"
  shows "lock_ok (after t (lock_try_write t (lk s))
    (hold_call Try_write False (snd (snd (lock_try_write t (lk s)))) (holds s t)) s)"
proof (cases "want_write (lk s) \<or> want_upgrade (lk s) \<or> read_count (lk s) \<noteq> 0")
  case True
  note d = lock_invD(1-4,6) [OF i]
  have ti: "thread_inv w u (total_reads (holds s)) (lk s) t Running (holds s t)" using lock_invD(5) [OF i, of t] t by simp
  have "lock_inv w u (after t (lk s, False, Return False) (holds s t) s)"
    by (rule after_rule [OF i]) (use d ti t h in auto)
  moreover have "lock_try_write t (lk s) = (lk s, False, Return False)" using True t(3) by (simp add: lock_try_write_def)
  ultimately show ?thesis by auto
next
  case False
  let ?l = "(lk s)\<lparr>want_write := True\<rparr>"
  have w: "w = None" "u = None" using False lock_invD(1,2) [OF i] by auto
  then have "lock_inv (Some t) u (after t (?l, False, Spin Drain_write) nothing s)"
    using want_write_set [OF i h t(2)] t(1) by blast
  from write_drain_inv [OF this, of t] False
  have "lock_inv (Some t) u (after t (?l, False, Return False) (nothing\<lparr>excl := By_write\<rparr>) s)"
    by (simp add: lock_write_drain_def)
  moreover have "lock_try_write t (lk s) = (?l, False, Return True)" using False t(3) by (simp add: lock_try_write_def)
  ultimately show ?thesis using h by (auto simp: after_return)
qed

lemma try_read_inv:
  assumes i: "lock_inv w u s" and t: "ts s t = Running" "t \<noteq> no_thread" "lock_thread (lk s) \<noteq> t"
    and h: "holds s t = nothing" and n: "total_reads (holds s) < 2 ^ 16 - 1"
  shows "lock_ok (after t (lock_try_read t (lk s))
    (hold_call Try_read False (snd (snd (lock_try_read t (lk s)))) (holds s t)) s)"
proof (cases "want_write (lk s) \<or> want_upgrade (lk s)")
  case True
  note d = lock_invD(1-4,6) [OF i]
  have ti: "thread_inv w u (total_reads (holds s)) (lk s) t Running (holds s t)" using lock_invD(5) [OF i, of t] t by simp
  have "lock_inv w u (after t (lk s, False, Return False) (holds s t) s)"
    by (rule after_rule [OF i]) (use d ti t h in auto)
  moreover have "lock_try_read t (lk s) = (lk s, False, Return False)" using True t(3) by (auto simp add: lock_try_read_def)
  ultimately show ?thesis by auto
next
  case False
  have "lock_inv w u (after t ((lk s)\<lparr>read_count := read_count (lk s) + 1\<rparr>, False, Return False) (nothing\<lparr>reads := 1\<rparr>) s)"
    using read_wait_inv [OF i h t(2) n] t(1) False by (simp add: lock_read_wait_def)
  moreover have "lock_try_read t (lk s) = ((lk s)\<lparr>read_count := read_count (lk s) + 1\<rparr>, False, Return True)"
    using False t(3) by (simp add: lock_try_read_def)
  ultimately show ?thesis using h by (auto simp: after_return)
qed

text \<open>Routines that change no flag and no count.\<close>

lemma no_flag_inv:
  assumes i: "lock_inv w u s" and t: "ts s t = Running" "t \<noteq> no_thread"
    and l: "want_write l = want_write (lk s)" "want_upgrade l = want_upgrade (lk s)" "read_count l = read_count (lk s)"
      "recursion_depth l = recursion_depth (lk s)" "waiting l = waiting (lk s)"
    and thr: "lock_thread l = lock_thread (lk s) \<or> lock_thread l = t \<and> excl (holds s t) \<noteq> Not_exclusive \<or>
      lock_thread l = no_thread \<and> recursion_depth (lk s) = 0"
  shows "lock_inv w u (after t (l, False, Return False) (holds s t) s)"
proof -
  note d = lock_invD(1-4) [OF i]
  have ti: "thread_inv w u (total_reads (holds s)) (lk s) t Running (holds s t)" using lock_invD(5) [OF i, of t] t by simp
  have le: "reads (holds s t) \<le> total_reads (holds s)" by (rule total_reads_le)
  have b: "blocked p l = blocked p (lk s)" for p using l by (cases p) simp_all
  show ?thesis
    by (rule after_rule [OF i]) (use d ti t l thr le in \<open>auto simp: thread_inv_running b\<close>)
qed

lemma lock_call_inv:
  assumes i: "lock_inv w u s" and t: "ts s t = Running" "t \<noteq> no_thread"
    and a: "allowed c (lock_thread (lk s) = t) (holds s t)" and n: "total_reads (holds s) < 2 ^ 16 - 1"
    and r: "lock_call c t (lk s) = Some r"
  shows "lock_ok (after t r (hold_call c (lock_thread (lk s) = t) (snd (snd r)) (holds s t)) s)"
proof (cases c)
  case Done
  then have "snd (snd r) = Return False" using r by (auto simp: lock_done_def Let_def split: prod.splits)
  then show ?thesis using done_inv [OF i t, of "lock_thread (lk s) = t"] a r Done by auto
next
  case Write_to_read
  then have "snd (snd r) = Return False" using r by (auto simp: lock_write_to_read_def Let_def split: prod.splits)
  then show ?thesis using write_to_read_inv [OF i t _ n, of "lock_thread (lk s) = t"] a r Write_to_read by auto
next
  case (Sleepable b)
  then show ?thesis using no_flag_inv [OF i t, of "(lk s)\<lparr>can_sleep := b\<rparr>"] r by (auto simp: lock_sleepable_def)
next
  case Set_recursive
  then show ?thesis using no_flag_inv [OF i t, of "(lk s)\<lparr>lock_thread := t\<rparr>"] r a by (auto simp: lock_set_recursive_def)
next
  case Clear_recursive
  let ?l = "if recursion_depth (lk s) = 0 then (lk s)\<lparr>lock_thread := no_thread\<rparr> else lk s"
  have "r = (?l, False, Return False)" using r Clear_recursive by (simp add: lock_clear_recursive_def Let_def)
  moreover have "lock_inv w u (after t (?l, False, Return False) (holds s t) s)" by (rule no_flag_inv [OF i t]) auto
  ultimately show ?thesis using Clear_recursive by auto
next
  case Write
  show ?thesis
  proof (cases "lock_thread (lk s) = t")
    case True
    then show ?thesis using recursive_inv(1) [OF i t True n] r Write True
      by (intro lock_okI [of w u]) (auto simp: lock_write_def)
  next
    case False
    then have h: "holds s t = nothing" using a Write by simp
    have "hold_call Write False x nothing = hold_resume Want_write x nothing" for x by (cases x) simp_all
    then show ?thesis using write_want_inv [OF i h t(2)] t(1) r Write False h by (auto simp: lock_write_def)
  qed
next
  case Read
  show ?thesis
  proof (cases "lock_thread (lk s) = t")
    case True
    then show ?thesis using recursive_inv(2) [OF i t True n] r Read True
      by (intro lock_okI [of w u]) (auto simp: lock_read_def)
  next
    case False
    then have h: "holds s t = nothing" using a Read by simp
    have "hold_call Read False x nothing = hold_resume Wait_read x nothing" for x by (cases x) simp_all
    then show ?thesis using read_wait_inv [OF i h t(2) n] t(1) r Read False h by (auto simp: lock_read_def)
  qed
next
  case Read_to_write
  show ?thesis
  proof (cases "lock_thread (lk s) = t")
    case True
    have "reads (holds s t) \<noteq> 0" using a Read_to_write by auto
    then show ?thesis using recursive_inv(3) [OF i t True n] r Read_to_write True
      by (intro lock_okI [of w u]) (auto simp: lock_read_to_write_def Let_def)
  next
    case False
    then show ?thesis using read_to_write_inv [OF i t False] r Read_to_write a by auto
  qed
next
  case Try_write
  show ?thesis
  proof (cases "lock_thread (lk s) = t")
    case True
    then show ?thesis using recursive_inv(1) [OF i t True n] r Try_write True
      by (intro lock_okI [of w u]) (auto simp: lock_try_write_def)
  next
    case False
    then show ?thesis using try_write_inv [OF i t False] r Try_write a by auto
  qed
next
  case Try_read
  show ?thesis
  proof (cases "lock_thread (lk s) = t")
    case True
    then show ?thesis using recursive_inv(2) [OF i t True n] r Try_read True
      by (intro lock_okI [of w u]) (auto simp: lock_try_read_def)
  next
    case False
    then show ?thesis using try_read_inv [OF i t False _ n] r Try_read a by auto
  qed
next
  case Try_read_to_write
  show ?thesis
  proof (cases "lock_thread (lk s) = t")
    case True
    have "reads (holds s t) \<noteq> 0" using a Try_read_to_write by auto
    then show ?thesis using recursive_inv(3) [OF i t True n] r Try_read_to_write True
      by (intro lock_okI [of w u]) (auto simp: lock_try_read_to_write_def)
  next
    case False
    then show ?thesis using try_read_to_write_inv [OF i t False] r Try_read_to_write a by auto
  qed
qed

lemma lock_resume_inv:
  assumes i: "lock_inv w u s" and x: "ts s t = Awake p" and n: "total_reads (holds s) < 2 ^ 16 - 1"
  shows "lock_ok
    (after t (lock_resume p (lk s)) (hold_resume p (snd (snd (lock_resume p (lk s)))) (holds s t)) s)"
proof -
  have ti: "thread_inv w u (total_reads (holds s)) (lk s) t (Awake p) (holds s t)" using lock_invD(5) [OF i, of t] x by simp
  then have h: "holds s t = nothing" and t: "t \<noteq> no_thread" by (auto simp: thread_inv_def)
  show ?thesis
  proof (cases p)
    case Want_write then show ?thesis using write_want_inv [OF i h t] x h by auto
  next
    case Drain_write then show ?thesis using write_drain_inv [OF i h] x h by auto
  next
    case Wait_read then show ?thesis using read_wait_inv [OF i h t n] x h by auto
  next
    case Drain_upgrade then show ?thesis using upgrade_drain_inv [OF i h x] h by auto
  next
    case Drain_try then show ?thesis using upgrade_drain_inv [OF i h x] h by auto
  qed
qed

lemma reachable_inv: "lock_reachable s \<Longrightarrow> lock_ok s"
proof (induction rule: lock_reachable.induct)
  case (start sleepable)
  have "lock_inv None None (initial sleepable)"
    by (simp add: lock_inv_def initial_def lock_init_def total_reads_def thread_inv_nothing)
  then show ?case by blast
next
  case (step s s')
  then obtain w u where "lock_inv w u s" by (auto simp: lock_ok_def)
  with step.hyps(2) show ?case
    by (cases rule: lock_step.cases) (use lock_call_inv lock_resume_inv in blast)+
qed

subsection \<open>Properties\<close>

text \<open>A history for the witnesses: one thread takes the lock for reading and upgrades it, another one
  waits to read, and the first one releases the lock.\<close>

definition history :: "nat \<Rightarrow> lock_sys" where
  "history n =
     (let s1 = after 8 (lock_read 8 (lock_init True)) (nothing\<lparr>reads := 1\<rparr>) (initial True);
          s2 = after 8 (lock_read_to_write 8 (lk s1)) (nothing\<lparr>excl := By_upgrade\<rparr>) s1;
          s3 = after 16 (lock_read 16 (lk s2)) nothing s2;
          s4 = after 8 (lock_done (lk s3)) nothing s3
      in [initial True, s1, s2, s3, s4] ! n)"

lemmas history_defs = history_def lock_read_def lock_read_wait_def lock_read_to_write_def lock_upgrade_drain_def initial_def
  lock_init_def wait_in_def lock_done_def wake_waiting_def after_def nothing_def Let_def no_thread_def

lemma history_reads: "total_reads (holds (history n)) < 2 ^ 16 - 1" if "n < 5"
proof -
  have "n \<in> {0, 1, 2, 3, 4}" using that by auto
  moreover have "total_reads (\<lambda>_. nothing) = 0" by (simp add: total_reads_def)
  ultimately show ?thesis by (auto simp: history_def Let_def initial_def after_def split: prod.splits)
qed

lemma history_step:
  assumes "lock_reachable (history n)" "n < 4" "ts (history n) t = Running" "t \<noteq> no_thread"
    and "allowed c (lock_thread (lk (history n)) = t) (holds (history n) t)"
    and "lock_call c t (lk (history n)) = Some r"
    and "history (Suc n) = after t r (hold_call c (lock_thread (lk (history n)) = t) (snd (snd r)) (holds (history n) t)) (history n)"
  shows "lock_reachable (history (Suc n))"
  unfolding assms(7) by (rule lock_reachable.step [OF assms(1)], rule lock_step.call) (use assms history_reads [of n] in auto)

lemma history_reachable: "lock_reachable (history 2)" "lock_reachable (history 4)"
proof -
  have 0: "lock_reachable (history 0)" using lock_reachable.start [of True] by (simp add: history_def Let_def)
  have "lock_reachable (history (Suc 0))"
    by (rule history_step [OF 0, of 8 Read]) (auto simp: history_defs)
  then have "lock_reachable (history (Suc (Suc 0)))"
    by (rule history_step [where t = 8 and c = Read_to_write]) (auto simp: history_defs)
  then show 2: "lock_reachable (history 2)" by (simp add: numeral_2_eq_2)
  have "lock_reachable (history (Suc 2))"
    by (rule history_step [OF 2, of 16 Read]) (auto simp: history_defs)
  then have "lock_reachable (history (Suc (Suc 2)))"
    by (rule history_step [where t = 8 and c = Done]) (auto simp: history_defs)
  then show "lock_reachable (history 4)" by simp
qed





text \<open>C25. \<open>lock_set_recursive\<close> accepts a thread that holds the lock by \<open>lock_write\<close>, but panics for one
  that holds it for writing by an upgrade, as long as no other thread waits to write: it looks
  at \<open>want_write\<close> only.\<close>

theorem lock_set_recursive_panics:
  assumes "lock_reachable s"
  shows "(excl (holds s t) = By_write \<longrightarrow> lock_set_recursive t (lk s) \<noteq> None) \<and>
    (excl (holds s t) = By_upgrade \<and> (\<forall>v. \<not> at_loop (ts s v) Drain_write) \<longrightarrow> lock_set_recursive t (lk s) = None)"
proof -
  obtain w u where i: "lock_inv w u s" using reachable_inv [OF assms] by (auto simp: lock_ok_def)
  note d = lock_invD(1) [OF i]
  have ti: "thread_inv w u (total_reads (holds s)) (lk s) v (ts s v) (holds s v)" for v using lock_invD(5) [OF i] .
  have "w = Some t" if "excl (holds s t) = By_write" using ti [of t] that by (simp add: thread_inv_def)
  moreover have "w = None" if up: "excl (holds s t) = By_upgrade" and no: "\<forall>v. \<not> at_loop (ts s v) Drain_write"
  proof (rule ccontr)
    assume "w \<noteq> None"
    then obtain v where v: "w = Some v" by blast
    then have "excl (holds s v) = By_write" using ti [of v] no by (auto simp: thread_inv_def)
    moreover from this have "t \<noteq> v" using up by auto
    ultimately show False using exclusive_alone [OF i, of v t] up by auto
  qed
  ultimately show ?thesis using d by (auto simp: lock_set_recursive_def)
qed

theorem lock_set_recursive_panics_witness:
  "excl (holds (history 2) 8) = By_upgrade \<and> lock_set_recursive 8 (lk (history 2)) = None"
proof -
  have "excl (holds (history 2) 8) = By_upgrade" "\<forall>v. \<not> at_loop (ts (history 2) v) Drain_write"
    by (simp_all add: history_defs)
  then show ?thesis using lock_set_recursive_panics [OF history_reachable(1), of 8] by blast
qed

end
