(* ===== verification/Device_Cirbuf.thy ===== *)
theory Device_Cirbuf
  imports Mach_Prelude
begin

text \<open>
  The circular character buffers of the terminal drivers (device/cirbuf.c, device/cirbuf.h).
  Pointers into the buffer are integers, memory is a function from addresses to bytes; one byte
  between the write and the read pointer stays unused.  The bytes that \<open>q_to_b\<close> and \<open>b_to_q\<close>
  exchange with the caller are lists.  A failing \<open>cb_check\<close> (a panic) is \<open>None\<close>, and so is a loop
  that does not end.  A \<open>char\<close> is signed, as on the machines the kernel runs on.
\<close>

subsection \<open>The code\<close>

record cirbuf =
  c_start :: int
  c_end :: int
  c_cf :: int
  c_cl :: int
  c_cc :: int

type_synonym memory = "int \<Rightarrow> 8 word"

text \<open>The characters between two addresses, and \<open>bcopy\<close> of characters to an address.\<close>

definition chars :: "memory \<Rightarrow> int \<Rightarrow> int \<Rightarrow> 8 word list" where
  "chars mem a b = map mem [a..b - 1]"

definition bcopy_to :: "8 word list \<Rightarrow> int \<Rightarrow> memory \<Rightarrow> memory" where
  "bcopy_to cs a mem = (\<lambda>p. if a \<le> p \<and> p < a + int (length cs) then cs ! nat (p - a) else mem p)"

definition cb_check :: "cirbuf \<Rightarrow> unit option" where
  "cb_check cb =
     do {
       kassert (c_start cb \<le> c_cf cb \<and> c_cf cb < c_end cb);
       kassert (c_start cb \<le> c_cl cb \<and> c_cl cb < c_end cb);
       if c_cf cb \<le> c_cl cb then kassert (c_cc cb = c_cl cb - c_cf cb)
       else kassert (c_cc cb = c_end cb - c_cf cb + c_cl cb - c_start cb)
     }"

definition putc :: "u32 \<Rightarrow> memory \<times> cirbuf \<Rightarrow> (u32 \<times> memory \<times> cirbuf) option" where
  "putc c st =
     do {
       let (mem, cb) = st;
       let ow = c_cl cb;
       let nw = ow + 1;
       let nw = (if nw = c_end cb then c_start cb else nw);
       if nw = c_cf cb then Some (1, mem, cb)
       else
         do {
           let mem = mem(ow := ucast c);
           let cb = cb\<lparr>c_cl := nw\<rparr>;
           let cb = cb\<lparr>c_cc := c_cc cb + 1\<rparr>;
           _ \<leftarrow> cb_check cb;
           Some (0, mem, cb)
         }
     }"

definition getc :: "memory \<times> cirbuf \<Rightarrow> (u32 \<times> memory \<times> cirbuf) option" where
  "getc st =
     do {
       let (mem, cb) = st;
       let nr = c_cf cb;
       if nr = c_cl cb then do { _ \<leftarrow> cb_check cb; Some (-1, mem, cb) }
       else
         do {
           let c = scast (mem nr);
           let nr = nr + 1;
           let nr = (if nr = c_end cb then c_start cb else nr);
           let cb = cb\<lparr>c_cf := nr\<rparr>;
           let cb = cb\<lparr>c_cc := c_cc cb - 1\<rparr>;
           _ \<leftarrow> cb_check cb;
           Some (c, mem, cb)
         }
     }"

text \<open>The loop of \<open>q_to_b\<close>; \<open>cp\<close> collects the characters that are moved.\<close>

partial_function (option) q_to_b_loop ::
  "8 word list \<Rightarrow> int \<Rightarrow> memory \<times> cirbuf \<Rightarrow> (8 word list \<times> memory \<times> cirbuf) option" where
  "q_to_b_loop cp count st =
     (let (mem, cb) = st in
      if count = 0 \<or> c_cl cb = c_cf cb then Some (cp, mem, cb)
      else
        let i = (if c_cl cb < c_cf cb then c_end cb - c_cf cb else c_cl cb - c_cf cb);
            i = (if i > count then count else i);
            cp = cp @ chars mem (c_cf cb) (c_cf cb + i);
            cb = cb\<lparr>c_cf := c_cf cb + i, c_cc := c_cc cb - i\<rparr>;
            cb = (if c_cf cb = c_end cb then cb\<lparr>c_cf := c_start cb\<rparr> else cb)
        in Option.bind (cb_check cb) (\<lambda>_. q_to_b_loop cp (count - i) (mem, cb)))"

definition q_to_b :: "int \<Rightarrow> memory \<times> cirbuf \<Rightarrow> (8 word list \<times> memory \<times> cirbuf) option" where
  "q_to_b count st = do { (cp, mem, cb) \<leftarrow> q_to_b_loop [] count st; _ \<leftarrow> cb_check cb; Some (cp, mem, cb) }"

text \<open>The loop of \<open>b_to_q\<close>; \<open>cp\<close> is the rest of the characters, \<open>count\<close> their number.\<close>

partial_function (option) b_to_q_loop ::
  "8 word list \<Rightarrow> int \<Rightarrow> memory \<times> cirbuf \<Rightarrow> (int \<times> memory \<times> cirbuf) option" where
  "b_to_q_loop cp count st =
     (let (mem, cb) = st in
      if count = 0 then Some (count, mem, cb)
      else
        let lim = c_cf cb - 1;
            lim = (if lim < c_start cb then c_end cb - 1 else lim)
        in
        if c_cl cb = lim then Some (count, mem, cb)
        else
          let i = (if c_cl cb < lim then lim - c_cl cb else c_end cb - c_cl cb);
              i = (if i > count then count else i);
              mem = bcopy_to (take (nat i) cp) (c_cl cb) mem;
              cb = cb\<lparr>c_cc := c_cc cb + i, c_cl := c_cl cb + i\<rparr>;
              cb = (if c_cl cb = c_end cb then cb\<lparr>c_cl := c_start cb\<rparr> else cb)
          in Option.bind (cb_check cb) (\<lambda>_. b_to_q_loop (drop (nat i) cp) (count - i) (mem, cb)))"

definition b_to_q :: "8 word list \<Rightarrow> memory \<times> cirbuf \<Rightarrow> (int \<times> memory \<times> cirbuf) option" where
  "b_to_q cp st =
     do { (count, mem, cb) \<leftarrow> b_to_q_loop cp (int (length cp)) st; _ \<leftarrow> cb_check cb; Some (count, mem, cb) }"

partial_function (option) ndqb_loop :: "u32 \<Rightarrow> int \<Rightarrow> int \<Rightarrow> memory \<Rightarrow> int option" where
  "ndqb_loop msk lim cp mem =
     (if cp < lim then
        if and (scast (mem cp)) msk \<noteq> 0 then Some cp else ndqb_loop msk lim (cp + 1) mem
      else Some cp)"

definition ndqb :: "u32 \<Rightarrow> memory \<times> cirbuf \<Rightarrow> int option" where
  "ndqb msk st =
     (let (mem, cb) = st;
          lim = (if c_cl cb < c_cf cb then c_end cb else c_cl cb)
      in
      if msk = 0 then Some (lim - c_cf cb)
      else do { cp \<leftarrow> ndqb_loop msk lim (c_cf cb) mem; Some (cp - c_cf cb) })"

partial_function (option) ndflush_loop :: "int \<Rightarrow> cirbuf \<Rightarrow> cirbuf option" where
  "ndflush_loop count cb =
     (if count = 0 \<or> c_cl cb = c_cf cb then Some cb
      else
        let i = (if c_cl cb < c_cf cb then c_end cb - c_cf cb else c_cl cb - c_cf cb);
            i = (if i > count then count else i);
            cb = cb\<lparr>c_cf := c_cf cb + i, c_cc := c_cc cb - i\<rparr>;
            cb = (if c_cf cb = c_end cb then cb\<lparr>c_cf := c_start cb\<rparr> else cb)
        in Option.bind (cb_check cb) (\<lambda>_. ndflush_loop (count - i) cb))"

definition ndflush :: "int \<Rightarrow> memory \<times> cirbuf \<Rightarrow> (memory \<times> cirbuf) option" where
  "ndflush count st =
     do { let (mem, cb) = st; cb \<leftarrow> ndflush_loop count cb; _ \<leftarrow> cb_check cb; Some (mem, cb) }"

text \<open>\<open>buf\<close> is the address that \<open>kalloc\<close> returns.\<close>

definition cb_alloc :: "int \<Rightarrow> int \<Rightarrow> cirbuf option" where
  "cb_alloc buf buf_size =
     do {
       let cb = \<lparr>c_start = buf, c_end = buf + buf_size, c_cf = buf, c_cl = buf, c_cc = 0\<rparr>;
       _ \<leftarrow> cb_check cb;
       Some cb
     }"

text \<open>The address and size that \<open>cb_free\<close> gives to \<open>kfree\<close>.\<close>

definition cb_free :: "cirbuf \<Rightarrow> int \<times> int" where
  "cb_free cb = (c_start cb, c_end cb - c_start cb)"


subsection \<open>The buffer as a queue\<close>

definition cb_ok :: "cirbuf \<Rightarrow> bool" where
  "cb_ok cb \<longleftrightarrow> c_start cb \<le> c_cf cb \<and> c_cf cb < c_end cb \<and> c_start cb \<le> c_cl cb \<and> c_cl cb < c_end cb \<and>
     c_cc cb = (if c_cf cb \<le> c_cl cb then c_cl cb - c_cf cb
       else c_end cb - c_cf cb + c_cl cb - c_start cb)"

definition contents :: "memory \<times> cirbuf \<Rightarrow> 8 word list" where
  "contents st =
     (let (mem, cb) = st in
      if c_cf cb \<le> c_cl cb then chars mem (c_cf cb) (c_cl cb)
      else chars mem (c_cf cb) (c_end cb) @ chars mem (c_start cb) (c_cl cb))"

definition capacity :: "cirbuf \<Rightarrow> nat" where
  "capacity cb = nat (c_end cb - c_start cb - 1)"

definition bounds :: "cirbuf \<Rightarrow> int \<times> int" where
  "bounds cb = (c_start cb, c_end cb)"

lemma cb_check_iff: "cb_check cb = Some u \<longleftrightarrow> cb_ok cb"
  by (auto simp: cb_check_def cb_ok_def)

lemma cb_check_ok [simp]: "cb_ok cb \<Longrightarrow> cb_check cb = Some ()"
  by (simp add: cb_check_iff)

lemma length_chars [simp]: "length (chars mem a b) = nat (b - a)"
  by (simp add: chars_def)

lemma chars_Nil [simp]: "b \<le> a \<Longrightarrow> chars mem a b = []"
  by (simp add: chars_def)

lemma chars_append: "a \<le> b \<Longrightarrow> b \<le> c \<Longrightarrow> chars mem a c = chars mem a b @ chars mem b c"
  using upto_split1 [of a b "c - 1"] by (cases "b = c") (auto simp: chars_def)

lemma chars_cong: "(\<And>p. a \<le> p \<Longrightarrow> p < b \<Longrightarrow> mem p = mem' p) \<Longrightarrow> chars mem a b = chars mem' a b"
  by (simp add: chars_def)

lemma chars_bcopy [simp]: "chars (bcopy_to cs a mem) a (a + int (length cs)) = cs"
  by (rule nth_equalityI) (auto simp: chars_def bcopy_to_def)

lemma chars_bcopy_other:
  assumes "c \<le> a \<or> a + int (length cs) \<le> b"
  shows "chars (bcopy_to cs a mem) b c = chars mem b c"
  by (rule chars_cong) (use assms in \<open>auto simp: bcopy_to_def\<close>)

lemma chars_first: "a < b \<Longrightarrow> chars mem a b = mem a # chars mem (a + 1) b"
  by (simp add: chars_def upto.simps)

lemma length_contents: "cb_ok cb \<Longrightarrow> length (contents (mem, cb)) = nat (c_cc cb)"
  by (auto simp: contents_def cb_ok_def)

lemma contents_capacity: "cb_ok cb \<Longrightarrow> length (contents (mem, cb)) \<le> capacity cb"
  by (auto simp: contents_def cb_ok_def capacity_def)

text \<open>Reading \<open>i\<close> characters that follow the read pointer.\<close>

definition advance :: "int \<Rightarrow> cirbuf \<Rightarrow> cirbuf" where
  "advance i cb =
     (let cb = cb\<lparr>c_cf := c_cf cb + i, c_cc := c_cc cb - i\<rparr>
      in if c_cf cb = c_end cb then cb\<lparr>c_cf := c_start cb\<rparr> else cb)"

definition readable :: "cirbuf \<Rightarrow> int" where
  "readable cb = (if c_cl cb < c_cf cb then c_end cb - c_cf cb else c_cl cb - c_cf cb)"

lemma advance_sel [simp]:
  "c_start (advance i cb) = c_start cb" "c_end (advance i cb) = c_end cb" "c_cl (advance i cb) = c_cl cb"
  "c_cf (advance i cb) = (if c_cf cb + i = c_end cb then c_start cb else c_cf cb + i)"
  "c_cc (advance i cb) = c_cc cb - i"
  by (simp_all add: advance_def Let_def)

lemma advance_correct:
  assumes "cb_ok cb" "0 \<le> i" "i \<le> readable cb"
  shows "cb_ok (advance i cb)" "bounds (advance i cb) = bounds cb"
    and "contents (mem, cb) = chars mem (c_cf cb) (c_cf cb + i) @ contents (mem, advance i cb)"
proof -
  show "cb_ok (advance i cb)" "bounds (advance i cb) = bounds cb"
    using assms by (auto simp: cb_ok_def readable_def bounds_def split: if_splits)
  show "contents (mem, cb) = chars mem (c_cf cb) (c_cf cb + i) @ contents (mem, advance i cb)"
  proof (cases "c_cl cb < c_cf cb")
    case True
    have "chars mem (c_cf cb) (c_end cb) = chars mem (c_cf cb) (c_cf cb + i) @ chars mem (c_cf cb + i) (c_end cb)"
      using assms(2,3) True by (intro chars_append) (simp_all add: readable_def)
    then show ?thesis using True assms by (simp add: contents_def cb_ok_def readable_def)
  next
    case False
    have "chars mem (c_cf cb) (c_cl cb) = chars mem (c_cf cb) (c_cf cb + i) @ chars mem (c_cf cb + i) (c_cl cb)"
      using assms(2,3) False by (intro chars_append) (simp_all add: readable_def)
    moreover have "c_cf cb + i \<noteq> c_end cb" "c_cf cb + i \<le> c_cl cb"
      using False assms by (simp_all add: cb_ok_def readable_def)
    ultimately show ?thesis using False by (simp add: contents_def)
  qed
qed

text \<open>Writing characters at the write pointer.\<close>

definition extend :: "int \<Rightarrow> cirbuf \<Rightarrow> cirbuf" where
  "extend i cb =
     (let cb = cb\<lparr>c_cc := c_cc cb + i, c_cl := c_cl cb + i\<rparr>
      in if c_cl cb = c_end cb then cb\<lparr>c_cl := c_start cb\<rparr> else cb)"

definition write_limit :: "cirbuf \<Rightarrow> int" where
  "write_limit cb = (if c_cf cb - 1 < c_start cb then c_end cb - 1 else c_cf cb - 1)"

definition writable :: "cirbuf \<Rightarrow> int" where
  "writable cb = (if c_cl cb < write_limit cb then write_limit cb - c_cl cb else c_end cb - c_cl cb)"

lemma extend_sel [simp]:
  "c_start (extend i cb) = c_start cb" "c_end (extend i cb) = c_end cb" "c_cf (extend i cb) = c_cf cb"
  "c_cl (extend i cb) = (if c_cl cb + i = c_end cb then c_start cb else c_cl cb + i)"
  "c_cc (extend i cb) = c_cc cb + i"
  by (simp_all add: extend_def Let_def)

lemma capacity_extend [simp]: "capacity (extend i cb) = capacity cb"
  by (simp add: capacity_def)

lemma extend_correct:
  assumes "cb_ok cb" "int (length cs) \<le> writable cb" "c_cl cb \<noteq> write_limit cb"
  shows "cb_ok (extend (int (length cs)) cb)" "bounds (extend (int (length cs)) cb) = bounds cb"
    and "contents (bcopy_to cs (c_cl cb) mem, extend (int (length cs)) cb) = contents (mem, cb) @ cs"
proof -
  let ?mem = "bcopy_to cs (c_cl cb) mem"
  show "cb_ok (extend (int (length cs)) cb)" "bounds (extend (int (length cs)) cb) = bounds cb"
    using assms by (auto simp: cb_ok_def writable_def write_limit_def bounds_def split: if_splits)
  have old: "chars ?mem (c_cf cb) (c_cl cb) = chars mem (c_cf cb) (c_cl cb)"
    "chars ?mem (c_start cb) (c_cl cb) = chars mem (c_start cb) (c_cl cb)"
    by (simp_all add: chars_bcopy_other)
  have c: "c_cl cb + int (length cs) \<le> c_cf cb" if "c_cl cb < c_cf cb"
    using assms that by (auto simp: cb_ok_def writable_def write_limit_def split: if_splits)
  have high: "chars ?mem (c_cf cb) (c_end cb) = chars mem (c_cf cb) (c_end cb)" if "c_cl cb < c_cf cb"
    using c [OF that] by (simp add: chars_bcopy_other)
  have joined: "chars ?mem a (c_cl cb + int (length cs)) = chars ?mem a (c_cl cb) @ cs" if "a \<le> c_cl cb" for a
    using chars_append [of a "c_cl cb" "c_cl cb + int (length cs)" ?mem] that by simp
  show "contents (?mem, extend (int (length cs)) cb) = contents (mem, cb) @ cs"
    using assms joined [of "c_cf cb"] joined [of "c_start cb"] old high c
    by (auto simp: contents_def cb_ok_def writable_def write_limit_def split: if_splits)
qed

lemma write_limit_full:
  "cb_ok cb \<Longrightarrow> c_cl cb = write_limit cb \<longleftrightarrow> length (contents (mem, cb)) = capacity cb"
  by (auto simp: contents_def cb_ok_def write_limit_def capacity_def split: if_splits)

lemma writable_pos: "cb_ok cb \<Longrightarrow> c_cl cb \<noteq> write_limit cb \<Longrightarrow> 0 < writable cb"
  by (auto simp: cb_ok_def writable_def write_limit_def)

lemma readable_pos: "cb_ok cb \<Longrightarrow> c_cl cb \<noteq> c_cf cb \<Longrightarrow> 0 < readable cb"
  by (auto simp: cb_ok_def readable_def)

lemma contents_empty: "cb_ok cb \<Longrightarrow> contents (mem, cb) = [] \<longleftrightarrow> c_cl cb = c_cf cb"
  using length_contents [of cb mem] by (auto simp: cb_ok_def split: if_splits)

subsection \<open>The loops\<close>

definition step_len :: "int \<Rightarrow> int \<Rightarrow> int" where
  "step_len i count = (if i > count then count else i)"

lemma q_to_b_loop_unfold:
  "q_to_b_loop cp count (mem, cb) =
     (if count = 0 \<or> c_cl cb = c_cf cb then Some (cp, mem, cb)
      else let i = step_len (readable cb) count in
        Option.bind (cb_check (advance i cb))
          (\<lambda>_. q_to_b_loop (cp @ chars mem (c_cf cb) (c_cf cb + i)) (count - i) (mem, advance i cb)))"
  by (subst q_to_b_loop.simps) (simp add: Let_def advance_def readable_def step_len_def)

lemma ndflush_loop_unfold:
  "ndflush_loop count cb =
     (if count = 0 \<or> c_cl cb = c_cf cb then Some cb
      else let i = step_len (readable cb) count in
        Option.bind (cb_check (advance i cb)) (\<lambda>_. ndflush_loop (count - i) (advance i cb)))"
  by (subst ndflush_loop.simps) (simp add: Let_def advance_def readable_def step_len_def)

lemma b_to_q_loop_unfold:
  "b_to_q_loop cp count (mem, cb) =
     (if count = 0 \<or> c_cl cb = write_limit cb then Some (count, mem, cb)
      else let i = step_len (writable cb) count in
        Option.bind (cb_check (extend i cb))
          (\<lambda>_. b_to_q_loop (drop (nat i) cp) (count - i) (bcopy_to (take (nat i) cp) (c_cl cb) mem, extend i cb)))"
  unfolding b_to_q_loop.simps [of cp count "(mem, cb)"] Let_def extend_def writable_def write_limit_def step_len_def
    prod.case
  by (cases "count = 0"; cases "c_cl cb = write_limit cb")
    (simp_all only: write_limit_def [symmetric] if_True if_False simp_thms cirbuf.simps cong: if_cong)

text \<open>One round of the reading loops.\<close>

lemma read_round:
  assumes "cb_ok cb" "0 < n" "c_cl cb \<noteq> c_cf cb" "i = step_len (readable cb) (int n)"
  shows "cb_ok (advance i cb)" "bounds (advance i cb) = bounds cb" "n - nat i < n" "int n - i = int (n - nat i)"
    and "take n (contents (mem, cb)) = chars mem (c_cf cb) (c_cf cb + i) @ take (n - nat i) (contents (mem, advance i cb))"
    and "drop n (contents (mem, cb)) = drop (n - nat i) (contents (mem, advance i cb))"
proof -
  have i: "0 < i" "i \<le> readable cb" "i \<le> int n"
    using assms(2,4) readable_pos [OF assms(1,3)] by (auto simp: step_len_def)
  note a = advance_correct [OF assms(1) _ i(2)]
  show "cb_ok (advance i cb)" "bounds (advance i cb) = bounds cb" using a(1,2) i(1) by simp_all
  show "n - nat i < n" "int n - i = int (n - nat i)" using i by linarith+
  have c: "contents (mem, cb) = chars mem (c_cf cb) (c_cf cb + i) @ contents (mem, advance i cb)"
    using a(3) i(1) by simp
  then show "take n (contents (mem, cb)) = chars mem (c_cf cb) (c_cf cb + i) @ take (n - nat i) (contents (mem, advance i cb))"
    "drop n (contents (mem, cb)) = drop (n - nat i) (contents (mem, advance i cb))"
    using i by (simp_all add: nat_le_iff)
qed

lemma q_to_b_loop_correct:
  "cb_ok cb \<Longrightarrow> \<exists>cb'. q_to_b_loop cp (int n) (mem, cb) = Some (cp @ take n (contents (mem, cb)), mem, cb') \<and>
     cb_ok cb' \<and> bounds cb' = bounds cb \<and> contents (mem, cb') = drop n (contents (mem, cb))"
proof (induction n arbitrary: cp cb rule: less_induct)
  case (less n)
  show ?case
  proof (cases "n = 0 \<or> c_cl cb = c_cf cb")
    case True
    then have "n = 0 \<or> contents (mem, cb) = []" using contents_empty [OF less.prems] by blast
    then show ?thesis using True less.prems by (subst q_to_b_loop_unfold) auto
  next
    case False
    define i where "i = step_len (readable cb) (int n)"
    have n: "0 < n" "c_cl cb \<noteq> c_cf cb" using False by auto
    note r = read_round [OF less.prems n i_def]
    have q: "q_to_b_loop cp (int n) (mem, cb) =
        q_to_b_loop (cp @ chars mem (c_cf cb) (c_cf cb + i)) (int (n - nat i)) (mem, advance i cb)"
      by (subst q_to_b_loop_unfold) (use n in \<open>simp add: Let_def i_def [symmetric] r(1,4)\<close>)
    show ?thesis unfolding q using less.IH [OF r(3) r(1), of "cp @ chars mem (c_cf cb) (c_cf cb + i)"]
      by (simp add: r(2,5,6))
  qed
qed

lemma ndflush_loop_correct:
  "cb_ok cb \<Longrightarrow> \<exists>cb'. ndflush_loop (int n) cb = Some cb' \<and>
     cb_ok cb' \<and> bounds cb' = bounds cb \<and> contents (mem, cb') = drop n (contents (mem, cb))"
proof (induction n arbitrary: cb rule: less_induct)
  case (less n)
  show ?case
  proof (cases "n = 0 \<or> c_cl cb = c_cf cb")
    case True
    then have "n = 0 \<or> contents (mem, cb) = []" using contents_empty [OF less.prems] by blast
    then show ?thesis using True less.prems by (subst ndflush_loop_unfold) auto
  next
    case False
    define i where "i = step_len (readable cb) (int n)"
    have n: "0 < n" "c_cl cb \<noteq> c_cf cb" using False by auto
    note r = read_round [OF less.prems n i_def]
    have q: "ndflush_loop (int n) cb = ndflush_loop (int (n - nat i)) (advance i cb)"
      by (subst ndflush_loop_unfold) (use n in \<open>simp add: Let_def i_def [symmetric] r(1,4)\<close>)
    show ?thesis unfolding q using less.IH [OF r(3) r(1)] by (simp add: r(2,5,6))
  qed
qed

lemma b_to_q_loop_correct:
  "cb_ok cb \<Longrightarrow> \<exists>mem' cb'. b_to_q_loop cp (int (length cp)) (mem, cb) =
       Some (int (length cp - (capacity cb - length (contents (mem, cb)))), mem', cb') \<and>
     cb_ok cb' \<and> bounds cb' = bounds cb \<and>
     contents (mem', cb') = contents (mem, cb) @ take (capacity cb - length (contents (mem, cb))) cp"
proof (induction "length cp" arbitrary: cp mem cb rule: less_induct)
  case less
  have cap: "length (contents (mem, cb)) \<le> capacity cb" using contents_capacity [OF less.prems] .
  show ?case
  proof (cases "cp = [] \<or> c_cl cb = write_limit cb")
    case True
    then have "cp = [] \<or> length (contents (mem, cb)) = capacity cb" using write_limit_full [OF less.prems] by blast
    then show ?thesis using True less.prems by (subst b_to_q_loop_unfold) auto
  next
    case False
    define i where "i = step_len (writable cb) (int (length cp))"
    let ?cs = "take (nat i) cp" let ?mem = "bcopy_to ?cs (c_cl cb) mem"
    have i: "0 < i" "i \<le> writable cb" "i \<le> int (length cp)"
      using False writable_pos [OF less.prems] by (auto simp: step_len_def i_def)
    have len: "int (length ?cs) = i" using i by simp
    note e = extend_correct [OF less.prems, where cs = "?cs", unfolded len, OF i(2)]
    have e': "cb_ok (extend i cb)" "bounds (extend i cb) = bounds cb"
      "contents (?mem, extend i cb) = contents (mem, cb) @ ?cs"
      using e False by simp_all
    have q: "b_to_q_loop cp (int (length cp)) (mem, cb) =
        b_to_q_loop (drop (nat i) cp) (int (length (drop (nat i) cp))) (?mem, extend i cb)"
      by (subst b_to_q_loop_unfold) (use False e'(1) i in \<open>simp add: Let_def i_def [symmetric] of_nat_diff\<close>)
    have fits: "length (contents (mem, cb)) + nat i \<le> capacity cb"
      using contents_capacity [OF e'(1), of ?mem] e'(2,3) i by simp
    have "length (drop (nat i) cp) < length cp" using i by simp
    from less.hyps [OF this e'(1), of ?mem] show ?thesis
      unfolding q e'(2,3) capacity_extend using fits i
      by (auto simp: take_add [symmetric])
  qed
qed

subsection \<open>Refinement of bounded queues\<close>

datatype tty_op = Putc u32 | Getc | Q_to_b nat | B_to_q "8 word list" | Ndflush nat

datatype cirbuf_out = Ret u32 | Moved "8 word list" | Not_entered int | Flushed

fun cirbuf_op :: "tty_op \<Rightarrow> memory \<times> cirbuf \<Rightarrow> (cirbuf_out \<times> memory \<times> cirbuf) option" where
  "cirbuf_op (Putc c) st = map_option (apfst Ret) (putc c st)"
| "cirbuf_op Getc st = map_option (apfst Ret) (getc st)"
| "cirbuf_op (Q_to_b n) st = map_option (apfst Moved) (q_to_b (int n) st)"
| "cirbuf_op (B_to_q cs) st = map_option (apfst Not_entered) (b_to_q cs st)"
| "cirbuf_op (Ndflush n) st = map_option (Pair Flushed) (ndflush (int n) st)"

fun fifo_op :: "nat \<Rightarrow> tty_op \<Rightarrow> 8 word list \<Rightarrow> (cirbuf_out \<times> 8 word list) option" where
  "fifo_op cap (Putc c) xs = Some (if length xs < cap then (Ret 0, xs @ [ucast c]) else (Ret 1, xs))"
| "fifo_op cap Getc [] = Some (Ret (-1), [])"
| "fifo_op cap Getc (x # xs) = Some (Ret (scast x), xs)"
| "fifo_op cap (Q_to_b n) xs = Some (Moved (take n xs), drop n xs)"
| "fifo_op cap (B_to_q cs) xs =
     Some (Not_entered (int (length cs - (cap - length xs))), xs @ take (cap - length xs) cs)"
| "fifo_op cap (Ndflush n) xs = Some (Flushed, drop n xs)"

definition holds :: "int \<times> int \<Rightarrow> memory \<times> cirbuf \<Rightarrow> 8 word list \<Rightarrow> bool" where
  "holds bs st xs \<longleftrightarrow> cb_ok (snd st) \<and> bounds (snd st) = bs \<and> contents st = xs"

lemma putc_correct:
  assumes "cb_ok cb"
  shows "\<exists>mem' cb'. putc c (mem, cb) =
      Some (if length (contents (mem, cb)) < capacity cb then 0 else 1, mem', cb') \<and> cb_ok cb' \<and> bounds cb' = bounds cb \<and>
    contents (mem', cb') = contents (mem, cb) @ (if length (contents (mem, cb)) < capacity cb then [ucast c] else [])"
proof -
  have lim: "(if c_cl cb + 1 = c_end cb then c_start cb else c_cl cb + 1) = c_cf cb \<longleftrightarrow> c_cl cb = write_limit cb"
    using assms by (auto simp: cb_ok_def write_limit_def)
  note full = write_limit_full [OF assms, of mem] and cap = contents_capacity [OF assms, of mem]
  show ?thesis
  proof (cases "c_cl cb = write_limit cb")
    case True
    then show ?thesis using lim full assms by (simp add: putc_def Let_def)
  next
    case False
    have e: "cb\<lparr>c_cl := if c_cl cb + 1 = c_end cb then c_start cb else c_cl cb + 1, c_cc := c_cc cb + 1\<rparr> = extend 1 cb"
      by (simp add: extend_def)
    have b: "mem(c_cl cb := ucast c) = bcopy_to [ucast c] (c_cl cb) mem"
      by (auto simp: bcopy_to_def fun_eq_iff)
    have "int (length [ucast c :: 8 word]) = 1" by simp
    note x = extend_correct [OF assms _ False, of "[ucast c]", unfolded this]
    have "1 \<le> writable cb" using writable_pos [OF assms False] by simp
    then have "cb_ok (extend 1 cb)" "bounds (extend 1 cb) = bounds cb"
      "contents (mem(c_cl cb := ucast c), extend 1 cb) = contents (mem, cb) @ [ucast c]"
      unfolding b using x by simp_all
    then show ?thesis using False lim full cap by (simp add: putc_def Let_def e split del: if_split)
  qed
qed

lemma getc_correct:
  assumes "cb_ok cb" "contents (mem, cb) = x # xs"
  shows "\<exists>cb'. getc (mem, cb) = Some (scast x, mem, cb') \<and> cb_ok cb' \<and> bounds cb' = bounds cb \<and>
    contents (mem, cb') = xs"
proof -
  have ne: "c_cl cb \<noteq> c_cf cb" using contents_empty [OF assms(1)] assms(2) by (metis list.distinct(1))
  have r: "1 \<le> readable cb" using readable_pos [OF assms(1) ne] by simp
  have e: "cb\<lparr>c_cf := if c_cf cb + 1 = c_end cb then c_start cb else c_cf cb + 1, c_cc := c_cc cb - 1\<rparr> = advance 1 cb"
    by (simp add: advance_def)
  have "chars mem (c_cf cb) (c_cf cb + 1) = [mem (c_cf cb)]" by (simp add: chars_def)
  then have "mem (c_cf cb) = x" "contents (mem, advance 1 cb) = xs"
    using advance_correct(3) [OF assms(1) _ r, of mem] assms(2) by simp_all
  then show ?thesis using ne advance_correct(1,2) [OF assms(1) _ r]
    by (simp add: getc_def Let_def e split del: if_split)
qed

lemma cirbuf_step:
  assumes "holds (s, e) st xs" "fifo_op (nat (e - s - 1)) x xs = Some (y, xs')"
  shows "\<exists>st'. cirbuf_op x st = Some (y, st') \<and> holds (s, e) st' xs'"
proof -
  obtain mem cb where st: "st = (mem, cb)" by (cases st)
  have ok: "cb_ok cb" and cap: "bounds cb = (s, e)" "capacity cb = nat (e - s - 1)" and xs: "contents (mem, cb) = xs"
    using assms(1) by (auto simp add: holds_def st bounds_def capacity_def)
  show ?thesis
  proof (cases x)
    case (Putc c)
    then show ?thesis using putc_correct [OF ok, of c mem] assms(2) cap xs
      by (auto simp: st holds_def split: if_splits)
  next
    case Getc
    show ?thesis
    proof (cases xs)
      case Nil
      then show ?thesis using Getc assms ok contents_empty [OF ok] xs
        by (auto simp: st getc_def Let_def)
    next
      case (Cons a as)
      then show ?thesis using Getc assms(2) getc_correct [OF ok, of mem a as] xs cap by (auto simp: st holds_def)
    qed
  next
    case (Q_to_b n)
    then show ?thesis using q_to_b_loop_correct [OF ok, of "[]" n mem] assms(2) cap xs
      by (auto simp: st holds_def q_to_b_def)
  next
    case (B_to_q cs)
    then show ?thesis using b_to_q_loop_correct [OF ok, of cs mem] assms(2) cap xs
      by (auto simp: st holds_def b_to_q_def)
  next
    case (Ndflush n)
    then show ?thesis using ndflush_loop_correct [OF ok, of n mem] assms(2) cap xs
      by (auto simp: st holds_def ndflush_def)
  qed
qed

lemma ndqb_loop_correct:
  "cp \<le> lim \<Longrightarrow> ndqb_loop msk lim cp mem =
     Some (cp + int (length (takeWhile (\<lambda>c. and (scast c) msk = 0) (chars mem cp lim))))"
proof (induction "nat (lim - cp)" arbitrary: cp)
  case 0
  then show ?case by (subst ndqb_loop.simps) simp
next
  case (Suc n)
  have c: "chars mem cp lim = mem cp # chars mem (cp + 1) lim" using Suc(2) by (intro chars_first) linarith
  have "ndqb_loop msk lim (cp + 1) mem =
      Some (cp + 1 + int (length (takeWhile (\<lambda>c. and (scast c) msk = 0) (chars mem (cp + 1) lim))))"
    using Suc(2) by (intro Suc(1)) linarith+
  moreover have "cp < lim" using Suc(2) by linarith
  ultimately show ?case by (subst ndqb_loop.simps) (simp add: c)
qed

subsection \<open>Properties\<close>

text \<open>C26. A circular buffer of \<open>buf_size\<close> bytes is a bounded queue of \<open>buf_size - 1\<close> characters: every
  sequence of the operations on a freshly allocated buffer ends without a panic, returns what the
  bounded queue returns (the refusal of \<open>putc\<close>, the number of characters that \<open>b_to_q\<close> could not
  enter, the \<open>-1\<close> of \<open>getc\<close> on an empty buffer), and leaves the same characters.\<close>

theorem cirbuf_refines_fifo:
  assumes "0 < buf_size" "run_ops (fifo_op (nat (buf_size - 1))) ops [] = Some (outs, xs)"
  shows "\<exists>cb st. cb_alloc buf buf_size = Some cb \<and> run_ops cirbuf_op ops (mem, cb) = Some (outs, st) \<and>
    contents st = xs \<and> cb_free (snd st) = (buf, buf_size)"
proof -
  let ?cb = "\<lparr>c_start = buf, c_end = buf + buf_size, c_cf = buf, c_cl = buf, c_cc = 0\<rparr>"
  have ok: "cb_ok ?cb" using assms(1) by (simp add: cb_ok_def)
  then have a: "cb_alloc buf buf_size = Some ?cb" by (simp add: cb_alloc_def Let_def)
  have "holds (buf, buf + buf_size) (mem, ?cb) []" using ok by (simp add: holds_def bounds_def contents_def)
  moreover have "nat (buf_size - 1) = nat (buf + buf_size - buf - 1)" by simp
  ultimately obtain st where "run_ops cirbuf_op ops (mem, ?cb) = Some (outs, st)" "holds (buf, buf + buf_size) st xs"
    using run_ops_simulation [of "holds (buf, buf + buf_size)" "fifo_op (nat (buf + buf_size - buf - 1))" cirbuf_op "(mem, ?cb)" "[]" ops outs xs]
      cirbuf_step assms(2) by metis
  moreover from this have "contents st = xs" "cb_free (snd st) = (buf, buf_size)"
    by (auto simp: holds_def cb_free_def bounds_def)
  ultimately show ?thesis using a by blast
qed

theorem cirbuf_refines_fifo_witness:
  "\<exists>cb st. cb_alloc 4096 4 = Some cb \<and>
     run_ops cirbuf_op [Putc 65, B_to_q [66, 67, 68], Getc, Putc 69, Q_to_b 2, Ndflush 5, Getc] (\<lambda>_. 0, cb) =
       Some ([Ret 0, Not_entered 1, Ret 65, Ret 0, Moved [66, 67], Flushed, Ret (-1)], st) \<and>
     contents st = [] \<and> cb_free (snd st) = (4096, 4)"
proof -
  have c: "scast (65 :: 8 word) = (65 :: u32)" by code_simp
  show ?thesis by (rule cirbuf_refines_fifo) (simp_all add: c)
qed

text \<open>C27. \<open>ndqb\<close> counts the characters before the first one that matches the mask, among those that
  can be read without wrapping around the end of the buffer, and all of these for an empty mask.
  The mask meets the sign-extended character.\<close>

theorem ndqb_correct:
  assumes "cb_check cb = Some ()"
  shows "ndqb msk (mem, cb) =
    Some (int (length (takeWhile (\<lambda>c. and (scast c) msk = 0)
      (if c_cl cb < c_cf cb then chars mem (c_cf cb) (c_end cb) else contents (mem, cb)))))"
proof -
  have ok: "cb_ok cb" using assms by (simp add: cb_check_iff)
  let ?lim = "if c_cl cb < c_cf cb then c_end cb else c_cl cb"
  have le: "c_cf cb \<le> ?lim" using ok by (simp add: cb_ok_def)
  have c: "(if c_cl cb < c_cf cb then chars mem (c_cf cb) (c_end cb) else contents (mem, cb)) = chars mem (c_cf cb) ?lim"
    by (simp add: contents_def)
  have t: "takeWhile (\<lambda>c. True) (xs :: 8 word list) = xs" for xs by (simp add: takeWhile_eq_all_conv)
  show ?thesis unfolding c using ndqb_loop_correct [OF le, of msk mem] le by (simp add: ndqb_def Let_def t)
qed

theorem ndqb_correct_witness:
  "ndqb 0x80 (\<lambda>p. if p = 12 then 0x80 else 0x20, \<lparr>c_start = 8, c_end = 16, c_cf = 10, c_cl = 14, c_cc = 4\<rparr>) =
    Some (int (length (takeWhile (\<lambda>c. and (scast c) (0x80 :: u32) = 0) [0x20, 0x20, 0x80, 0x20 :: 8 word])))"
  using ndqb_correct [of "\<lparr>c_start = 8, c_end = 16, c_cf = 10, c_cl = 14, c_cc = 4\<rparr>" "0x80"
      "\<lambda>p. if p = 12 then 0x80 else 0x20"]
  by (simp add: cb_check_def contents_def chars_def upto.simps)

text \<open>C28. The character \<open>0xff\<close> cannot be told from an empty buffer: when it is the next character,
  \<open>getc\<close> takes it out and returns the \<open>-1\<close> that it also returns for an empty buffer, because a
  \<open>char\<close> is sign-extended.\<close>

theorem getc_0xff_looks_empty:
  assumes "cb_check cb = Some ()" "contents (mem, cb) = 0xff # xs"
  shows "\<exists>cb'. getc (mem, cb) = Some (-1, mem, cb') \<and> contents (mem, cb') = xs"
proof -
  have "scast (0xff :: 8 word) = (-1 :: u32)" by code_simp
  then show ?thesis using getc_correct [of cb mem "0xff" xs] assms by (auto simp: cb_check_iff)
qed

theorem getc_0xff_looks_empty_witness:
  "\<exists>cb'. getc (\<lambda>_. 0xff, \<lparr>c_start = 8, c_end = 16, c_cf = 15, c_cl = 9, c_cc = 2\<rparr>) = Some (-1, \<lambda>_. 0xff, cb') \<and>
     contents (\<lambda>_. 0xff, cb') = [0xff]"
  by (rule getc_0xff_looks_empty) (simp_all add: cb_check_def contents_def chars_def upto.simps)

end
