(* ===== verification/Net_Filter.thy ===== *)
theory Net_Filter
  imports Kern_Queue "HOL-Library.Multiset"
begin

text \<open>
  The packet filters of the network interfaces (device/net_io.c, device/net_status.h): the check
  of a filter, its evaluation on a packet, the list of filters of an interface, the delivery of
  a packet, and the pool of message buffers.  The kernel queues that the code uses are lists
  here, which theory Kern_Queue and theory Ipc_Queue justify.  An access outside of the
  evaluation stack or outside of an array is \<open>None\<close>.
\<close>

subsection \<open>Filter words\<close>

type_synonym filter_t = "16 word"

definition NET_MAX_FILTER :: nat where
  "NET_MAX_FILTER = 40"

definition NETF_ARG :: "u32 \<Rightarrow> u32" where
  "NETF_ARG w = and w 0x3ff"

definition NETF_OP :: "u32 \<Rightarrow> u32" where
  "NETF_OP w = and (drop_bit 10 w) 0x3f"

text \<open>The operators, as \<open>NETF_OP\<close> extracts them, and the stack arguments.\<close>

definition op_NOP :: u32 where "op_NOP = NETF_OP (push_bit 10 0)"
definition op_EQ :: u32 where "op_EQ = NETF_OP (push_bit 10 1)"
definition op_LT :: u32 where "op_LT = NETF_OP (push_bit 10 2)"
definition op_LE :: u32 where "op_LE = NETF_OP (push_bit 10 3)"
definition op_GT :: u32 where "op_GT = NETF_OP (push_bit 10 4)"
definition op_GE :: u32 where "op_GE = NETF_OP (push_bit 10 5)"
definition op_AND :: u32 where "op_AND = NETF_OP (push_bit 10 6)"
definition op_OR :: u32 where "op_OR = NETF_OP (push_bit 10 7)"
definition op_XOR :: u32 where "op_XOR = NETF_OP (push_bit 10 8)"
definition op_COR :: u32 where "op_COR = NETF_OP (push_bit 10 9)"
definition op_CAND :: u32 where "op_CAND = NETF_OP (push_bit 10 10)"
definition op_CNOR :: u32 where "op_CNOR = NETF_OP (push_bit 10 11)"
definition op_CNAND :: u32 where "op_CNAND = NETF_OP (push_bit 10 12)"
definition op_NEQ :: u32 where "op_NEQ = NETF_OP (push_bit 10 13)"
definition op_LSH :: u32 where "op_LSH = NETF_OP (push_bit 10 14)"
definition op_RSH :: u32 where "op_RSH = NETF_OP (push_bit 10 15)"
definition op_ADD :: u32 where "op_ADD = NETF_OP (push_bit 10 16)"
definition op_SUB :: u32 where "op_SUB = NETF_OP (push_bit 10 17)"

lemmas op_defs = op_NOP_def op_EQ_def op_LT_def op_LE_def op_GT_def op_GE_def op_AND_def op_OR_def op_XOR_def
  op_COR_def op_CAND_def op_CNOR_def op_CNAND_def op_NEQ_def op_LSH_def op_RSH_def op_ADD_def op_SUB_def

definition NETF_NOPUSH :: u32 where "NETF_NOPUSH = 0"
definition NETF_PUSHLIT :: u32 where "NETF_PUSHLIT = 1"
definition NETF_PUSHZERO :: u32 where "NETF_PUSHZERO = 2"
definition NETF_PUSHWORD :: u32 where "NETF_PUSHWORD = 16"

subsection \<open>Evaluation\<close>

text \<open>The array \<open>int stack[NET_MAX_FILTER+1]\<close>, whose elements start with any values.\<close>

type_synonym filter_stack = "nat \<Rightarrow> u32"

definition stack_at :: "nat \<Rightarrow> filter_stack \<Rightarrow> u32 option" where
  "stack_at sp stack = (if sp \<le> NET_MAX_FILTER then Some (stack sp) else None)"

text \<open>The packet is bytes; \<open>packet_short\<close> reads it as unsigned shorts, low byte first.\<close>

definition packet_short :: "(nat \<Rightarrow> 8 word) \<Rightarrow> nat \<Rightarrow> 16 word" where
  "packet_short packet i = or (ucast (packet (2 * i))) (push_bit 8 (ucast (packet (2 * i + 1))))"

definition of_bool32 :: "bool \<Rightarrow> u32" where
  "of_bool32 b = (if b then 1 else 0)"

text \<open>The first switch: the argument and the new \<open>sp\<close>, or the rejection of the packet
  (\<open>Some None\<close>).  \<open>fp\<close> is the rest of the filter.\<close>

definition filter_arg :: "(nat \<Rightarrow> 8 word) \<Rightarrow> u32 \<Rightarrow> u32 \<Rightarrow> filter_t list \<Rightarrow> nat \<Rightarrow> filter_stack \<Rightarrow>
    (u32 \<times> nat) option option" where
  "filter_arg packet cnt arg fp sp stack =
     (if arg = NETF_PUSHLIT then
        (case fp of [] \<Rightarrow> None | lit # _ \<Rightarrow> Some (Some (ucast lit, sp)))
      else if arg = NETF_PUSHZERO then Some (Some (0, sp))
      else if arg = NETF_NOPUSH then do { x \<leftarrow> stack_at sp stack; Some (Some (x, sp + 1)) }
      else
        let arg = arg - NETF_PUSHWORD in
        if arg < cnt div 2 then Some (Some (ucast (packet_short packet (unat arg)), sp)) else Some None)"

text \<open>The operators that replace the top of the stack.  The comparisons are unsigned, because
  \<open>arg\<close> is; shifts take the number of positions modulo 32, as the processor does, and the shift
  to the right is signed.\<close>

definition filter_binary :: "u32 \<Rightarrow> u32 \<Rightarrow> u32 \<Rightarrow> u32" where
  "filter_binary op x arg =
     (if op = op_AND then and x arg
      else if op = op_OR then or x arg
      else if op = op_XOR then xor x arg
      else if op = op_EQ then of_bool32 (x = arg)
      else if op = op_NEQ then of_bool32 (x \<noteq> arg)
      else if op = op_LT then of_bool32 (x < arg)
      else if op = op_LE then of_bool32 (x \<le> arg)
      else if op = op_GT then of_bool32 (x > arg)
      else if op = op_GE then of_bool32 (x \<ge> arg)
      else if op = op_LSH then push_bit (unat arg mod 32) x
      else if op = op_RSH then signed_drop_bit (unat arg mod 32) x
      else if op = op_ADD then x + arg
      else x - arg)"

definition is_binary :: "u32 \<Rightarrow> bool" where
  "is_binary op \<longleftrightarrow> op \<in> set [op_AND, op_OR, op_XOR, op_EQ, op_NEQ, op_LT, op_LE, op_GT, op_GE, op_LSH, op_RSH,
     op_ADD, op_SUB]"

definition is_conditional :: "u32 \<Rightarrow> bool" where
  "is_conditional op \<longleftrightarrow> op \<in> set [op_COR, op_CAND, op_CNOR, op_CNAND]"

text \<open>The second switch: a decision, or the new \<open>sp\<close> and stack.\<close>

datatype executed = Decide bool | Continue nat filter_stack

definition filter_exec :: "u32 \<Rightarrow> u32 \<Rightarrow> nat \<Rightarrow> filter_stack \<Rightarrow> executed option" where
  "filter_exec op arg sp stack =
     (if op = op_NOP then
        do { kassert (0 < sp \<and> sp - 1 \<le> NET_MAX_FILTER); Some (Continue (sp - 1) (stack(sp - 1 := arg))) }
      else if is_binary op then
        do { x \<leftarrow> stack_at sp stack; Some (Continue sp (stack(sp := filter_binary op x arg))) }
      else if op = op_COR then
        do { x \<leftarrow> stack_at sp stack; Some (if x = arg then Decide True else Continue (sp + 1) stack) }
      else if op = op_CAND then
        do { x \<leftarrow> stack_at sp stack; Some (if x \<noteq> arg then Decide False else Continue (sp + 1) stack) }
      else if op = op_CNOR then
        do { x \<leftarrow> stack_at sp stack; Some (if x = arg then Decide False else Continue (sp + 1) stack) }
      else if op = op_CNAND then
        do { x \<leftarrow> stack_at sp stack; Some (if x \<noteq> arg then Decide True else Continue (sp + 1) stack) }
      else Some (Continue sp stack))"

function (sequential) net_do_filter_loop ::
    "(nat \<Rightarrow> 8 word) \<Rightarrow> u32 \<Rightarrow> filter_t list \<Rightarrow> nat \<Rightarrow> filter_stack \<Rightarrow> bool option" where
  "net_do_filter_loop packet cnt [] sp stack = do { x \<leftarrow> stack_at sp stack; Some (x \<noteq> 0) }"
| "net_do_filter_loop packet cnt (w # fp) sp stack =
     (let op = NETF_OP (ucast w);
          arg = NETF_ARG (ucast w);
          rest = (if arg = NETF_PUSHLIT then tl fp else fp)
      in
      case filter_arg packet cnt arg fp sp stack of
        None \<Rightarrow> None
      | Some None \<Rightarrow> Some False
      | Some (Some (v, sp)) \<Rightarrow>
          (case filter_exec op v sp stack of
             None \<Rightarrow> None
           | Some (Decide b) \<Rightarrow> Some b
           | Some (Continue sp stack) \<Rightarrow> net_do_filter_loop packet cnt rest sp stack))"
  by pat_completeness auto
termination
  by (relation "measure (\<lambda>(packet, cnt, fp, sp, stack). length fp)") auto

definition net_do_filter :: "filter_t list \<Rightarrow> (nat \<Rightarrow> 8 word) \<Rightarrow> u32 \<Rightarrow> filter_stack \<Rightarrow> bool option" where
  "net_do_filter flt packet cnt stack =
     net_do_filter_loop packet cnt flt NET_MAX_FILTER (stack(NET_MAX_FILTER := 1))"

subsection \<open>The check\<close>

function (sequential) parse_net_filter_loop :: "filter_t list \<Rightarrow> int \<Rightarrow> bool" where
  "parse_net_filter_loop [] sp = True"
| "parse_net_filter_loop (w # fp) sp =
     (let op = NETF_OP (ucast w);
          arg = NETF_ARG (ucast w);
          rest = (if arg = NETF_PUSHLIT then tl fp else fp)
      in
      if arg = NETF_PUSHLIT \<and> fp = [] then False
      else if arg \<noteq> NETF_NOPUSH \<and> arg \<noteq> NETF_PUSHLIT \<and> arg \<noteq> NETF_PUSHZERO \<and> arg < NETF_PUSHWORD then False
      else
        let sp = (if arg = NETF_NOPUSH then sp else sp - 1) in
        if sp < 2 then False
        else if op = op_NOP then parse_net_filter_loop rest sp
        else if sp > int NET_MAX_FILTER - 2 then False
        else if is_binary op \<or> is_conditional op then parse_net_filter_loop rest (sp + 1)
        else False)"
  by pat_completeness auto
termination
  by (relation "measure (\<lambda>(fp, sp). length fp)") auto

definition parse_net_filter :: "filter_t list \<Rightarrow> bool" where
  "parse_net_filter flt = parse_net_filter_loop flt (int NET_MAX_FILTER)"

subsection \<open>The filters of an interface\<close>

text \<open>The entries of \<open>if_rcv_port_list\<close>; \<open>rcv_filter\<close> is the part of the array before \<open>filter_end\<close>.\<close>

record net_rcv_port =
  rcv_port :: addr
  rcv_count :: int
  priority :: int
  rcv_filter :: "filter_t list"

datatype io_return = D_SUCCESS | D_INVALID_OPERATION | D_NO_SUCH_DEVICE

text \<open>Looking for the entry of a port, and taking it out of the list.\<close>

fun take_port :: "addr \<Rightarrow> net_rcv_port list \<Rightarrow> (net_rcv_port \<times> net_rcv_port list) option" where
  "take_port port [] = None"
| "take_port port (infp # rest) =
     (if rcv_port infp = port then Some (infp, rest)
      else map_option (\<lambda>(found, rest). (found, infp # rest)) (take_port port rest))"

fun insert_priority :: "net_rcv_port \<Rightarrow> net_rcv_port list \<Rightarrow> net_rcv_port list" where
  "insert_priority infp [] = [infp]"
| "insert_priority infp (nxt # rest) =
     (if priority infp > priority nxt then infp # nxt # rest else nxt # insert_priority infp rest)"

text \<open>Changing the filter of an entry; the array has \<open>NET_MAX_FILTER\<close> elements.\<close>

definition change_filter :: "int \<Rightarrow> filter_t list \<Rightarrow> net_rcv_port \<Rightarrow> net_rcv_port option" where
  "change_filter pri flt infp =
     do {
       kassert (length flt \<le> NET_MAX_FILTER);
       Some (infp\<lparr>priority := pri, rcv_filter := flt\<rparr>)
     }"

text \<open>\<open>others\<close> is what happens to the list while it is unlocked for the allocation of a new entry.
  The result also says whether the extra send right is released.\<close>

definition net_set_filter :: "addr \<Rightarrow> int \<Rightarrow> filter_t list \<Rightarrow> (net_rcv_port list \<Rightarrow> net_rcv_port list) \<Rightarrow>
    net_rcv_port list \<Rightarrow> (io_return \<times> bool \<times> net_rcv_port list) option" where
  "net_set_filter port pri flt others ports =
     (if \<not> parse_net_filter flt then Some (D_INVALID_OPERATION, False, ports)
      else
        let (found, infp, ports) =
          (case take_port port ports of
             Some (infp, ports) \<Rightarrow> (True, infp, ports)
           | None \<Rightarrow>
               (let new_infp = \<lparr>rcv_port = port, rcv_count = 0, priority = 0, rcv_filter = []\<rparr>;
                    ports = others ports
                in case take_port port ports of
                     Some (infp, ports) \<Rightarrow> (True, infp, ports)
                   | None \<Rightarrow> (False, new_infp, ports)))
        in
        do {
          infp \<leftarrow> change_filter pri flt infp;
          Some (D_SUCCESS, found, insert_priority infp ports)
        })"



subsection \<open>Message buffers\<close>

text \<open>The fields of a network message that this code sets.\<close>

record net_msg =
  msgh_remote_port :: addr
  msgh_local_port :: addr
  packet_count :: u32
  msg_packet :: "nat \<Rightarrow> 8 word"
  msg_header :: "nat \<Rightarrow> 8 word"

text \<open>\<open>net_kmsg_ilist\<close> with its counters, \<open>net_rcv_msg_queue\<close>, and the contents of the buffers.\<close>

record net_state =
  net_kmsg_ilist :: "addr list"
  net_kmsg_ilist_free :: int
  net_kmsg_ilist_hits :: int
  net_kmsg_ilist_misses :: int
  net_rcv_msg_queue :: "addr list"
  net_msgs :: "addr \<Rightarrow> net_msg"

definition net_kmsg_ilist_min :: int where
  "net_kmsg_ilist_min = 4"



text \<open>The buffers that are freed, and the state; a dequeue from an empty list would free a null
  pointer.\<close>

function net_kmsg_collect :: "net_state \<Rightarrow> (addr list \<times> net_state) option" where
  "net_kmsg_collect st =
     (if net_kmsg_ilist_free st > net_kmsg_ilist_min then
        (case net_kmsg_ilist st of
           [] \<Rightarrow> None
         | kmsg # rest \<Rightarrow>
             map_option (\<lambda>(freed, st). (kmsg # freed, st))
               (net_kmsg_collect (st\<lparr>net_kmsg_ilist := rest, net_kmsg_ilist_free := net_kmsg_ilist_free st - 1\<rparr>)))
      else Some ([], st))"
  by auto
termination
  by (relation "measure (\<lambda>st. nat (net_kmsg_ilist_free st))") (auto simp: net_kmsg_ilist_min_def)

subsection \<open>Delivery\<close>


text \<open>The exchange of two neighbours in a kernel queue.\<close>

definition reorder_queue :: "addr \<Rightarrow> addr \<Rightarrow> links \<Rightarrow> links" where
  "reorder_queue first lst h =
     (let prv = prev_of h first;
          nxt = next_of h lst;
          h = set_next prv lst h;
          h = set_prev nxt first h;
          h = set_prev lst prv h;
          h = set_next lst first h;
          h = set_next first nxt h
      in set_prev first lst h)"




subsection \<open>The check and the evaluation\<close>

lemma op_values [simp]:
  "op_NOP = 0" "op_EQ = 1" "op_LT = 2" "op_LE = 3" "op_GT = 4" "op_GE = 5" "op_AND = 6" "op_OR = 7" "op_XOR = 8"
  "op_COR = 9" "op_CAND = 10" "op_CNOR = 11" "op_CNAND = 12" "op_NEQ = 13" "op_LSH = 14" "op_RSH = 15" "op_ADD = 16"
  "op_SUB = 17"
  by (simp_all add: op_defs NETF_OP_def)

lemmas arg_values = NETF_NOPUSH_def NETF_PUSHLIT_def NETF_PUSHZERO_def NETF_PUSHWORD_def

text \<open>The words of a filter that are instructions.\<close>

function (sequential) instructions :: "filter_t list \<Rightarrow> filter_t list" where
  "instructions [] = []"
| "instructions (w # fp) = w # instructions (if NETF_ARG (ucast w) = NETF_PUSHLIT then tl fp else fp)"
  by pat_completeness auto
termination
  by (relation "measure length") auto

lemma stack_at_Some [simp]: "sp \<le> NET_MAX_FILTER \<Longrightarrow> stack_at sp stack = Some (stack sp)"
  by (simp add: stack_at_def)

text \<open>One instruction: where the check goes on with \<open>sp'\<close>, the evaluation of an instruction that
  is not conditional goes on with \<open>sp'\<close> too, or rejects the packet.\<close>

lemma exec_not_conditional:
  assumes "\<not> is_conditional op" "is_binary op \<and> sp \<le> NET_MAX_FILTER \<or> op = op_NOP \<and> 0 < sp \<and> sp \<le> Suc NET_MAX_FILTER"
  shows "\<exists>stack'. filter_exec op v sp stack = Some (Continue (if op = op_NOP then sp - 1 else sp) stack')"
  using assms by (auto simp: filter_exec_def is_conditional_def is_binary_def)

lemma net_do_filter_loop_safe:
  assumes "parse_net_filter_loop fp (int sp)" "sp \<le> NET_MAX_FILTER"
    and "list_all (\<lambda>w. \<not> is_conditional (NETF_OP (ucast w))) (instructions fp)"
  shows "\<exists>b. net_do_filter_loop packet cnt fp sp stack = Some b"
  using assms
proof (induction fp arbitrary: sp stack rule: instructions.induct)
  case 1
  then show ?case by simp
next
  case (2 w fp)
  let ?op = "NETF_OP (ucast w)" let ?arg = "NETF_ARG (ucast w)"
  let ?rest = "if ?arg = NETF_PUSHLIT then tl fp else fp"
  let ?sp = "if ?arg = NETF_NOPUSH then int sp else int sp - 1"
  have nc: "\<not> is_conditional ?op" "list_all (\<lambda>w. \<not> is_conditional (NETF_OP (ucast w))) (instructions ?rest)"
    using 2(4) by simp_all
  have lit: "\<not> (?arg = NETF_PUSHLIT \<and> fp = [])" and sp2: "2 \<le> ?sp"
    and op: "?op = op_NOP \<and> parse_net_filter_loop ?rest ?sp \<or>
       is_binary ?op \<and> ?sp \<le> int NET_MAX_FILTER - 2 \<and> parse_net_filter_loop ?rest (?sp + 1)"
    using 2(2) nc(1) by (auto simp: Let_def split: if_splits)
  define sp1 where "sp1 = (if ?arg = NETF_NOPUSH then Suc sp else sp)"
  have sp1: "?sp = int sp1 - 1" "3 \<le> sp1" using sp2 by (auto simp: sp1_def)
  note op' = op [unfolded sp1(1)]
  have le: "sp1 - 1 \<le> NET_MAX_FILTER" using 2(3) by (auto simp: sp1_def)
  have arg: "filter_arg packet cnt ?arg fp sp stack = Some None \<or>
      (\<exists>v. filter_arg packet cnt ?arg fp sp stack = Some (Some (v, sp1)))"
    using lit 2(3) by (auto simp: filter_arg_def sp1_def Let_def arg_values split: list.splits)
  have step: "\<exists>b. net_do_filter_loop packet cnt (w # fp) sp stack = Some b"
    if v: "filter_arg packet cnt ?arg fp sp stack = Some (Some (v, sp1))" for v
  proof -
    let ?sp' = "if ?op = op_NOP then sp1 - 1 else sp1"
    have "is_binary ?op \<and> sp1 \<le> NET_MAX_FILTER \<or> ?op = op_NOP \<and> 0 < sp1 \<and> sp1 \<le> Suc NET_MAX_FILTER"
      using op sp1 2(3) by (auto simp: sp1_def)
    then obtain stack' where e: "filter_exec ?op v sp1 stack = Some (Continue ?sp' stack')"
      using exec_not_conditional [OF nc(1)] by blast
    have "parse_net_filter_loop ?rest (int ?sp') \<and> ?sp' \<le> NET_MAX_FILTER"
    proof (cases "?op = op_NOP")
      case True
      then have "parse_net_filter_loop ?rest (int sp1 - 1)" using op' by (auto simp: is_binary_def)
      moreover have "int (sp1 - 1) = int sp1 - 1" using sp1(2) by simp
      ultimately have "parse_net_filter_loop ?rest (int (sp1 - 1))" by (simp only:)
      then show ?thesis using True le by simp
    next
      case False
      then have "parse_net_filter_loop ?rest (int sp1 - 1 + 1)" "int sp1 - 1 \<le> int NET_MAX_FILTER - 2" using op' by blast+
      then have "parse_net_filter_loop ?rest (int sp1)" "sp1 \<le> NET_MAX_FILTER" by simp_all
      then show ?thesis using False by simp
    qed
    then obtain b where "net_do_filter_loop packet cnt ?rest ?sp' stack' = Some b" using 2(1) nc(2) by metis
    moreover have "net_do_filter_loop packet cnt (w # fp) sp stack = net_do_filter_loop packet cnt ?rest ?sp' stack'"
      by (simp only: net_do_filter_loop.simps Let_def v e option.case prod.case executed.case)
    ultimately show ?thesis by metis
  qed
  show ?case
  proof (cases "filter_arg packet cnt ?arg fp sp stack = Some None")
    case True
    then show ?thesis by (simp only: net_do_filter_loop.simps Let_def option.case) blast
  next
    case False
    then show ?thesis using arg step by blast
  qed
qed

subsection \<open>The list of filters\<close>

text \<open>The filters stand by falling priority, each port has one, and each has passed the check.\<close>

definition by_priority :: "net_rcv_port list \<Rightarrow> bool" where
  "by_priority ports \<longleftrightarrow> sorted_wrt (\<lambda>a b. priority a \<ge> priority b) ports"




lemma set_insert_priority [simp]: "set (insert_priority infp ports) = insert infp (set ports)"
  by (induction ports) auto

lemma mset_insert_priority [simp]: "mset (insert_priority infp ports) = add_mset infp (mset ports)"
  by (induction ports) auto






subsection \<open>Delivery\<close>



definition port_key :: "net_rcv_port \<Rightarrow> addr \<times> int \<times> filter_t list" where
  "port_key p = (rcv_port p, priority p, rcv_filter p)"






lemma port_key_count [simp]: "port_key (p\<lparr>rcv_count := n\<rparr>) = port_key p"
  by (simp add: port_key_def)

lemma by_priority_count [simp]: "by_priority (ps @ (p\<lparr>rcv_count := n\<rparr>) # qs) = by_priority (ps @ p # qs)"
  by (simp add: by_priority_def sorted_wrt_append)



subsection \<open>Properties\<close>

definition plain_filter :: "filter_t list \<Rightarrow> bool" where
  "plain_filter flt \<longleftrightarrow> list_all (\<lambda>w. \<not> is_conditional (NETF_OP (ucast w))) (instructions flt)"

lemma plain_filter_evaluates:
  "parse_net_filter flt \<Longrightarrow> plain_filter flt \<Longrightarrow> \<exists>b. net_do_filter flt packet cnt stack = Some b"
  unfolding parse_net_filter_def plain_filter_def net_do_filter_def by (rule net_do_filter_loop_safe) simp_all

lemmas filter_eval = parse_net_filter_def net_do_filter_def plain_filter_def NETF_ARG_def NETF_OP_def arg_values
  is_binary_def is_conditional_def NET_MAX_FILTER_def filter_arg_def filter_exec_def stack_at_def Let_def

text \<open>C29. Soundness of the check for filters without conditional operators: a filter that
  \<open>parse_net_filter\<close> accepts is evaluated by \<open>net_do_filter\<close> on every packet without an access
  outside of its stack or of the filter, whatever the stack holds at first.\<close>

theorem accepted_filter_stays_in_stack:
  assumes "parse_net_filter flt" "plain_filter flt"
  shows "\<exists>b. net_do_filter flt packet cnt stack = Some b"
  using plain_filter_evaluates [OF assms] .

text \<open>The filter of the witnesses: word 1 of the packet equals \<open>0x800\<close>.\<close>

lemma ip_filter: "parse_net_filter [17, 1025, 0x800]" "plain_filter [17, 1025, 0x800]"
  by (simp_all add: filter_eval)

theorem accepted_filter_stays_in_stack_witness:
  "\<exists>b. net_do_filter [17, 1025, 0x800] (\<lambda>_. 0) 64 (\<lambda>_. 7) = Some b"
  by (rule accepted_filter_stays_in_stack [OF ip_filter])

text \<open>C32. The check misses the conditional operators, which take one more element from the stack than
  it accounts for: \<open>parse_net_filter\<close> accepts a filter of two conditional operators, and
  \<open>net_do_filter\<close> reads beyond its stack for every packet.\<close>

theorem conditional_filter_leaves_stack:
  "parse_net_filter [2, 0x2802, 0x2801, 1] \<and> net_do_filter [2, 0x2802, 0x2801, 1] packet cnt stack = None"
  by (simp add: filter_eval)

lemma parse_nothing: "parse_net_filter_loop (replicate n 0) (int NET_MAX_FILTER)"
  by (induction n) (simp_all add: filter_eval)

text \<open>C33. \<open>net_set_filter\<close> does not check the length of a filter: a filter of more than
  \<open>NET_MAX_FILTER\<close> words that only does nothing is accepted by the check, and copying it runs over
  the array of the entry.\<close>

theorem long_filter_overruns_entry:
  "parse_net_filter (replicate (NET_MAX_FILTER + Suc n) 0) \<and>
   net_set_filter port pri (replicate (NET_MAX_FILTER + Suc n) 0) others ports = None"
proof -
  have p: "parse_net_filter (replicate (NET_MAX_FILTER + Suc n) 0)"
    unfolding parse_net_filter_def by (rule parse_nothing)
  have "change_filter pri (replicate (NET_MAX_FILTER + Suc n) 0) infp = None" for infp
    by (simp add: change_filter_def)
  then show ?thesis using p
    by (simp add: net_set_filter_def del: replicate.simps(2) split: option.splits prod.splits)
qed






text \<open>C34. \<open>reorder_queue\<close> exchanges two neighbours of a kernel queue and leaves the rest in its order.\<close>

theorem reorder_queue_swaps:
  assumes "ring h (q # xs @ a # b # ys)"
  shows "ring (reorder_queue a b h) (q # xs @ b # a # ys)"
proof -
  let ?p = "last (q # xs)" let ?n = "hd (ys @ [q])" let ?h = "reorder_queue a b h"
  have d: "distinct (q # xs @ a # b # ys)" and p: "path h q xs a" "prev_of h b = a" "next_of h a = b" "path h b ys q"
    using assms by simp_all
  have pn: "prev_of h a = ?p" "next_of h b = ?n" using path_last [OF p(1)] path_first [OF p(4)] by simp_all
  have pin: "?p \<in> set (q # xs)" by (rule last_in_set) simp
  then have "?p \<noteq> a" "?p \<noteq> b" using d by auto
  then have h: "next_of ?h = (next_of h)(?p := b, b := a, a := ?n)" "prev_of ?h = (prev_of h)(?n := a, b := ?p, a := b)"
    by (auto simp: reorder_queue_def Let_def pn fun_upd_twist)
  have "set (q # xs) \<inter> set ys = {}" using d by auto
  then have py: "?p \<notin> set ys" using pin by blast
  have nin: "?n \<in> set (ys @ [q])" by (rule hd_in_set) simp
  have 1: "path ?h q xs b"
    by (rule path_retarget [OF p(1)]) (use d h nin pin in \<open>auto split: if_splits\<close>)
  have 2: "path ?h a ys q"
  proof (cases ys)
    case Nil
    then show ?thesis using d h by auto
  next
    case (Cons y zs)
    have "path h y zs q" using p(4) Cons by simp
    then have "path ?h y zs q" by (rule path_cong) (use d h py Cons in \<open>auto split: if_splits\<close>)
    then show ?thesis using Cons d h by auto
  qed
  have "next_of ?h b = a" "prev_of ?h a = b" using h d by auto
  then show ?thesis using 1 2 d by auto
qed

theorem reorder_queue_swaps_witness:
  "ring (reorder_queue 16 32 three_ring) [8, 32, 16]"
  using reorder_queue_swaps [of three_ring 8 "[]" 16 32 "[]"] three_ring_ring by simp
end
